(* ===== verification/NDN_Prelude.thy ===== *)
theory NDN_Prelude
  imports Main "HOL-Library.Word" "HOL-Library.List_Lexorder" "HOL-Library.AList"
begin

text \<open>
  Shared vocabulary of the development: results of fallible operations, bytes and big-endian
  numbers, three-way comparison of byte strings as \<open>std::memcmp\<close> gives it, and generic facts
  on lists and association lists that the component theories use through their simp sets.
\<close>

unbundle bit_operations_syntax

named_theorems res_simps \<open>evaluation and inversion of the result monad\<close>
named_theorems alist_simps \<open>lookup after update and delete on association lists\<close>
named_theorems nt_simps \<open>lookup after a name tree operation\<close>
named_theorems fw_simps \<open>what a forwarder operation leaves unchanged\<close>

section \<open>Results\<close>

text \<open>
  How an operation can fail: the exceptions the code throws, a violated \<open>BOOST_ASSERT\<close>,
  an access outside an object (undefined behaviour of C++), and a loop that never returns.
\<close>

datatype failure =
    TlvError
  | InvalidArgument
  | OutOfRange
  | AssertionFailed
  | UndefinedBehavior
  | Diverges
  | OversizedPacket

type_synonym 'a res = "failure + 'a"

definition bind_res :: "'a res \<Rightarrow> ('a \<Rightarrow> 'b res) \<Rightarrow> 'b res" where
  "bind_res m f = (case m of Inl e \<Rightarrow> Inl e | Inr x \<Rightarrow> f x)"

definition assert_res :: "bool \<Rightarrow> 'a res \<Rightarrow> 'a res" where
  "assert_res b m = (if b then m else Inl AssertionFailed)"

lemma bind_res_Inr [simp, res_simps]: "bind_res (Inr x) f = f x"
  by (simp add: bind_res_def)

lemma bind_res_Inl [simp, res_simps]: "bind_res (Inl e) f = Inl e"
  by (simp add: bind_res_def)

lemma bind_res_eq_Inr [res_simps]:
  "bind_res m f = Inr y \<longleftrightarrow> (\<exists>x. m = Inr x \<and> f x = Inr y)"
  by (cases m) auto

lemma bind_res_eq_Inl [res_simps]:
  "bind_res m f = Inl e \<longleftrightarrow> m = Inl e \<or> (\<exists>x. m = Inr x \<and> f x = Inl e)"
  by (cases m) auto

lemma bind_res_cong [fundef_cong]:
  "m = m' \<Longrightarrow> (\<And>x. m' = Inr x \<Longrightarrow> f x = g x) \<Longrightarrow> bind_res m f = bind_res m' g"
  by (cases m') auto

lemma assert_res_eq_Inr [res_simps]: "assert_res b m = Inr y \<longleftrightarrow> b \<and> m = Inr y"
  by (simp add: assert_res_def)

lemma assert_res_True [simp]: "assert_res True m = m"
  by (simp add: assert_res_def)

text \<open>A loop over a list whose body may fail, in the order of the list.\<close>

fun fold_res :: "('a \<Rightarrow> 's \<Rightarrow> 's res) \<Rightarrow> 'a list \<Rightarrow> 's \<Rightarrow> 's res" where
  "fold_res f [] s = Inr s"
| "fold_res f (x # xs) s = bind_res (f x s) (fold_res f xs)"

lemma fold_res_append [simp]:
  "fold_res f (xs @ ys) s = bind_res (fold_res f xs s) (fold_res f ys)"
  by (induction xs arbitrary: s) (auto simp: bind_res_def split: sum.splits)

lemma fold_res_invariant:
  assumes "fold_res f xs s = Inr t" "P s"
    and "\<And>x s t. x \<in> set xs \<Longrightarrow> P s \<Longrightarrow> f x s = Inr t \<Longrightarrow> P t"
  shows "P t"
  using assms by (induction xs arbitrary: s) (auto simp: res_simps)

lemma fold_res_total:
  assumes "P s" "\<And>x s. x \<in> set xs \<Longrightarrow> P s \<Longrightarrow> \<exists>t. f x s = Inr t \<and> P t"
  shows "\<exists>t. fold_res f xs s = Inr t \<and> P t"
  using assms by (induction xs arbitrary: s) (force simp: res_simps)+

section \<open>Bytes and big-endian numbers\<close>

type_synonym byte = "8 word"
type_synonym bytes = "8 word list"

definition be_nat :: "bytes \<Rightarrow> nat" where
  "be_nat bs = foldl (\<lambda>acc b. acc * 256 + unat b) 0 bs"

definition be_bytes :: "nat \<Rightarrow> nat \<Rightarrow> bytes" where
  "be_bytes k n = map (\<lambda>i. word_of_nat (n div 256 ^ i)) (rev [0..<k])"

lemma unat_byte [simp]: "unat (b :: byte) < 256"
  using unsigned_less [of b, where ?'a = nat] by simp

lemma be_nat_Nil [simp]: "be_nat [] = 0"
  by (simp add: be_nat_def)

lemma be_nat_snoc [simp]: "be_nat (bs @ [b]) = be_nat bs * 256 + unat b"
  by (simp add: be_nat_def)

lemma be_nat_bound: "be_nat bs < 256 ^ length bs"
proof (induction bs rule: rev_induct)
  case (snoc b bs)
  have "be_nat bs + 1 \<le> 256 ^ length bs" using snoc by simp
  then have "(be_nat bs + 1) * 256 \<le> 256 ^ length bs * 256" by (rule mult_le_mono1)
  with unat_byte [of b] show ?case by (simp del: unat_byte)
qed simp

lemma length_be_bytes [simp]: "length (be_bytes k n) = k"
  by (simp add: be_bytes_def)

lemma be_bytes_Suc: "be_bytes (Suc k) n = be_bytes k (n div 256) @ [word_of_nat n]"
proof -
  have "rev [0..<Suc k] = map Suc (rev [0..<k]) @ [0]"
    by (simp add: upt_conv_Cons rev_map map_Suc_upt [symmetric] del: upt_Suc)
  then show ?thesis
    by (simp add: be_bytes_def div_mult2_eq comp_def)
qed

lemma be_nat_be_bytes: "be_nat (be_bytes k n) = n mod 256 ^ k"
proof (induction k arbitrary: n)
  case 0
  then show ?case by (simp add: be_bytes_def)
next
  case (Suc k)
  have "unat (word_of_nat n :: byte) = n mod 256"
    by (simp add: unat_of_nat)
  with Suc show ?case
    by (simp add: be_bytes_Suc mod_mult2_eq)
qed

lemma be_nat_be_bytes_id [simp]: "n < 256 ^ k \<Longrightarrow> be_nat (be_bytes k n) = n"
  by (simp add: be_nat_be_bytes)

lemma be_bytes_be_nat [simp]: "be_bytes (length bs) (be_nat bs) = bs"
proof (induction bs rule: rev_induct)
  case (snoc b bs)
  have "unat b < 256" by simp
  then have "(be_nat bs * 256 + unat b) div 256 = be_nat bs" by simp
  moreover have "(word_of_nat (be_nat bs * 256 + unat b) :: byte) = b"
    by (simp add: word_unat_eq_iff unat_of_nat del: of_nat_add of_nat_mult)
  ultimately show ?case using snoc by (simp add: be_bytes_Suc)
qed (simp add: be_bytes_def)

lemma be_nat_inject: "length as = length bs \<Longrightarrow> be_nat as = be_nat bs \<longleftrightarrow> as = bs"
  using be_bytes_be_nat by metis

text \<open>
  Shifting a 64-bit accumulator by a byte and OR-ing the next byte, the loop body the TLV
  reader uses, is the arithmetic step on the number read so far.
\<close>

lemma shift_or_byte:
  "push_bit 8 (acc :: 64 word) OR ucast (b :: byte) = acc * 256 + ucast b"
proof -
  have "bit (ucast b :: 64 word) n \<Longrightarrow> n < 8" for n
    by (auto simp: bit_ucast_iff dest: bit_imp_le_length)
  then have "push_bit 8 acc + ucast b = push_bit 8 acc OR ucast b"
    by (intro disjunctive_add) (metis bit_push_bit_iff not_le)
  then show ?thesis by (simp add: push_bit_eq_mult)
qed

lemma foldl_shift_or:
  "foldl (\<lambda>acc b. push_bit 8 acc OR ucast b) (word_of_nat a :: 64 word) (bs :: bytes)
     = word_of_nat (foldl (\<lambda>acc b. acc * 256 + unat b) a bs)"
proof (induction bs arbitrary: a)
  case (Cons b bs)
  have "push_bit 8 (word_of_nat a :: 64 word) OR ucast b = word_of_nat (a * 256 + unat b)"
    by (simp only: shift_or_byte of_nat_add of_nat_mult of_nat_unat) simp
  with Cons show ?case by (simp del: of_nat_add of_nat_mult)
qed simp

text \<open>Literals of the source as bytes.\<close>

definition ascii :: "string \<Rightarrow> bytes" where "ascii s = map (\<lambda>c. word_of_nat (of_char c)) s"

section \<open>Three-way comparison\<close>

text \<open>
  \<open>std::memcmp\<close> on two byte strings of the same length: only the sign of the result is
  specified, and only the sign is used.
\<close>

fun memcmp :: "bytes \<Rightarrow> bytes \<Rightarrow> int" where
  "memcmp (a # as) (b # bs) = (if a < b then -1 else if b < a then 1 else memcmp as bs)"
| "memcmp _ _ = 0"

lemma memcmp_refl [simp]: "memcmp as as = 0"
  by (induction as) auto

lemma memcmp_append:
  "length as = length bs \<Longrightarrow>
     memcmp (as @ cs) (bs @ ds) = (if memcmp as bs = 0 then memcmp cs ds else memcmp as bs)"
  by (induction as bs rule: list_induct2) auto

lemma memcmp_eq_0: "length as = length bs \<Longrightarrow> memcmp as bs = 0 \<longleftrightarrow> as = bs"
  by (induction as bs rule: list_induct2) auto

lemma memcmp_less: "length as = length bs \<Longrightarrow> memcmp as bs < 0 \<longleftrightarrow> as < bs"
  by (induction as bs rule: list_induct2) auto

lemma memcmp_swap: "length as = length bs \<Longrightarrow> memcmp bs as = - memcmp as bs"
  by (induction as bs rule: list_induct2) auto

lemma memcmp_be_nat:
  "length as = length bs \<Longrightarrow> memcmp as bs < 0 \<longleftrightarrow> be_nat as < be_nat bs"
proof (induction as arbitrary: bs rule: rev_induct)
  case (snoc a as)
  then obtain b bs' where bs: "bs = bs' @ [b]" "length as = length bs'"
    by (metis Suc_inject length_append_singleton length_Suc_conv_rev)
  have *: "be_nat as * 256 + unat a < be_nat bs' * 256 + unat b \<longleftrightarrow>
      be_nat as < be_nat bs' \<or> (be_nat as = be_nat bs' \<and> unat a < unat b)"
    using unat_byte [of a] unat_byte [of b] by arith
  show ?case
    using snoc.IH [OF bs(2)] bs be_nat_inject [OF bs(2)] memcmp_eq_0 [OF bs(2)]
    by (auto simp: memcmp_append * word_less_nat_alt)
qed simp

section \<open>Association lists\<close>

lemma map_of_update [simp, alist_simps]: "map_of (AList.update k v al) = (map_of al)(k \<mapsto> v)"
  by (rule update_conv')

lemma map_of_delete [simp, alist_simps]: "map_of (AList.delete k al) = (map_of al)(k := None)"
  by (rule delete_conv')

lemma map_of_map_snd [alist_simps]:
  "map_of (map (\<lambda>(k, v). (k, f k v)) al) k = map_option (f k) (map_of al k)"
  by (induction al) auto

lemma length_AList_update:
  "length (AList.update k v al) = (if k \<in> fst ` set al then length al else Suc (length al))"
  by (induction al) auto

section \<open>Lists\<close>

lemma filter_partition_length:
  "length (filter P xs) + length (filter (\<lambda>x. \<not> P x) xs) = length xs"
  by (induction xs) auto

lemma distinct_map_filter: "distinct (map f xs) \<Longrightarrow> distinct (map f (filter P xs))"
  by (induction xs) auto

lemma find_map_of_distinct:
  "distinct (map f xs) \<Longrightarrow> x \<in> set xs \<Longrightarrow> find (\<lambda>y. f y = f x) xs = Some x"
  by (induction xs) (auto simp: image_iff)

end
