(* ===== verification/Tlv.thy ===== *)
theory Tlv
  imports NDN_Prelude
begin

text \<open>
  NDN-TLV encoding: \<open>ndn-cxx/encoding/tlv.hpp\<close>, \<open>tlv.cpp\<close>, the element reader of
  \<open>block.cpp\<close> and the helpers of \<open>block-helpers.cpp\<close>.  A reader that advances an
  iterator over \<open>[begin, end)\<close> becomes a function of the remaining bytes that returns the
  value with the bytes left; \<open>None\<close> is the \<open>false\<close> result.  Numbers are 64-bit words.
\<close>

section \<open>Numbers\<close>

definition Invalid :: nat where "Invalid = 0"

definition isCriticalType :: "nat \<Rightarrow> bool" where
  "isCriticalType type = (type \<le> 31 \<or> odd type)"

text \<open>The two paths of \<open>detail::readNumber\<close>: contiguous iterators, and any iterator.\<close>

definition big_to_native :: "bytes \<Rightarrow> 64 word" where
  "big_to_native bs = word_of_nat (be_nat bs)"

definition readNumber_fast :: "nat \<Rightarrow> bytes \<Rightarrow> (64 word \<times> bytes) option" where
  "readNumber_fast sz bs =
     (if sz > length bs then None
      else Some (big_to_native (take sz bs), drop sz bs))"

fun readNumber_loop :: "nat \<Rightarrow> 64 word \<Rightarrow> bytes \<Rightarrow> (64 word \<times> bytes) option" where
  "readNumber_loop 0 number bs = Some (number, bs)"
| "readNumber_loop (Suc n) number [] = None"
| "readNumber_loop (Suc n) number (b # bs) =
     readNumber_loop n (push_bit 8 number OR ucast b) bs"

definition readNumber_slow :: "nat \<Rightarrow> bytes \<Rightarrow> (64 word \<times> bytes) option" where
  "readNumber_slow sz bs = readNumber_loop sz 0 bs"

definition readVarNumber :: "bytes \<Rightarrow> (64 word \<times> bytes) option" where
  "readVarNumber bs =
     (case bs of
        [] \<Rightarrow> None
      | firstOctet # rest \<Rightarrow>
          if firstOctet < 253 then Some (ucast firstOctet, rest)
          else readNumber_fast (if firstOctet = 253 then 2 else if firstOctet = 254 then 4 else 8) rest)"

definition readType :: "bytes \<Rightarrow> (nat \<times> bytes) option" where
  "readType bs =
     (case readVarNumber bs of
        None \<Rightarrow> None
      | Some (number, rest) \<Rightarrow>
          if unat number = Invalid \<or> unat number > 2 ^ 32 - 1 then None
          else Some (unat number, rest))"

definition sizeOfVarNumber :: "64 word \<Rightarrow> nat" where
  "sizeOfVarNumber number =
     (if number < 253 then 1 else if number \<le> 0xFFFF then 3 else if number \<le> 0xFFFFFFFF then 5 else 9)"

definition writeVarNumber :: "64 word \<Rightarrow> bytes" where
  "writeVarNumber number =
     (if number < 253 then [ucast number]
      else if number \<le> 0xFFFF then 253 # be_bytes 2 (unat number)
      else if number \<le> 0xFFFFFFFF then 254 # be_bytes 4 (unat number)
      else 255 # be_bytes 8 (unat number))"

definition readNonNegativeInteger :: "nat \<Rightarrow> bytes \<Rightarrow> (64 word \<times> bytes) res" where
  "readNonNegativeInteger len bs =
     (if len \<noteq> 1 \<and> len \<noteq> 2 \<and> len \<noteq> 4 \<and> len \<noteq> 8 then Inl TlvError
      else case readNumber_fast len bs of None \<Rightarrow> Inl TlvError | Some r \<Rightarrow> Inr r)"

definition sizeOfNonNegativeInteger :: "64 word \<Rightarrow> nat" where
  "sizeOfNonNegativeInteger integer =
     (if integer \<le> 0xFF then 1 else if integer \<le> 0xFFFF then 2
      else if integer \<le> 0xFFFFFFFF then 4 else 8)"

definition writeNonNegativeInteger :: "64 word \<Rightarrow> bytes" where
  "writeNonNegativeInteger integer =
     (if integer \<le> 0xFF then [ucast integer]
      else if integer \<le> 0xFFFF then be_bytes 2 (unat integer)
      else if integer \<le> 0xFFFFFFFF then be_bytes 4 (unat integer)
      else be_bytes 8 (unat integer))"

section \<open>Elements\<close>

text \<open>
  A TLV element with its type and value.  \<open>Block::fromBuffer\<close> reads one element from the
  front of a buffer; \<open>Block::parse\<close> splits a value into its sub-elements and throws when one
  is malformed; \<open>makeBinaryBlock\<close> prepends length and type to a value.
\<close>

datatype block = Block (block_type: nat) (block_value: bytes)

definition fromBuffer :: "bytes \<Rightarrow> (block \<times> bytes) option" where
  "fromBuffer bs =
     (case readType bs of
        None \<Rightarrow> None
      | Some (type, r1) \<Rightarrow>
          (case readVarNumber r1 of
             None \<Rightarrow> None
           | Some (len, r2) \<Rightarrow>
               if unat len > length r2 then None
               else Some (Block type (take (unat len) r2), drop (unat len) r2)))"

definition makeBinaryBlock :: "nat \<Rightarrow> bytes \<Rightarrow> bytes" where
  "makeBinaryBlock type value =
     writeVarNumber (word_of_nat type) @ writeVarNumber (word_of_nat (length value)) @ value"

definition makeNonNegativeIntegerBlock :: "nat \<Rightarrow> 64 word \<Rightarrow> bytes" where
  "makeNonNegativeIntegerBlock type value =
     writeVarNumber (word_of_nat type) @
     writeVarNumber (word_of_nat (sizeOfNonNegativeInteger value)) @
     writeNonNegativeInteger value"

definition block_wire :: "block \<Rightarrow> bytes" where
  "block_wire b = makeBinaryBlock (block_type b) (block_value b)"

definition block_size :: "block \<Rightarrow> nat" where
  "block_size b =
     sizeOfVarNumber (word_of_nat (block_type b)) +
     sizeOfVarNumber (word_of_nat (length (block_value b))) + length (block_value b)"

definition block_ok :: "block \<Rightarrow> bool" where
  "block_ok b \<longleftrightarrow> 0 < block_type b \<and> block_type b < 2 ^ 32 \<and> length (block_value b) < 2 ^ 64"

lemma readNumber_loop_fold:
  "n \<le> length bs \<Longrightarrow>
     readNumber_loop n number bs =
       Some (foldl (\<lambda>acc b. push_bit 8 acc OR ucast b) number (take n bs), drop n bs)"
  by (induction n number bs rule: readNumber_loop.induct) auto

lemma readNumber_loop_short: "length bs < n \<Longrightarrow> readNumber_loop n number bs = None"
  by (induction n number bs rule: readNumber_loop.induct) auto

lemma foldl_shift_or_0:
  "foldl (\<lambda>acc b. push_bit 8 acc OR ucast b) (0 :: 64 word) bs = big_to_native bs"
  using foldl_shift_or [of 0 bs] by (simp add: big_to_native_def be_nat_def)

lemma readNumber_fast_append [simp]:
  "length bs = n \<Longrightarrow> readNumber_fast n (bs @ rest) = Some (big_to_native bs, rest)"
  by (simp add: readNumber_fast_def)

lemma readNumber_fast_rest:
  "readNumber_fast n bs = Some (x, r) \<Longrightarrow> length r + n = length bs"
  by (auto simp: readNumber_fast_def split: if_splits)

lemma big_to_native_be_bytes [simp]:
  "unat w < 256 ^ k \<Longrightarrow> big_to_native (be_bytes k (unat w)) = w"
  by (simp add: big_to_native_def)

lemma unat_big_to_native [simp]: "length bs \<le> 8 \<Longrightarrow> unat (big_to_native bs) = be_nat bs"
proof -
  assume "length bs \<le> 8"
  then have "(256 :: nat) ^ length bs \<le> 256 ^ 8" by (intro power_increasing) auto
  with be_nat_bound [of bs] show ?thesis
    by (simp add: big_to_native_def unat_of_nat)
qed

lemma word64_bounds:
  "w \<le> 0xFF \<longleftrightarrow> unat (w :: 64 word) < 256 ^ 1" "w \<le> 0xFFFF \<longleftrightarrow> unat w < 256 ^ 2"
  "w \<le> 0xFFFFFFFF \<longleftrightarrow> unat w < 256 ^ 4" "unat w < 256 ^ 8" "w < 253 \<longleftrightarrow> unat w < 253"
  using unsigned_less [of w, where ?'a = nat] by (auto simp: word_le_nat_alt word_less_nat_alt)

lemma ucast_ucast_byte: "unat (w :: 64 word) < 256 \<Longrightarrow> ucast (ucast w :: byte) = w"
  by (simp add: word_unat_eq_iff unsigned_ucast_eq take_bit_eq_mod unat_mod)

lemma unat_ucast_byte: "unat (w :: 64 word) < 256 \<Longrightarrow> unat (ucast w :: byte) = unat w"
  by (simp add: unsigned_ucast_eq take_bit_eq_mod unat_mod)

lemma readVarNumber_writeVarNumber [simp]:
  "readVarNumber (writeVarNumber w @ rest) = Some (w, rest)"
  using word64_bounds(4) [of w]
  by (auto simp: readVarNumber_def writeVarNumber_def word64_bounds word_less_nat_alt
      ucast_ucast_byte unat_ucast_byte)

lemma length_writeVarNumber: "length (writeVarNumber w) = sizeOfVarNumber w"
  by (simp add: writeVarNumber_def sizeOfVarNumber_def)

lemma length_writeNonNegativeInteger:
  "length (writeNonNegativeInteger w) = sizeOfNonNegativeInteger w"
  by (simp add: writeNonNegativeInteger_def sizeOfNonNegativeInteger_def)

lemma be_nat_single [simp]: "be_nat [b] = unat b"
  by (simp add: be_nat_def)

lemma be_nat_writeNonNegativeInteger [simp]: "be_nat (writeNonNegativeInteger w) = unat w"
  using word64_bounds(4) [of w]
  by (simp add: writeNonNegativeInteger_def word64_bounds unat_ucast_byte)

lemma readNonNegativeInteger_write [simp]:
  "readNonNegativeInteger (sizeOfNonNegativeInteger w) (writeNonNegativeInteger w @ rest) = Inr (w, rest)"
proof -
  have "big_to_native (writeNonNegativeInteger w) = w"
    by (simp add: big_to_native_def)
  then show ?thesis
    by (simp add: readNonNegativeInteger_def length_writeNonNegativeInteger)
      (simp add: sizeOfNonNegativeInteger_def)
qed

lemma readVarNumber_progress: "readVarNumber bs = Some (w, r) \<Longrightarrow> length r < length bs"
  by (auto simp: readVarNumber_def split: list.splits if_splits dest!: readNumber_fast_rest)

lemma readType_progress: "readType bs = Some (t, r) \<Longrightarrow> length r < length bs"
  by (auto simp: readType_def split: option.splits if_splits dest: readVarNumber_progress)

lemma fromBuffer_progress: "fromBuffer bs = Some (b, r) \<Longrightarrow> length r < length bs"
  by (force simp: fromBuffer_def split: option.splits if_splits
      dest: readVarNumber_progress readType_progress)

lemma readType_writeVarNumber:
  "0 < t \<Longrightarrow> t < 2 ^ 32 \<Longrightarrow> readType (writeVarNumber (word_of_nat t) @ rest) = Some (t, rest)"
  by (simp add: readType_def Invalid_def unat_of_nat)

lemma fromBuffer_makeBinaryBlock:
  assumes "0 < t" "t < 2 ^ 32" "length v < 2 ^ 64"
  shows "fromBuffer (makeBinaryBlock t v @ rest) = Some (Block t v, rest)"
  using assms by (simp add: fromBuffer_def makeBinaryBlock_def readType_writeVarNumber unat_of_nat)

lemma block_size_wire: "block_size b = length (block_wire b)"
  by (simp add: block_size_def block_wire_def makeBinaryBlock_def length_writeVarNumber)

function parse_elements :: "bytes \<Rightarrow> block list res" where
  "parse_elements bs =
     (if bs = [] then Inr []
      else case fromBuffer bs of
        None \<Rightarrow> Inl TlvError
      | Some (b, rest) \<Rightarrow> bind_res (parse_elements rest) (\<lambda>es. Inr (b # es)))"
  by auto
termination
  by (relation "measure length") (auto dest: fromBuffer_progress)

declare parse_elements.simps [simp del]

section \<open>The contract of an encoder and its decoder\<close>

text \<open>
  A codec: decoding what was encoded, in front of any further bytes, gives the value back and
  leaves exactly those bytes.  Unique decodability of single values and of sequences follows.
\<close>

locale codec =
  fixes enc :: "'a \<Rightarrow> bytes" and dec :: "bytes \<Rightarrow> ('a \<times> bytes) option" and ok :: "'a \<Rightarrow> bool"
  assumes dec_enc: "ok x \<Longrightarrow> dec (enc x @ rest) = Some (x, rest)"
    and dec_progress: "dec bs = Some (x, rest) \<Longrightarrow> length rest < length bs"
begin

lemma enc_append_inject:
  assumes "ok x" "ok y" "enc x @ r = enc y @ s"
  shows "x = y \<and> r = s"
  using dec_enc [OF assms(1), of r] dec_enc [OF assms(2), of s] unfolding assms(3) by simp

lemma enc_inject: "ok x \<Longrightarrow> ok y \<Longrightarrow> enc x = enc y \<Longrightarrow> x = y"
  using enc_append_inject [of x y "[]" "[]"] by simp

lemma enc_nonempty: "ok x \<Longrightarrow> enc x \<noteq> []"
  using dec_enc [of x "[]"] dec_progress [of "enc x" x "[]"] by auto

lemma concat_enc_inject:
  assumes "list_all ok xs" "list_all ok ys" "concat (map enc xs) = concat (map enc ys)"
  shows "xs = ys"
  using assms
proof (induction xs arbitrary: ys)
  case Nil
  then show ?case using enc_nonempty by (cases ys) auto
next
  case (Cons x xs)
  from Cons.prems enc_nonempty obtain y ys' where ys: "ys = y # ys'" by (cases ys) auto
  with Cons.prems have "x = y \<and> concat (map enc xs) = concat (map enc ys')"
    by (intro enc_append_inject) auto
  with Cons ys show ?case by simp
qed

end

interpretation var_number: codec writeVarNumber readVarNumber "\<lambda>_. True"
  by unfold_locales (auto dest: readVarNumber_progress)

interpretation tlv_block: codec block_wire fromBuffer block_ok
  by unfold_locales
    (auto simp: block_wire_def block_ok_def fromBuffer_makeBinaryBlock dest: fromBuffer_progress)

lemma parse_elements_concat:
  "list_all block_ok es \<Longrightarrow> parse_elements (concat (map block_wire es)) = Inr es"
proof (induction es)
  case (Cons e es)
  then show ?case
    using tlv_block.enc_nonempty [of e] tlv_block.dec_enc [of e "concat (map block_wire es)"]
    by (subst parse_elements.simps) simp
qed (simp add: parse_elements.simps)

section \<open>Properties\<close>

text \<open>
  Every 64-bit variable-size number is read back from its encoding, whatever bytes follow, and
  the encoding has the size the encoder announces.
\<close>

theorem var_number_roundtrip:
  "readVarNumber (writeVarNumber w @ rest) = Some (w, rest) \<and> length (writeVarNumber w) = sizeOfVarNumber w"
  by (simp add: length_writeVarNumber)


text \<open>
  A value made of well-formed elements is parsed into exactly those elements, in order.
\<close>

theorem elements_roundtrip:
  assumes "list_all block_ok es"
  shows "parse_elements (concat (map block_wire es)) = Inr es"
  using parse_elements_concat [OF assms] .

theorem elements_roundtrip_witness:
  "parse_elements (concat (map block_wire [Block 7 [8, 1, 97], Block 10 [1, 2, 3, 4], Block 300 []])) =
     Inr [Block 7 [8, 1, 97], Block 10 [1, 2, 3, 4], Block 300 []]"
  by (rule elements_roundtrip) (simp add: block_ok_def)

end
