(* ===== verification/Name_Component.thy ===== *)
theory Name_Component
  imports Tlv
begin

text \<open>
  Name components: \<open>ndn-cxx/name-component.cpp\<close> and the component type table of
  \<open>impl/name-component-types.hpp\<close>.  A component is its TLV-TYPE and its TLV-VALUE; the wire
  form is the shortest TLV encoding, which is what every encoder of the library writes.  The
  reflexive name component (TLV-TYPE 59) is the addition of this code base.
\<close>

section \<open>Component data and type numbers\<close>

datatype component = Component (comp_type: nat) (comp_value: bytes)

abbreviation (input) "ImplicitSha256DigestComponent \<equiv> (1 :: nat)"
abbreviation (input) "ParametersSha256DigestComponent \<equiv> (2 :: nat)"
abbreviation (input) "GenericNameComponent \<equiv> (8 :: nat)"
abbreviation (input) "KeywordNameComponent \<equiv> (32 :: nat)"
abbreviation (input) "SegmentNameComponent \<equiv> (50 :: nat)"
abbreviation (input) "ByteOffsetNameComponent \<equiv> (52 :: nat)"
abbreviation (input) "VersionNameComponent \<equiv> (54 :: nat)"
abbreviation (input) "TimestampNameComponent \<equiv> (56 :: nat)"
abbreviation (input) "SequenceNumNameComponent \<equiv> (58 :: nat)"
abbreviation (input) "ReflexiveNameComponent \<equiv> (59 :: nat)"
abbreviation (input) "NameComponentMin \<equiv> (1 :: nat)"
abbreviation (input) "NameComponentMax \<equiv> (65535 :: nat)"
abbreviation (input) "DIGEST_SIZE \<equiv> (32 :: nat)"

abbreviation (input) "SEGMENT_MARKER \<equiv> (0x00 :: byte)"
abbreviation (input) "SEGMENT_OFFSET_MARKER \<equiv> (0xFB :: byte)"
abbreviation (input) "VERSION_MARKER \<equiv> (0xFD :: byte)"
abbreviation (input) "TIMESTAMP_MARKER \<equiv> (0xFC :: byte)"
abbreviation (input) "SEQUENCE_NUMBER_MARKER \<equiv> (0xFE :: byte)"

definition comp_wire :: "component \<Rightarrow> bytes" where
  "comp_wire c =
     writeVarNumber (word_of_nat (comp_type c)) @
     writeVarNumber (word_of_nat (length (comp_value c))) @ comp_value c"

text \<open>\<open>ensureValid\<close> with the \<open>check\<close> rule of the component's type.\<close>

definition ensureValid :: "component \<Rightarrow> component res" where
  "ensureValid c =
     (if comp_type c < NameComponentMin \<or> comp_type c > NameComponentMax then Inl TlvError
      else if comp_type c \<in> {ImplicitSha256DigestComponent, ParametersSha256DigestComponent}
           \<and> length (comp_value c) \<noteq> DIGEST_SIZE then Inl TlvError
      else Inr c)"

definition valid_component :: "component \<Rightarrow> bool" where
  "valid_component c \<longleftrightarrow> ensureValid c = Inr c \<and> length (comp_value c) < 2 ^ 64"

section \<open>Naming conventions\<close>

datatype convention = MARKER | TYPED | EITHER

text \<open>The process-wide conventions have these initial values and the daemon never sets them.\<close>

definition g_conventionEncoding :: convention where "g_conventionEncoding = TYPED"

definition g_conventionDecoding :: convention where "g_conventionDecoding = EITHER"

definition setConventionEncoding :: "convention \<Rightarrow> convention res" where
  "setConventionEncoding convention =
     (case convention of
        MARKER \<Rightarrow> Inr MARKER
      | TYPED \<Rightarrow> Inr TYPED
      | _ \<Rightarrow> Inl InvalidArgument)"

definition canDecodeMarkerConvention :: "convention \<Rightarrow> bool" where
  "canDecodeMarkerConvention d = (d = MARKER \<or> d = EITHER)"

definition canDecodeTypedConvention :: "convention \<Rightarrow> bool" where
  "canDecodeTypedConvention d = (d = TYPED \<or> d = EITHER)"

definition isNumber :: "component \<Rightarrow> bool" where
  "isNumber c = (length (comp_value c) = 1 \<or> length (comp_value c) = 2 \<or>
                 length (comp_value c) = 4 \<or> length (comp_value c) = 8)"

definition isNumberWithMarker :: "byte \<Rightarrow> component \<Rightarrow> bool" where
  "isNumberWithMarker marker c =
     ((length (comp_value c) = 2 \<or> length (comp_value c) = 3 \<or>
       length (comp_value c) = 5 \<or> length (comp_value c) = 9) \<and> comp_value c ! 0 = marker)"

definition toNumber :: "component \<Rightarrow> 64 word res" where
  "toNumber c =
     (if \<not> isNumber c then Inl TlvError
      else bind_res (readNonNegativeInteger (length (comp_value c)) (comp_value c))
             (\<lambda>(n, _). Inr n))"

definition toNumberWithMarker :: "byte \<Rightarrow> component \<Rightarrow> 64 word res" where
  "toNumberWithMarker marker c =
     (if \<not> isNumberWithMarker marker c then Inl TlvError
      else bind_res (readNonNegativeInteger (length (comp_value c) - 1) (drop 1 (comp_value c)))
             (\<lambda>(n, _). Inr n))"

definition fromNumber :: "64 word \<Rightarrow> nat \<Rightarrow> component" where
  "fromNumber number type = Component type (writeNonNegativeInteger number)"

definition fromNumberWithMarker :: "byte \<Rightarrow> 64 word \<Rightarrow> component" where
  "fromNumberWithMarker marker number =
     Component GenericNameComponent (marker # writeNonNegativeInteger number)"

section \<open>Reflexive components\<close>

definition isReflexive :: "component \<Rightarrow> bool" where
  "isReflexive c =
     ((canDecodeMarkerConvention g_conventionDecoding \<and> comp_type c = ReflexiveNameComponent
        \<and> isNumberWithMarker SEGMENT_MARKER c) \<or>
      (canDecodeTypedConvention g_conventionDecoding \<and> comp_type c = ReflexiveNameComponent
        \<and> isNumber c))"

definition isRN9999 :: "component \<Rightarrow> bool res" where
  "isRN9999 c =
     (if (canDecodeMarkerConvention g_conventionDecoding \<and> comp_type c = ReflexiveNameComponent
            \<and> isNumberWithMarker SEGMENT_MARKER c) \<or>
         (canDecodeTypedConvention g_conventionDecoding \<and> comp_type c = ReflexiveNameComponent
            \<and> isNumber c)
      then bind_res (toNumber c) (\<lambda>n. Inr (n = 960051513))
      else Inr False)"

section \<open>Segment, byte offset, version, timestamp, sequence number\<close>

definition isConventional :: "convention \<Rightarrow> nat \<Rightarrow> byte \<Rightarrow> component \<Rightarrow> bool" where
  "isConventional d type marker c =
     ((canDecodeMarkerConvention d \<and> comp_type c = GenericNameComponent \<and> isNumberWithMarker marker c) \<or>
      (canDecodeTypedConvention d \<and> comp_type c = type \<and> isNumber c))"

definition toConventional :: "convention \<Rightarrow> nat \<Rightarrow> byte \<Rightarrow> component \<Rightarrow> 64 word res" where
  "toConventional d type marker c =
     (if canDecodeMarkerConvention d \<and> comp_type c = GenericNameComponent
      then toNumberWithMarker marker c
      else if canDecodeTypedConvention d \<and> comp_type c = type then toNumber c
      else Inl TlvError)"

definition fromConventional :: "convention \<Rightarrow> nat \<Rightarrow> byte \<Rightarrow> 64 word \<Rightarrow> component" where
  "fromConventional e type marker n =
     (if e = MARKER then fromNumberWithMarker marker n else fromNumber n type)"

definition isSegment :: "convention \<Rightarrow> component \<Rightarrow> bool" where
  "isSegment d = isConventional d SegmentNameComponent SEGMENT_MARKER"

definition isByteOffset :: "convention \<Rightarrow> component \<Rightarrow> bool" where
  "isByteOffset d = isConventional d ByteOffsetNameComponent SEGMENT_OFFSET_MARKER"

definition isVersion :: "convention \<Rightarrow> component \<Rightarrow> bool" where
  "isVersion d = isConventional d VersionNameComponent VERSION_MARKER"

definition isTimestamp :: "convention \<Rightarrow> component \<Rightarrow> bool" where
  "isTimestamp d = isConventional d TimestampNameComponent TIMESTAMP_MARKER"

definition isSequenceNumber :: "convention \<Rightarrow> component \<Rightarrow> bool" where
  "isSequenceNumber d = isConventional d SequenceNumNameComponent SEQUENCE_NUMBER_MARKER"

definition toSegment :: "convention \<Rightarrow> component \<Rightarrow> 64 word res" where
  "toSegment d = toConventional d SegmentNameComponent SEGMENT_MARKER"

definition toByteOffset :: "convention \<Rightarrow> component \<Rightarrow> 64 word res" where
  "toByteOffset d = toConventional d ByteOffsetNameComponent SEGMENT_OFFSET_MARKER"

definition toVersion :: "convention \<Rightarrow> component \<Rightarrow> 64 word res" where
  "toVersion d = toConventional d VersionNameComponent VERSION_MARKER"

definition toSequenceNumber :: "convention \<Rightarrow> component \<Rightarrow> 64 word res" where
  "toSequenceNumber d = toConventional d SequenceNumNameComponent SEQUENCE_NUMBER_MARKER"

definition fromSegment :: "convention \<Rightarrow> 64 word \<Rightarrow> component" where
  "fromSegment e = fromConventional e SegmentNameComponent SEGMENT_MARKER"

definition fromByteOffset :: "convention \<Rightarrow> 64 word \<Rightarrow> component" where
  "fromByteOffset e = fromConventional e ByteOffsetNameComponent SEGMENT_OFFSET_MARKER"

definition fromVersion :: "convention \<Rightarrow> 64 word \<Rightarrow> component" where
  "fromVersion e = fromConventional e VersionNameComponent VERSION_MARKER"

definition fromSequenceNumber :: "convention \<Rightarrow> 64 word \<Rightarrow> component" where
  "fromSequenceNumber e = fromConventional e SequenceNumNameComponent SEQUENCE_NUMBER_MARKER"


definition isImplicitSha256Digest :: "component \<Rightarrow> bool" where
  "isImplicitSha256Digest c =
     (comp_type c = ImplicitSha256DigestComponent \<and> length (comp_value c) = DIGEST_SIZE)"

definition isParametersSha256Digest :: "component \<Rightarrow> bool" where
  "isParametersSha256Digest c =
     (comp_type c = ParametersSha256DigestComponent \<and> length (comp_value c) = DIGEST_SIZE)"

section \<open>Comparison and successor\<close>

text \<open>
  \<open>Component::compare\<close> has a fast path on the wire encodings and a path on type, length and
  value for components without wire.
\<close>

definition compare_wire :: "component \<Rightarrow> component \<Rightarrow> int" where
  "compare_wire c d = memcmp (comp_wire c) (comp_wire d)"

definition compare_value :: "component \<Rightarrow> component \<Rightarrow> int" where
  "compare_value c d =
     (if comp_type c \<noteq> comp_type d then int (comp_type c) - int (comp_type d)
      else if length (comp_value c) \<noteq> length (comp_value d)
      then int (length (comp_value c)) - int (length (comp_value d))
      else memcmp (comp_value c) (comp_value d))"

fun increment_rev :: "bytes \<Rightarrow> bool \<times> bytes" where
  "increment_rev [] = (True, [])"
| "increment_rev (b # bs) =
     (let newValue = b + 1
      in if newValue = 0 then (let (ov, r) = increment_rev bs in (ov, newValue # r))
         else (False, newValue # bs))"

definition getSuccessorImpl :: "component \<Rightarrow> bool \<times> component" where
  "getSuccessorImpl c =
     (let (isOverflow, r) = increment_rev (rev (comp_value c))
      in (isOverflow, Component (comp_type c) (rev r @ (if isOverflow then [0] else []))))"

definition isDigestType :: "nat \<Rightarrow> bool" where
  "isDigestType type = (type = ImplicitSha256DigestComponent \<or> type = ParametersSha256DigestComponent)"

definition getMinValue :: "nat \<Rightarrow> bytes" where
  "getMinValue type = (if isDigestType type then replicate DIGEST_SIZE 0 else [])"

definition comp_getSuccessor :: "component \<Rightarrow> component res" where
  "comp_getSuccessor c =
     (let (isExtended, successor) = getSuccessorImpl c
      in if isDigestType (comp_type c) \<and> isExtended
         then ensureValid (Component (comp_type c + 1) (getMinValue (comp_type c + 1)))
         else ensureValid successor)"

section \<open>Wire form\<close>

lemma valid_component_bounds:
  "valid_component c \<Longrightarrow> 0 < comp_type c \<and> comp_type c \<le> 65535 \<and> length (comp_value c) < 2 ^ 64"
  by (auto simp: valid_component_def ensureValid_def split: if_splits)

lemma comp_wire_block: "comp_wire c = block_wire (Block (comp_type c) (comp_value c))"
  by (simp add: comp_wire_def block_wire_def makeBinaryBlock_def)

definition readComponent :: "bytes \<Rightarrow> (component \<times> bytes) option" where
  "readComponent bs = map_option (\<lambda>(b, r). (Component (block_type b) (block_value b), r)) (fromBuffer bs)"

interpretation comp_codec: codec comp_wire readComponent valid_component
proof unfold_locales
  fix c rest assume "valid_component c"
  then have "block_ok (Block (comp_type c) (comp_value c))"
    using valid_component_bounds by (fastforce simp: block_ok_def)
  then show "readComponent (comp_wire c @ rest) = Some (c, rest)"
    by (simp add: readComponent_def comp_wire_block tlv_block.dec_enc)
qed (auto simp: readComponent_def dest: fromBuffer_progress)

section \<open>Canonical order\<close>

lemma memcmp_append_less:
  "length as = length bs \<Longrightarrow> memcmp as bs < 0 \<Longrightarrow> memcmp (as @ r) (bs @ s) < 0"
  by (simp add: memcmp_append)

lemma be_bytes_less:
  "m < n \<Longrightarrow> n < 256 ^ k \<Longrightarrow> memcmp (be_bytes k m) (be_bytes k n) < 0"
  by (subst memcmp_be_nat) auto

lemma ucast_byte_less:
  "unat (a :: 64 word) < unat b \<Longrightarrow> unat (b :: 64 word) < 256 \<Longrightarrow> (ucast a :: byte) < ucast b"
  by (simp add: word_less_nat_alt unat_ucast_byte)

text \<open>Variable-size numbers compare on the wire like the numbers themselves.\<close>

lemma memcmp_writeVarNumber:
  assumes "a < b"
  shows "memcmp (writeVarNumber a @ r) (writeVarNumber b @ s) < 0"
proof -
  have less: "unat a < unat b" using assms by (simp add: word_less_nat_alt)
  have same: "unat b < 256 ^ k \<Longrightarrow>
      memcmp (x # be_bytes k (unat a) @ r) (x # be_bytes k (unat b) @ s) < 0" for k x
    using be_bytes_less [OF less] by (simp add: memcmp_append_less)
  have short: "unat b < 253 \<Longrightarrow> (ucast a :: byte) < ucast b"
    using less by (simp add: ucast_byte_less)
  have cls: "unat a < 253 \<Longrightarrow> (ucast a :: byte) < 253" "unat a < 253 \<Longrightarrow> (ucast a :: byte) < 254"
    "unat a < 253 \<Longrightarrow> (ucast a :: byte) < 255"
    by (simp_all add: word_less_nat_alt unat_ucast_byte)
  show ?thesis
    using less same [of 2] same [of 4] same [of 8] short cls word64_bounds(4) [of b]
    by (simp add: writeVarNumber_def word64_bounds)
qed

lemma compare_wire_less:
  assumes "valid_component c" "valid_component d" "compare_value c d < 0"
  shows "compare_wire c d < 0"
proof -
  note bounds = valid_component_bounds [OF assms(1)] valid_component_bounds [OF assms(2)]
  have type: "comp_type c < comp_type d \<Longrightarrow> (word_of_nat (comp_type c) :: 64 word) < word_of_nat (comp_type d)"
    using bounds by (simp add: word_less_nat_alt unat_of_nat)
  have len: "length (comp_value c) < length (comp_value d) \<Longrightarrow>
      (word_of_nat (length (comp_value c)) :: 64 word) < word_of_nat (length (comp_value d))"
    using bounds by (simp add: word_less_nat_alt unat_of_nat)
  consider "comp_type c < comp_type d"
    | "comp_type c = comp_type d" "length (comp_value c) < length (comp_value d)"
    | "comp_type c = comp_type d" "length (comp_value c) = length (comp_value d)"
      "memcmp (comp_value c) (comp_value d) < 0"
    using assms(3) by (auto simp: compare_value_def split: if_splits)
  then show ?thesis
    by cases (simp_all add: compare_wire_def comp_wire_def memcmp_append type len memcmp_writeVarNumber)
qed

lemma compare_value_swap: "compare_value d c = - compare_value c d"
  using memcmp_swap [of "comp_value c" "comp_value d"] by (simp add: compare_value_def)

lemma memcmp_swap_less: "memcmp as bs < 0 \<Longrightarrow> memcmp bs as > 0"
  by (induction as bs rule: memcmp.induct) (auto split: if_splits)

lemma compare_value_eq_0: "compare_value c d = 0 \<longleftrightarrow> c = d"
  by (cases c; cases d) (auto simp: compare_value_def memcmp_eq_0)

lemma compare_wire_sgn:
  assumes "valid_component c" "valid_component d"
  shows "sgn (compare_wire c d) = sgn (compare_value c d)"
proof (cases "compare_value c d" "0 :: int" rule: linorder_cases)
  case less
  with compare_wire_less [OF assms] show ?thesis by simp
next
  case equal
  then have "c = d" by (simp add: compare_value_eq_0)
  then show ?thesis using equal by (simp add: compare_wire_def)
next
  case greater
  then have "compare_value d c < 0" using compare_value_swap [of d c] by simp
  then have "compare_wire d c < 0" by (rule compare_wire_less [OF assms(2,1)])
  then have "compare_wire c d > 0" unfolding compare_wire_def by (rule memcmp_swap_less)
  with greater show ?thesis by simp
qed

lemma memcmp_le: "length as = length bs \<Longrightarrow> memcmp as bs \<le> 0 \<longleftrightarrow> be_nat as \<le> be_nat bs"
  using memcmp_be_nat [of as bs] memcmp_eq_0 [of as bs] be_nat_inject [of as bs] by linarith

lemma compare_value_le:
  "compare_value a b \<le> 0 \<longleftrightarrow>
     comp_type a < comp_type b \<or> comp_type a = comp_type b \<and>
     (length (comp_value a) < length (comp_value b) \<or>
      length (comp_value a) = length (comp_value b) \<and> be_nat (comp_value a) \<le> be_nat (comp_value b))"
  unfolding compare_value_def by (simp add: memcmp_le) linarith

text \<open>The canonical order makes components a linear order, and names with it.\<close>

instantiation component :: linorder
begin

definition less_component :: "component \<Rightarrow> component \<Rightarrow> bool" where
  "less_component c d \<longleftrightarrow> compare_value c d < 0"

definition less_eq_component :: "component \<Rightarrow> component \<Rightarrow> bool" where
  "less_eq_component c d \<longleftrightarrow> compare_value c d \<le> 0"

instance
proof
  fix x y z :: component
  have swap: "compare_value y x = - compare_value x y" by (rule compare_value_swap)
  show "x < y \<longleftrightarrow> x \<le> y \<and> \<not> y \<le> x"
    using swap by (auto simp: less_component_def less_eq_component_def)
  show "x \<le> x" by (simp add: less_eq_component_def compare_value_def)
  show "x \<le> y \<Longrightarrow> y \<le> x \<Longrightarrow> x = y"
    using swap compare_value_eq_0 [of x y] by (simp add: less_eq_component_def)
  show "x \<le> y \<or> y \<le> x"
    using swap by (auto simp: less_eq_component_def)
  show "x \<le> y \<Longrightarrow> y \<le> z \<Longrightarrow> x \<le> z"
    unfolding less_eq_component_def compare_value_le by (elim disjE conjE) simp_all
qed

end

lemma less_component_iff:
  "c < d \<longleftrightarrow>
     comp_type c < comp_type d \<or> comp_type c = comp_type d \<and>
     (length (comp_value c) < length (comp_value d) \<or>
      length (comp_value c) = length (comp_value d) \<and> be_nat (comp_value c) < be_nat (comp_value d))"
  using memcmp_be_nat [of "comp_value c" "comp_value d"]
  by (auto simp: less_component_def compare_value_def)

section \<open>Successor\<close>

lemma be_nat_zeros [simp]: "be_nat (replicate n 0) = 0"
  by (induction n) (simp_all flip: replicate_append_same)

lemma be_nat_getMinValue: "be_nat (getMinValue t) = 0"
  unfolding getMinValue_def by (cases "isDigestType t") (simp_all only: be_nat_zeros be_nat_Nil if_True if_False)

lemma length_getMinValue: "length (getMinValue t) = (if isDigestType t then 32 else 0)"
  unfolding getMinValue_def by (simp only: length_replicate list.size if_distrib [of length])

lemma byte_inc_0: "b + 1 = 0 \<longleftrightarrow> unat (b :: byte) = 255"
proof -
  have "b + 1 = 0 \<longleftrightarrow> b = - 1" by (simp add: eq_neg_iff_add_eq_0)
  also have "\<dots> \<longleftrightarrow> unat b = unat (- 1 :: byte)" by (simp only: word_unat_eq_iff)
  also have "unat (- 1 :: byte) = 255" by (simp add: unsigned_minus_1_eq_mask mask_eq_exp_minus_1)
  finally show ?thesis .
qed

lemma unat_byte_inc: "b + 1 \<noteq> 0 \<Longrightarrow> unat (b + 1 :: byte) = unat b + 1"
  using unat_byte [of b] byte_inc_0 [of b] by (simp add: unat_word_ariths del: unat_byte)

lemma increment_rev_be_nat:
  "increment_rev bs = (ov, r) \<Longrightarrow>
     length r = length bs \<and>
     (if ov then be_nat (rev bs) + 1 = 256 ^ length bs \<and> be_nat (rev r) = 0
      else be_nat (rev r) = be_nat (rev bs) + 1)"
proof (induction bs arbitrary: ov r)
  case (Cons b bs)
  show ?case
  proof (cases "b + 1 = 0")
    case True
    then have "unat b = 255" by (simp add: byte_inc_0)
    with True Cons show ?thesis
      by (auto simp: Let_def split: prod.splits if_splits)
  next
    case False
    with Cons.prems unat_byte_inc [OF False] show ?thesis by (auto simp: Let_def)
  qed
qed simp

lemma getSuccessorImpl_cases:
  assumes "getSuccessorImpl c = (ov, s)"
  shows "comp_type s = comp_type c"
    "\<not> ov \<Longrightarrow> length (comp_value s) = length (comp_value c) \<and>
             be_nat (comp_value s) = be_nat (comp_value c) + 1"
    "ov \<Longrightarrow> length (comp_value s) = length (comp_value c) + 1 \<and> be_nat (comp_value s) = 0 \<and>
             be_nat (comp_value c) + 1 = 256 ^ length (comp_value c)"
proof -
  obtain r where r: "increment_rev (rev (comp_value c)) = (ov, r)"
    and s: "s = Component (comp_type c) (rev r @ (if ov then [0] else []))"
    using assms by (auto simp: getSuccessorImpl_def Let_def split: prod.splits)
  show "comp_type s = comp_type c" using s by simp
  show "\<not> ov \<Longrightarrow> length (comp_value s) = length (comp_value c) \<and>
             be_nat (comp_value s) = be_nat (comp_value c) + 1"
    "ov \<Longrightarrow> length (comp_value s) = length (comp_value c) + 1 \<and> be_nat (comp_value s) = 0 \<and>
             be_nat (comp_value c) + 1 = 256 ^ length (comp_value c)"
    using increment_rev_be_nat [OF r] s by auto
qed

lemma be_nat_max:
  assumes "be_nat c + 1 = 256 ^ length c"
  shows "\<not> (length c = length d \<and> be_nat c < be_nat d)"
  using be_nat_bound [of d] assms by auto

lemma le_component_iff: "(c :: component) \<le> d \<longleftrightarrow> \<not> d < c"
  by auto

lemma valid_component_digest:
  "valid_component c \<Longrightarrow> isDigestType (comp_type c) \<Longrightarrow> length (comp_value c) = 32"
  by (auto simp: valid_component_def ensureValid_def isDigestType_def split: if_splits)

lemma comp_getSuccessor_total:
  assumes "valid_component c"
  shows "\<exists>s. comp_getSuccessor c = Inr s"
proof (cases "getSuccessorImpl c")
  case (Pair ov s)
  have "comp_type s = comp_type c" "\<not> ov \<Longrightarrow> length (comp_value s) = length (comp_value c)"
    using getSuccessorImpl_cases [OF Pair] by auto
  with assms Pair show ?thesis
    by (auto simp: comp_getSuccessor_def valid_component_def ensureValid_def getMinValue_def
        isDigestType_def split: if_splits)
qed

lemma comp_getSuccessor_cases:
  assumes "comp_getSuccessor c = Inr s"
  obtains "comp_type s = comp_type c" "length (comp_value s) = length (comp_value c)"
      "be_nat (comp_value s) = be_nat (comp_value c) + 1"
  | "comp_type s = comp_type c" "\<not> isDigestType (comp_type c)" "be_nat (comp_value s) = 0"
      "length (comp_value s) = length (comp_value c) + 1"
      "be_nat (comp_value c) + 1 = 256 ^ length (comp_value c)"
  | "comp_type s = comp_type c + 1" "isDigestType (comp_type c)"
      "comp_value s = getMinValue (comp_type c + 1)"
      "be_nat (comp_value c) + 1 = 256 ^ length (comp_value c)"
proof -
  have valid: "ensureValid x = Inr y \<Longrightarrow> y = x" for x y
    by (auto simp: ensureValid_def split: if_splits)
  obtain ov i where i: "getSuccessorImpl c = (ov, i)" by fastforce
  show ?thesis
    using that assms getSuccessorImpl_cases [OF i]
    by (cases ov; cases "isDigestType (comp_type c)") (auto simp: comp_getSuccessor_def i dest!: valid)
qed

lemma comp_getSuccessor_greater: "comp_getSuccessor c = Inr s \<Longrightarrow> c < s"
  by (erule comp_getSuccessor_cases) (auto simp: less_component_iff)

lemma comp_getSuccessor_least:
  assumes "valid_component c" "comp_getSuccessor c = Inr s" "valid_component d" "c < d"
  shows "s \<le> d"
  using assms(2)
proof (cases rule: comp_getSuccessor_cases)
  case 1
  show ?thesis
    using assms(4) unfolding le_component_iff less_component_iff 1 by arith
next
  case 2
  have "\<not> (length (comp_value c) = length (comp_value d) \<and> be_nat (comp_value c) < be_nat (comp_value d))"
    by (rule be_nat_max [OF 2(5)])
  then show ?thesis
    using assms(4) unfolding le_component_iff less_component_iff 2(1,3,4) by arith
next
  case 3
  have "\<not> (length (comp_value c) = length (comp_value d) \<and> be_nat (comp_value c) < be_nat (comp_value d))"
    by (rule be_nat_max [OF 3(4)])
  moreover have "comp_type d = comp_type c \<Longrightarrow> length (comp_value c) = length (comp_value d)"
    using valid_component_digest [OF assms(1)] valid_component_digest [OF assms(3)] 3(2) by simp
  ultimately have "comp_type c < comp_type d"
    using assms(4) unfolding less_component_iff by arith
  moreover have "comp_type d = comp_type c + 1 \<Longrightarrow>
      length (getMinValue (comp_type c + 1)) \<le> length (comp_value d)"
    using valid_component_digest [OF assms(3)] unfolding length_getMinValue by simp
  ultimately show ?thesis
    unfolding le_component_iff less_component_iff 3(1,3) be_nat_getMinValue by arith
qed

section \<open>Conventions and reflexive markers\<close>

lemma toNumber_fromNumber [simp]: "toNumber (fromNumber n t) = Inr n"
proof -
  have "isNumber (fromNumber n t)"
    by (simp add: isNumber_def fromNumber_def length_writeNonNegativeInteger sizeOfNonNegativeInteger_def)
  then show ?thesis
    using readNonNegativeInteger_write [of n "[]"]
    by (simp add: toNumber_def fromNumber_def length_writeNonNegativeInteger)
qed

lemma toNumberWithMarker_from [simp]: "toNumberWithMarker m (fromNumberWithMarker m n) = Inr n"
proof -
  have "isNumberWithMarker m (fromNumberWithMarker m n)"
    by (simp add: isNumberWithMarker_def fromNumberWithMarker_def length_writeNonNegativeInteger
        sizeOfNonNegativeInteger_def)
  then show ?thesis
    using readNonNegativeInteger_write [of n "[]"]
    by (simp add: toNumberWithMarker_def fromNumberWithMarker_def length_writeNonNegativeInteger)
qed

lemma toConventional_from:
  assumes "t \<noteq> GenericNameComponent" "e = MARKER \<or> e = TYPED" "d = e \<or> d = EITHER"
  shows "toConventional d t m (fromConventional e t m n) = Inr n"
  using assms
  by (auto simp: toConventional_def fromConventional_def canDecodeMarkerConvention_def
      canDecodeTypedConvention_def fromNumberWithMarker_def [THEN arg_cong, of comp_type]
      fromNumber_def [THEN arg_cong, of comp_type])

lemma toNumber_cases:
  "toNumber c = (if isNumber c then Inr (big_to_native (comp_value c)) else Inl TlvError)"
  by (auto simp: toNumber_def readNonNegativeInteger_def readNumber_fast_def isNumber_def)

lemma isRN9999_cases:
  "isRN9999 c =
     (if \<not> isReflexive c then Inr False
      else if isNumber c then Inr (be_nat (comp_value c) = 960051513)
      else Inl TlvError)"
proof -
  have "isNumber c \<Longrightarrow> big_to_native (comp_value c) = 960051513 \<longleftrightarrow> be_nat (comp_value c) = 960051513"
    by (auto simp: word_unat_eq_iff isNumber_def)
  then show ?thesis
    by (auto simp: isRN9999_def isReflexive_def toNumber_cases)
qed

lemma isReflexive_iff:
  "isReflexive c \<longleftrightarrow> comp_type c = ReflexiveNameComponent \<and> (isNumber c \<or> isNumberWithMarker 0 c)"
  unfolding isReflexive_def canDecodeMarkerConvention_def canDecodeTypedConvention_def
    g_conventionDecoding_def by blast

end
