(* ===== verification/Names.thy ===== *)
theory Names
  imports Name_Component "HOL-Library.Sublist"
begin

text \<open>
  Names: \<open>ndn-cxx/name.cpp\<close> and the reflexive-name predicates of \<open>name.hpp\<close>.  A name is
  the list of its components; indices are signed as in the code, and an out-of-range access
  throws.
\<close>

type_synonym name = "component list"

section \<open>Accessors and modifiers\<close>

definition name_at :: "name \<Rightarrow> int \<Rightarrow> component res" where
  "name_at n i =
     (let ssize = int (length n)
      in if i < - ssize \<or> i \<ge> ssize then Inl OutOfRange
         else Inr (n ! nat (if i < 0 then i + ssize else i)))"

definition getSubName :: "name \<Rightarrow> int \<Rightarrow> nat option \<Rightarrow> name" where
  "getSubName n iStartComponent nComponents =
     (let iStart = nat (if iStartComponent < 0 then iStartComponent + int (length n) else iStartComponent);
          iEnd = (case nComponents of None \<Rightarrow> length n | Some k \<Rightarrow> min (length n) (iStart + k))
      in map (\<lambda>i. n ! i) [iStart..<iEnd])"

text \<open>
  The sum \<open>size() + nComponents\<close> is unsigned: with a negative count beyond the size it wraps
  and the whole name is returned.
\<close>

definition getPrefix :: "name \<Rightarrow> int \<Rightarrow> name" where
  "getPrefix n nComponents =
     (if nComponents < 0 then
        (let k = int (length n) + nComponents
         in getSubName n 0 (Some (nat (if k < 0 then k + 2 ^ 64 else k))))
      else getSubName n 0 (Some (nat nComponents)))"

definition name_append :: "name \<Rightarrow> name \<Rightarrow> name" where
  "name_append n m = fold (\<lambda>c acc. acc @ [c]) m n"

definition name_erase :: "name \<Rightarrow> nat \<Rightarrow> name" where
  "name_erase n i = take i n @ drop (Suc i) n"

section \<open>Comparison\<close>

definition isPrefixOf :: "name \<Rightarrow> name \<Rightarrow> bool" where
  "isPrefixOf n other =
     (length n \<le> length other \<and> list_all (\<lambda>i. n ! i = other ! i) [0..<length n])"

fun compare_loop :: "name \<Rightarrow> name \<Rightarrow> int" where
  "compare_loop (c # cs) (d # ds) =
     (let comp = compare_value c d in if comp \<noteq> 0 then comp else compare_loop cs ds)"
| "compare_loop cs ds = int (length cs) - int (length ds)"

definition name_compare_range :: "name \<Rightarrow> nat \<Rightarrow> nat \<Rightarrow> name \<Rightarrow> nat \<Rightarrow> nat \<Rightarrow> int" where
  "name_compare_range n pos1 count1 other pos2 count2 =
     compare_loop (take (min count1 (length n - pos1)) (drop pos1 n))
                  (take (min count2 (length other - pos2)) (drop pos2 other))"

definition name_compare :: "name \<Rightarrow> name \<Rightarrow> int" where
  "name_compare n other = name_compare_range n 0 (length n) other 0 (length other)"

definition name_getSuccessor :: "name \<Rightarrow> name res" where
  "name_getSuccessor n =
     (if n = [] then Inr [Component ImplicitSha256DigestComponent (replicate 32 0)]
      else bind_res (comp_getSuccessor (last n)) (\<lambda>s. Inr (getPrefix n (-1) @ [s])))"

section \<open>Reflexive names\<close>

definition isReflexiveName :: "name \<Rightarrow> bool" where
  "isReflexiveName n = list_ex isReflexive n"

fun first_reflexive :: "nat \<Rightarrow> name \<Rightarrow> nat option" where
  "first_reflexive i [] = None"
| "first_reflexive i (c # cs) = (if isReflexive c then Some i else first_reflexive (Suc i) cs)"

definition getnonReflexiveName :: "name \<Rightarrow> name" where
  "getnonReflexiveName n =
     (if \<not> isReflexiveName n then n
      else case first_reflexive 0 n of None \<Rightarrow> n | Some i \<Rightarrow> name_erase n i)"

section \<open>Wire form\<close>

definition TLV_Name :: nat where "TLV_Name = 7"

definition name_wireEncode :: "name \<Rightarrow> bytes" where
  "name_wireEncode n = makeBinaryBlock TLV_Name (concat (map comp_wire n))"

definition name_wireDecode :: "block \<Rightarrow> name res" where
  "name_wireDecode wire =
     (if block_type wire \<noteq> TLV_Name then Inl TlvError
      else bind_res (parse_elements (block_value wire))
             (\<lambda>es. Inr (map (\<lambda>e. Component (block_type e) (block_value e)) es)))"

definition valid_name :: "name \<Rightarrow> bool" where
  "valid_name n = list_all valid_component n"

section \<open>Lemmas\<close>

lemma map_nth_upt: "j \<le> length xs \<Longrightarrow> map (\<lambda>k. xs ! k) [i..<j] = take (j - i) (drop i xs)"
  by (rule nth_equalityI) auto

lemma getPrefix_take [simp]: "getPrefix n (int k) = take k n"
  by (simp add: getPrefix_def getSubName_def map_nth_upt min_def)

lemma getPrefix_numeral [simp]: "getPrefix n (numeral k) = take (numeral k) n"
  using getPrefix_take [of n "numeral k"] by simp

lemma getPrefix_minus [simp]: "getPrefix n (-1) = butlast n"
  by (cases "n = []") (auto simp: getPrefix_def getSubName_def map_nth_upt butlast_conv_take Let_def
      nat_diff_distrib' min_def neq_Nil_conv)

lemma name_append_conv [simp]: "name_append n m = n @ m"
  unfolding name_append_def by (induction m arbitrary: n) auto

lemma isPrefixOf_prefix: "isPrefixOf n m \<longleftrightarrow> prefix n m"
proof
  assume "isPrefixOf n m"
  then have "n = take (length n) m"
    by (intro nth_equalityI) (auto simp: isPrefixOf_def list_all_iff)
  then show "prefix n m" by (metis take_is_prefix)
next
  assume "prefix n m"
  then show "isPrefixOf n m"
    by (auto simp: isPrefixOf_def list_all_iff prefix_def nth_append)
qed

lemma Nil_less_name: "([] :: name) < n \<longleftrightarrow> n \<noteq> []"
  by (cases n) simp_all

lemma compare_loop_less: "compare_loop n m < 0 \<longleftrightarrow> n < m"
proof (induction n m rule: compare_loop.induct)
  case (1 c cs d ds)
  then show ?case
    using compare_value_eq_0 [of c d] by (auto simp: Let_def less_component_def)
qed (auto simp: Nil_less_name)

lemma compare_loop_eq_0: "compare_loop n m = 0 \<longleftrightarrow> n = m"
  by (induction n m rule: compare_loop.induct) (auto simp: Let_def compare_value_eq_0)

lemma compare_loop_swap: "compare_loop m n = - compare_loop n m"
proof (induction n m rule: compare_loop.induct)
  case (1 c cs d ds)
  then show ?case
    using compare_value_swap [of d c] by (auto simp: Let_def)
qed auto

lemma name_compare_loop [simp]: "name_compare n m = compare_loop n m"
  by (simp add: name_compare_def name_compare_range_def)

text \<open>The order contract that sorted containers of names rely on.\<close>

locale three_way_order =
  fixes cmp :: "'a \<Rightarrow> 'a \<Rightarrow> int" and ok :: "'a \<Rightarrow> bool"
  assumes cmp_swap: "ok x \<Longrightarrow> ok y \<Longrightarrow> sgn (cmp y x) = - sgn (cmp x y)"
    and cmp_zero: "ok x \<Longrightarrow> ok y \<Longrightarrow> cmp x y = 0 \<longleftrightarrow> x = y"
    and cmp_trans: "ok x \<Longrightarrow> ok y \<Longrightarrow> ok z \<Longrightarrow> cmp x y < 0 \<Longrightarrow> cmp y z < 0 \<Longrightarrow> cmp x z < 0"
begin

lemma cmp_irrefl: "ok x \<Longrightarrow> \<not> cmp x x < 0"
  using cmp_zero [of x x] by simp

lemma cmp_total: "ok x \<Longrightarrow> ok y \<Longrightarrow> cmp x y < 0 \<or> x = y \<or> cmp y x < 0"
  using cmp_zero [of x y] cmp_swap [of x y] by (auto simp: sgn_if split: if_splits)

lemma cmp_asym: "ok x \<Longrightarrow> ok y \<Longrightarrow> cmp x y < 0 \<Longrightarrow> \<not> cmp y x < 0"
  using cmp_swap [of x y] by (auto simp: sgn_if split: if_splits)

end

interpretation name_order: three_way_order name_compare "\<lambda>_. True"
proof unfold_locales
  fix x y z :: name
  show "sgn (name_compare y x) = - sgn (name_compare x y)"
    by (simp add: compare_loop_swap [of y x] sgn_minus)
  show "name_compare x y < 0 \<Longrightarrow> name_compare y z < 0 \<Longrightarrow> name_compare x z < 0"
    by (simp add: compare_loop_less)
qed (simp add: compare_loop_eq_0)

lemma compare_wire_neg:
  "valid_component c \<Longrightarrow> valid_component d \<Longrightarrow> compare_wire c d < 0 \<longleftrightarrow> c < d"
  using compare_wire_sgn [of c d] unfolding less_component_def by (metis sgn_less)

lemma compare_wire_zero:
  "valid_component c \<Longrightarrow> valid_component d \<Longrightarrow> compare_wire c d = 0 \<longleftrightarrow> c = d"
  using compare_wire_sgn [of c d] compare_value_eq_0 [of c d] by (metis sgn_0_0)

interpretation component_wire_order: three_way_order compare_wire valid_component
proof unfold_locales
  fix x y z assume v: "valid_component x" "valid_component y"
  show "sgn (compare_wire y x) = - sgn (compare_wire x y)"
    using compare_wire_sgn [OF v] compare_wire_sgn [OF v(2,1)] compare_value_swap [of y x]
    by (simp add: sgn_minus)
  assume "valid_component z" "compare_wire x y < 0" "compare_wire y z < 0"
  with v show "compare_wire x z < 0" by (simp add: compare_wire_neg)
qed (simp add: compare_wire_zero)

lemma append_less_append [simp]: "(p @ x :: name) < p @ y \<longleftrightarrow> x < y"
  by (induction p) auto

lemma append_le_append [simp]: "(p @ x :: name) \<le> p @ y \<longleftrightarrow> x \<le> y"
  by (induction p) auto

section \<open>The range of names under a prefix\<close>

lemma prefix_le: "prefix n m \<Longrightarrow> (n :: name) \<le> m"
  by (auto simp: prefix_def) (metis append_Nil2 append_le_append Nil_le_Cons neq_Nil_conv order_refl)

lemma name_getSuccessor_snoc:
  "name_getSuccessor (p @ [c]) = bind_res (comp_getSuccessor c) (\<lambda>s. Inr (p @ [s]))"
  by (simp add: name_getSuccessor_def)

lemma prefix_less_successor:
  assumes "prefix n m" "name_getSuccessor n = Inr s" "n \<noteq> []"
  shows "m < s"
proof -
  obtain p c where n: "n = p @ [c]" using assms(3) by (meson rev_exhaust)
  obtain c' where c': "comp_getSuccessor c = Inr c'" "s = p @ [c']"
    using assms(2) n by (auto simp: name_getSuccessor_snoc res_simps)
  then have "c < c'" by (simp add: comp_getSuccessor_greater)
  with c' n assms(1) show ?thesis by (auto simp: prefix_def)
qed

lemma between_successor_prefix:
  assumes "valid_name n" "valid_name m" "n \<noteq> []" "name_getSuccessor n = Inr s" "n \<le> m" "m < s"
  shows "prefix n m"
proof -
  obtain p c where n: "n = p @ [c]" using assms(3) by (meson rev_exhaust)
  obtain c' where c': "comp_getSuccessor c = Inr c'" "s = p @ [c']"
    using assms(4) n by (auto simp: name_getSuccessor_snoc res_simps)
  have "p @ [c] \<le> m" "m < p @ [c']" "valid_component c" "list_all valid_component m"
    using assms n c' by (auto simp: valid_name_def)
  then have "\<exists>ds. m = p @ c # ds"
  proof (induction p arbitrary: m)
    case Nil
    then obtain d ds where m: "m = d # ds" by (cases m) auto
    with Nil have "\<not> c < d"
      using comp_getSuccessor_least [OF Nil(3) c'(1), of d] by auto
    with Nil m show ?case by auto
  next
    case (Cons a p)
    then show ?case by (cases m) auto
  qed
  then show ?thesis using n by auto
qed

lemma name_getSuccessor_total: "valid_name n \<Longrightarrow> \<exists>s. name_getSuccessor n = Inr s"
  using comp_getSuccessor_total [of "last n"]
  by (cases "n = []") (auto simp: name_getSuccessor_def valid_name_def list_all_iff)

section \<open>Reflexive names and wire form\<close>

lemma first_reflexive_split:
  "first_reflexive i n = Some j \<Longrightarrow>
     \<exists>as c bs. n = as @ c # bs \<and> j = i + length as \<and> isReflexive c \<and> list_all (\<lambda>x. \<not> isReflexive x) as"
proof (induction i n rule: first_reflexive.induct)
  case (2 i c cs)
  show ?case
  proof (cases "isReflexive c")
    case True
    with 2 show ?thesis by (intro exI [of _ "[]"]) auto
  next
    case False
    with 2 obtain as d bs where "cs = as @ d # bs" "j = Suc i + length as" "isReflexive d"
      "list_all (\<lambda>x. \<not> isReflexive x) as" by auto
    with False show ?thesis by (intro exI [of _ "c # as"]) auto
  qed
qed simp

lemma first_reflexive_None: "first_reflexive i n = None \<longleftrightarrow> \<not> isReflexiveName n"
  by (induction i n rule: first_reflexive.induct) (auto simp: isReflexiveName_def)

lemma getnonReflexiveName_split:
  assumes "isReflexiveName n"
  obtains as c bs where "n = as @ c # bs" "isReflexive c" "\<not> isReflexiveName as"
    "getnonReflexiveName n = as @ bs"
proof -
  obtain j where j: "first_reflexive 0 n = Some j"
    using assms first_reflexive_None [of 0 n] by (cases "first_reflexive 0 n") auto
  then obtain as c bs where "n = as @ c # bs" "j = length as" "isReflexive c"
    "list_all (\<lambda>x. \<not> isReflexive x) as"
    using first_reflexive_split [OF j] by auto
  with assms j that show ?thesis
    by (auto simp: getnonReflexiveName_def name_erase_def isReflexiveName_def list_ex_iff list_all_iff)
qed

lemma name_wire_roundtrip:
  assumes "valid_name n" "length (concat (map comp_wire n)) < 2 ^ 64"
  shows "fromBuffer (name_wireEncode n @ rest) = Some (Block TLV_Name (concat (map comp_wire n)), rest)"
    and "name_wireDecode (Block TLV_Name (concat (map comp_wire n))) = Inr n"
proof -
  show "fromBuffer (name_wireEncode n @ rest) = Some (Block TLV_Name (concat (map comp_wire n)), rest)"
    using assms(2) by (simp add: name_wireEncode_def TLV_Name_def fromBuffer_makeBinaryBlock)
  let ?b = "\<lambda>c. Block (comp_type c) (comp_value c)"
  have "concat (map comp_wire n) = concat (map block_wire (map ?b n))"
    by (simp add: comp_wire_block [abs_def] comp_def)
  moreover have "list_all block_ok (map ?b n)"
    using assms(1) valid_component_bounds
    by (fastforce simp: valid_name_def list_all_iff block_ok_def)
  ultimately show "name_wireDecode (Block TLV_Name (concat (map comp_wire n))) = Inr n"
    using parse_elements_concat [of "map ?b n"] by (simp add: name_wireDecode_def comp_def)
qed

lemma list_take_nth_prefix: "prefix p m \<longleftrightarrow> length p \<le> length m \<and> take (length p) m = p"
  by (metis append_eq_conv_conj prefix_def prefix_length_le take_is_prefix)

section \<open>Properties\<close>

text \<open>
  C25: A name of valid components is read back from its wire encoding, whatever bytes follow.
\<close>

theorem name_roundtrip:
  assumes "valid_name n" "length (concat (map comp_wire n)) < 2 ^ 64"
  shows "\<exists>b. fromBuffer (name_wireEncode n @ rest) = Some (b, rest) \<and> name_wireDecode b = Inr n"
  using name_wire_roundtrip [OF assms] by blast

theorem name_roundtrip_witness:
  "\<exists>b. fromBuffer (name_wireEncode [Component 8 [97], Component 59 [1]] @ [0]) = Some (b, [0]) \<and>
     name_wireDecode b = Inr [Component 8 [97], Component 59 [1]]"
proof -
  have "valid_name [Component 8 [97], Component 59 [1]]"
    by (simp add: valid_name_def valid_component_def ensureValid_def isImplicitSha256Digest_def isParametersSha256Digest_def)
  moreover have "length (concat (map comp_wire [Component 8 [97], Component 59 [1]])) = 6"
    by (simp add: comp_wire_def makeBinaryBlock_def length_writeVarNumber sizeOfVarNumber_def)
  then have "length (concat (map comp_wire [Component 8 [97], Component 59 [1]])) < 2 ^ 64" by (simp only:) simp
  ultimately show ?thesis by (rule name_roundtrip)
qed



text \<open>
  C23: The names below a non-empty prefix are exactly those between the prefix and its successor in
  the canonical order, so a range of an ordered table enumerates them.
\<close>

theorem prefix_interval:
  assumes "valid_name n" "valid_name m" "n \<noteq> []"
  shows "\<exists>s. name_getSuccessor n = Inr s \<and> (isPrefixOf n m \<longleftrightarrow> n \<le> m \<and> m < s)"
proof -
  obtain s where s: "name_getSuccessor n = Inr s" using name_getSuccessor_total [OF assms(1)] by blast
  have "prefix n m \<longleftrightarrow> n \<le> m \<and> m < s"
    using prefix_le prefix_less_successor [OF _ s assms(3)] between_successor_prefix [OF assms s] by blast
  with s show ?thesis unfolding isPrefixOf_prefix by blast
qed

theorem prefix_interval_witness:
  "\<exists>s. name_getSuccessor [Component 8 [255]] = Inr s \<and> [Component 8 [255], Component 8 []] < s"
proof -
  have "valid_name [Component 8 [255]]" "valid_name [Component 8 [255], Component 8 []]"
    by (simp_all add: valid_name_def valid_component_def ensureValid_def isImplicitSha256Digest_def isParametersSha256Digest_def)
  from prefix_interval [OF this] show ?thesis by (auto simp: isPrefixOf_prefix)
qed

text \<open>
  The non-reflexive form of a reflexive name is the name without its first reflexive component;
  other names stay as they are.
\<close>

theorem non_reflexive_name:
  "if isReflexiveName n
   then \<exists>as c bs. n = as @ c # bs \<and> isReflexive c \<and> \<not> isReflexiveName as \<and> getnonReflexiveName n = as @ bs
   else getnonReflexiveName n = n"
proof (cases "isReflexiveName n")
  case True
  then obtain as c bs where "n = as @ c # bs" "isReflexive c" "\<not> isReflexiveName as" "getnonReflexiveName n = as @ bs"
    by (rule getnonReflexiveName_split)
  with True show ?thesis by auto
qed (simp add: getnonReflexiveName_def)

end
