(* ===== verification/Packets.thy ===== *)
theory Packets
  imports Names
begin

text \<open>
  Network-layer packets as the forwarder sees them: \<open>ndn-cxx/interest.cpp\<close> (matching, nonce,
  reflexive predicates), \<open>data.cpp\<close> (full name), \<open>lp/nack-header.cpp\<close> (reasons) and the tags
  of \<open>lp/tags.hpp\<close>.  A tag is an optional field: \<open>getTag\<close> reads it, \<open>setTag\<close> and
  \<open>removeTag\<close> write it.  The implicit digest of a Data is the SHA-256 of its wire encoding,
  computed outside this code; a Data carries it as a field.  Durations are in
  milliseconds, points in time in nanoseconds.
\<close>

type_synonym face_id = nat
type_synonym time = int

section \<open>Interest\<close>

record interest =
  i_name :: name
  i_canBePrefix :: bool
  i_mustBeFresh :: bool
  i_forwardingHint :: "name list"
  i_nonce :: "32 word option"
  i_lifetime :: int
  i_hopLimit :: "8 word option"
  i_incomingFaceId :: "face_id option"
  i_nextHopFaceId :: "face_id option"
  i_pitToken :: "bytes option"

datatype CachePolicyType = CachePolicy_NONE | NO_CACHE

record data =
  d_name :: name
  d_freshnessPeriod :: int
  d_digest :: bytes
  d_incomingFaceId :: "face_id option"
  d_pitToken :: "bytes option"
  d_cachePolicy :: "CachePolicyType option"

definition DEFAULT_INTEREST_LIFETIME :: int where "DEFAULT_INTEREST_LIFETIME = 4000"

definition getFullName :: "data \<Rightarrow> name" where
  "getFullName d = d_name d @ [Component ImplicitSha256DigestComponent (d_digest d)]"

definition matchesData :: "interest \<Rightarrow> data \<Rightarrow> bool" where
  "matchesData i d =
     (let interestNameLength = length (i_name i);
          fullNameLength = length (d_name d) + 1
      in if interestNameLength = fullNameLength \<and> \<not> isImplicitSha256Digest (last (i_name i)) then False
         else if interestNameLength = fullNameLength \<and> i_name i \<noteq> getFullName d then False
         else if interestNameLength \<noteq> fullNameLength \<and>
                 (if i_canBePrefix i then \<not> isPrefixOf (i_name i) (d_name d) else i_name i \<noteq> d_name d)
         then False
         else if i_mustBeFresh i \<and> d_freshnessPeriod d \<le> 0 then False
         else True)"

definition matchesInterest :: "interest \<Rightarrow> interest \<Rightarrow> bool" where
  "matchesInterest i other =
     (i_name i = i_name other \<and> i_canBePrefix i = i_canBePrefix other \<and>
      i_mustBeFresh i = i_mustBeFresh other)"

text \<open>
  \<open>getNonce\<close> draws a random word when the Interest has no nonce.  The random words of
  \<open>random::generateWord32\<close> are the values of a function; a state carries the number drawn.
\<close>

type_synonym random_source = "nat \<Rightarrow> 32 word"

definition getNonce :: "random_source \<Rightarrow> nat \<Rightarrow> interest \<Rightarrow> 32 word \<times> interest \<times> nat" where
  "getNonce rnd k i =
     (case i_nonce i of
        Some n \<Rightarrow> (n, i, k)
      | None \<Rightarrow> (rnd k, i\<lparr>i_nonce := Some (rnd k)\<rparr>, Suc k))"

definition isReflexiveInterest :: "interest \<Rightarrow> bool" where
  "isReflexiveInterest i = isReflexiveName (i_name i)"

fun rn9999_loop :: "name \<Rightarrow> bool res" where
  "rn9999_loop [] = Inr False"
| "rn9999_loop (c # cs) = bind_res (isRN9999 c) (\<lambda>b. if b then Inr True else rn9999_loop cs)"

definition isReflexiveInterestFromProducer :: "interest \<Rightarrow> bool res" where
  "isReflexiveInterestFromProducer i =
     (if length (i_name i) = 0 then Inr False else rn9999_loop (i_name i))"

fun findParametersDigest_loop :: "int \<Rightarrow> int \<Rightarrow> name \<Rightarrow> int" where
  "findParametersDigest_loop pos i [] = pos"
| "findParametersDigest_loop pos i (c # cs) =
     (if isParametersSha256Digest c
      then (if pos \<noteq> -1 then -2 else findParametersDigest_loop i (i + 1) cs)
      else findParametersDigest_loop pos (i + 1) cs)"

definition findParametersDigestComponent :: "name \<Rightarrow> int" where
  "findParametersDigestComponent n = findParametersDigest_loop (-1) 0 n"

section \<open>Nack\<close>

datatype nack_reason = NONE | CONGESTION | DUPLICATE | NO_ROUTE

definition reason_code :: "nack_reason \<Rightarrow> nat" where
  "reason_code r = (case r of NONE \<Rightarrow> 0 | CONGESTION \<Rightarrow> 50 | DUPLICATE \<Rightarrow> 100 | NO_ROUTE \<Rightarrow> 150)"

text \<open>\<open>NackHeader::getReason\<close> on the number carried by the header.\<close>

definition getReason :: "nat \<Rightarrow> nack_reason" where
  "getReason code =
     (if code = 50 then CONGESTION else if code = 100 then DUPLICATE
      else if code = 150 then NO_ROUTE else NONE)"

definition isLessSevere :: "nack_reason \<Rightarrow> nack_reason \<Rightarrow> bool" where
  "isLessSevere x y =
     (if x = NONE then False else if y = NONE then True else reason_code x < reason_code y)"

record nack =
  n_interest :: interest
  n_reason :: nack_reason

section \<open>Lemmas\<close>

lemma getReason_code [simp]: "getReason (reason_code r) = r"
  by (cases r) (simp_all add: getReason_def reason_code_def)

lemma isLessSevere_irrefl [simp]: "\<not> isLessSevere r r"
  by (simp add: isLessSevere_def)

lemma isLessSevere_total: "isLessSevere x y \<or> x = y \<or> isLessSevere y x"
  by (cases x; cases y) (simp_all add: isLessSevere_def reason_code_def)

lemma isLessSevere_trans: "isLessSevere x y \<Longrightarrow> isLessSevere y z \<Longrightarrow> isLessSevere x z"
  by (auto simp: isLessSevere_def split: if_splits)

text \<open>
  What \<open>matchesData\<close> decides: the name of the Interest is the full name of the Data, or its
  name, or (with CanBePrefix) a prefix of its name.
\<close>

lemma matchesData_iff:
  assumes "length (d_digest d) = DIGEST_SIZE"
  shows "matchesData i d \<longleftrightarrow>
      (i_name i = getFullName d \<or>
       (if i_canBePrefix i then prefix (i_name i) (d_name d) else i_name i = d_name d)) \<and>
      (i_mustBeFresh i \<longrightarrow> 0 < d_freshnessPeriod d)"
proof -
  have "\<not> prefix (getFullName d) (d_name d)"
    by (auto simp: getFullName_def dest: prefix_length_le)
  moreover have "length (i_name i) = Suc (length (d_name d)) \<Longrightarrow> \<not> prefix (i_name i) (d_name d)"
    by (auto dest: prefix_length_le)
  moreover have "length (i_name i) \<noteq> Suc (length (d_name d)) \<Longrightarrow> i_name i \<noteq> getFullName d"
    by (auto simp: getFullName_def)
  moreover have "isImplicitSha256Digest (last (getFullName d))"
    using assms by (simp add: getFullName_def isImplicitSha256Digest_def)
  ultimately show ?thesis
    by (auto simp: matchesData_def Let_def isPrefixOf_prefix)
qed

lemma matchesData_prefix:
  assumes "matchesData i d"
  shows "i_name i = getFullName d \<or> prefix (i_name i) (d_name d)"
  using assms by (auto simp: matchesData_def Let_def isPrefixOf_prefix split: if_splits)

lemma getNonce_cases [simp]:
  "i_nonce i = Some n \<Longrightarrow> getNonce rnd k i = (n, i, k)"
  "i_nonce i = None \<Longrightarrow> getNonce rnd k i = (rnd k, i\<lparr>i_nonce := Some (rnd k)\<rparr>, Suc k)"
  by (simp_all add: getNonce_def)

text \<open>The reflexive predicates: an Interest from a producer is a reflexive Interest.\<close>

lemma rn9999_loop_True:
  "rn9999_loop n = Inr True \<Longrightarrow> \<exists>c \<in> set n. isReflexive c \<and> be_nat (comp_value c) = 960051513"
  by (induction n) (auto simp: res_simps isRN9999_cases split: if_splits)

lemma rn9999_loop_not_reflexive: "\<not> isReflexiveName n \<Longrightarrow> rn9999_loop n = Inr False"
  by (induction n) (auto simp: isReflexiveName_def isRN9999_cases)

lemma fromProducer_reflexive:
  "isReflexiveInterestFromProducer i = Inr True \<Longrightarrow> isReflexiveInterest i"
  using rn9999_loop_True [of "i_name i"]
  by (auto simp: isReflexiveInterestFromProducer_def isReflexiveInterest_def isReflexiveName_def
      list_ex_iff split: if_splits)

lemma fromProducer_not_reflexive:
  "\<not> isReflexiveInterest i \<Longrightarrow> isReflexiveInterestFromProducer i = Inr False"
  by (simp add: isReflexiveInterestFromProducer_def isReflexiveInterest_def rn9999_loop_not_reflexive)

lemma fromProducer_name_cong:
  "i_name i = i_name j \<Longrightarrow> isReflexiveInterestFromProducer i = isReflexiveInterestFromProducer j"
  by (simp add: isReflexiveInterestFromProducer_def)

section \<open>Properties\<close>

text \<open>
  An Interest matches Data iff its name is the Data's full name, or equal to the Data's name, or a
  prefix of it when CanBePrefix is set; and, with MustBeFresh, the Data has a positive freshness period.
\<close>

theorem interest_matches_data:
  assumes "length (d_digest d) = DIGEST_SIZE"
  shows "matchesData i d \<longleftrightarrow>
    (i_name i = getFullName d \<or> (if i_canBePrefix i then prefix (i_name i) (d_name d) else i_name i = d_name d)) \<and>
    (i_mustBeFresh i \<longrightarrow> 0 < d_freshnessPeriod d)"
  by (rule matchesData_iff [OF assms])

theorem interest_matches_data_witness:
  "matchesData \<lparr>i_name = [Component 8 [1]], i_canBePrefix = True, i_mustBeFresh = True, i_forwardingHint = [], i_nonce = None,
       i_lifetime = 4000, i_hopLimit = None, i_incomingFaceId = None, i_nextHopFaceId = None, i_pitToken = None\<rparr>
     \<lparr>d_name = [Component 8 [1], Component 8 [2]], d_freshnessPeriod = 1000, d_digest = replicate 32 0, d_incomingFaceId = None,
       d_pitToken = None, d_cachePolicy = None\<rparr>"
  by (subst interest_matches_data) simp_all

end
