(* ===== verification/Pit_Assist.thy ===== *)
theory Pit_Assist
  imports Packets
begin

text \<open>
  PIT tokens of reflexive forwarding: \<open>NFD/daemon/table/assist.cpp\<close> (token bytes) and the
  class \<open>pit_assist\<close> of \<open>assist.hpp\<close> (the tables between names, the tokens this node chose
  for the next hop, and the tokens the previous hop sent).  \<open>generateToken\<close> loops until a
  random word is usable; \<open>None\<close> is the loop that never ends.
\<close>

section \<open>Token bytes\<close>

definition setPitToken :: "32 word \<Rightarrow> bytes" where
  "setPitToken tokenvalue = map (\<lambda>i. ucast (drop_bit (8 * i) tokenvalue AND 0xFF)) [0..<4]"

text \<open>\<open>operator[]\<close> of a token with fewer than four bytes reads outside the buffer.\<close>

definition readPitToken :: "bytes \<Rightarrow> 32 word res" where
  "readPitToken pitToken =
     (if length pitToken < 4 then Inl UndefinedBehavior
      else Inr (foldl (\<lambda>tokenvalue i. tokenvalue OR push_bit (8 * i) (ucast (pitToken ! i))) 0 [0..<4]))"

definition readInterestPitToken :: "interest \<Rightarrow> 32 word res" where
  "readInterestPitToken i =
     (case i_pitToken i of None \<Rightarrow> Inr 0 | Some t \<Rightarrow> readPitToken t)"

text \<open>\<open>lp::PitToken::validate\<close>: the header field has between 1 and 32 bytes.\<close>

definition validate_pitToken :: "bytes \<Rightarrow> bool" where
  "validate_pitToken t = (1 \<le> length t \<and> length t \<le> 32)"

section \<open>The assist tables\<close>

record pit_assist =
  m_reserved_value :: "32 word set"
  m_Name_to_Token :: "name \<rightharpoonup> 32 word"
  m_Name_to_prevToken :: "name \<rightharpoonup> 32 word"
  m_Token_to_Name :: "32 word \<rightharpoonup> name"
  m_prevToken_to_Name :: "32 word \<rightharpoonup> name"

definition new_pit_assist :: pit_assist where
  "new_pit_assist =
     \<lparr>m_reserved_value = {0}, m_Name_to_Token = Map.empty, m_Name_to_prevToken = Map.empty,
      m_Token_to_Name = Map.empty, m_prevToken_to_Name = Map.empty\<rparr>"

definition existName :: "pit_assist \<Rightarrow> name \<Rightarrow> bool" where
  "existName a n = (m_Name_to_Token a n \<noteq> None)"

partial_function (option) generateToken ::
    "random_source \<Rightarrow> pit_assist \<Rightarrow> nat \<Rightarrow> (32 word \<times> nat) option" where
  "generateToken rnd a k =
     (let newtoken = rnd k
      in if newtoken \<in> m_reserved_value a then generateToken rnd a (Suc k)
         else if m_Token_to_Name a newtoken = None then Some (newtoken, Suc k)
         else generateToken rnd a (Suc k))"

definition recordToken :: "pit_assist \<Rightarrow> name \<Rightarrow> 32 word \<Rightarrow> 32 word \<Rightarrow> pit_assist" where
  "recordToken a n token prevToken =
     a\<lparr>m_Name_to_Token := (m_Name_to_Token a)(n \<mapsto> token),
       m_Token_to_Name := (m_Token_to_Name a)(token \<mapsto> n),
       m_Name_to_prevToken := (m_Name_to_prevToken a)(n \<mapsto> prevToken),
       m_prevToken_to_Name := (m_prevToken_to_Name a)(prevToken \<mapsto> n)\<rparr>"

definition createName ::
    "random_source \<Rightarrow> pit_assist \<Rightarrow> nat \<Rightarrow> name \<Rightarrow> 32 word \<Rightarrow> (pit_assist \<times> nat) res" where
  "createName rnd a k n prevToken =
     (case generateToken rnd a k of
        None \<Rightarrow> Inl Diverges
      | Some (token, k') \<Rightarrow> Inr (recordToken a n token prevToken, k'))"

definition prevTokenToName :: "pit_assist \<Rightarrow> 32 word \<Rightarrow> name \<times> bool" where
  "prevTokenToName a t = (case m_prevToken_to_Name a t of Some n \<Rightarrow> (n, True) | None \<Rightarrow> ([], False))"

definition nameToPrevToken :: "pit_assist \<Rightarrow> name \<Rightarrow> 32 word \<times> bool" where
  "nameToPrevToken a n = (case m_Name_to_prevToken a n of Some t \<Rightarrow> (t, True) | None \<Rightarrow> (0, False))"

definition tokenToName :: "pit_assist \<Rightarrow> 32 word \<Rightarrow> name \<times> bool" where
  "tokenToName a t = (case m_Token_to_Name a t of Some n \<Rightarrow> (n, True) | None \<Rightarrow> ([], False))"

definition nameToToken :: "pit_assist \<Rightarrow> name \<Rightarrow> 32 word \<times> bool" where
  "nameToToken a n = (case m_Name_to_Token a n of Some t \<Rightarrow> (t, True) | None \<Rightarrow> (0, False))"

text \<open>
  The invariant of the tables: names and next-hop tokens correspond one to one, no token is a
  reserved value, and the name of a token has a previous-hop token recorded.
\<close>

definition assist_inv :: "pit_assist \<Rightarrow> bool" where
  "assist_inv a \<longleftrightarrow>
     0 \<in> m_reserved_value a \<and>
     (\<forall>n t. m_Name_to_Token a n = Some t \<longleftrightarrow> m_Token_to_Name a t = Some n) \<and>
     (\<forall>t \<in> m_reserved_value a. m_Token_to_Name a t = None) \<and>
     dom (m_Name_to_prevToken a) = dom (m_Name_to_Token a)"

definition usable_token :: "pit_assist \<Rightarrow> 32 word \<Rightarrow> bool" where
  "usable_token a t \<longleftrightarrow> t \<notin> m_reserved_value a \<and> m_Token_to_Name a t = None"

section \<open>Token bytes: round trip\<close>

lemma bit_ucast_byte_imp: "bit (ucast (b :: byte) :: 32 word) n \<Longrightarrow> n < 8"
  by (auto simp: bit_ucast_iff dest: bit_imp_le_length)

lemma upt_0_4: "[0..<4] = [0, 1, 2, 3 :: nat]"
  by (simp add: upt_rec)

lemma readPitToken_four:
  "length bs = 4 \<Longrightarrow>
     readPitToken bs = Inr (ucast (bs ! 0) OR push_bit 8 (ucast (bs ! 1)) OR
       push_bit 16 (ucast (bs ! 2)) OR push_bit 24 (ucast (bs ! 3)))"
  by (simp add: readPitToken_def upt_0_4 or.assoc)

lemma setPitToken_four:
  "setPitToken w = [ucast (w AND 0xFF), ucast (drop_bit 8 w AND 0xFF),
     ucast (drop_bit 16 w AND 0xFF), ucast (drop_bit 24 w AND 0xFF)]"
  by (simp add: setPitToken_def upt_0_4)

lemma length_setPitToken [simp]: "length (setPitToken w) = 4"
  by (simp add: setPitToken_def)

lemma ucast_and_0xFF: "(ucast (x AND 0xFF :: 32 word) :: byte) = ucast x"
proof -
  have "(0xFF :: 32 word) = mask 8" by (simp add: mask_eq_exp_minus_1)
  then have "x AND 0xFF = take_bit 8 x" by (simp only: take_bit_eq_mask)
  moreover have "(ucast (take_bit 8 x) :: byte) = ucast x"
    by (rule bit_word_eqI) (auto simp: bit_ucast_iff bit_take_bit_iff)
  ultimately show ?thesis by simp
qed

lemma readPitToken_setPitToken [simp]: "readPitToken (setPitToken w) = Inr w"
proof -
  let ?c = "\<lambda>x. ucast (ucast x :: byte) :: 32 word"
  have "?c w OR push_bit 8 (?c (drop_bit 8 w)) OR
      push_bit 16 (?c (drop_bit 16 w)) OR push_bit 24 (?c (drop_bit 24 w)) = w"
  proof (rule bit_word_eqI)
    fix n :: nat assume "n < LENGTH(32)"
    then consider "n < 8" | "8 \<le> n" "n < 16" | "16 \<le> n" "n < 24" | "24 \<le> n" "n < 32"
      by fastforce
    then show "bit (?c w OR push_bit 8 (?c (drop_bit 8 w)) OR
        push_bit 16 (?c (drop_bit 16 w)) OR push_bit 24 (?c (drop_bit 24 w))) n = bit w n"
      by cases (auto simp: bit_or_iff bit_push_bit_iff bit_ucast_iff bit_drop_bit_eq)
  qed
  then show ?thesis by (simp add: readPitToken_four setPitToken_four ucast_and_0xFF)
qed

lemma validate_setPitToken: "validate_pitToken (setPitToken w)"
  by (simp add: validate_pitToken_def)

section \<open>Generating tokens\<close>

definition first_usable :: "random_source \<Rightarrow> pit_assist \<Rightarrow> nat \<Rightarrow> 32 word \<times> nat \<Rightarrow> bool" where
  "first_usable rnd a k r \<longleftrightarrow>
     (\<exists>j \<ge> k. r = (rnd j, Suc j) \<and> usable_token a (rnd j) \<and> (\<forall>i. k \<le> i \<and> i < j \<longrightarrow> \<not> usable_token a (rnd i)))"

lemma first_usable_Suc:
  "\<not> usable_token a (rnd k) \<Longrightarrow> first_usable rnd a (Suc k) r \<Longrightarrow> first_usable rnd a k r"
  unfolding first_usable_def by (metis Suc_leD le_neq_implies_less less_eq_Suc_le)

lemma generateToken_first_usable:
  assumes "generateToken rnd a k = Some r"
  shows "first_usable rnd a k r"
proof (rule generateToken.raw_induct [where P = first_usable, OF _ assms])
  fix gen rnd a k r
  assume IH: "\<And>rnd a k r. gen rnd a k = Some r \<Longrightarrow> first_usable rnd a k r"
    and body: "(let newtoken = rnd k
      in if newtoken \<in> m_reserved_value a then gen rnd a (Suc k)
         else if m_Token_to_Name a newtoken = None then Some (newtoken, Suc k)
         else gen rnd a (Suc k)) = Some r"
  show "first_usable rnd a k r"
  proof (cases "usable_token a (rnd k)")
    case True
    with body show ?thesis by (auto simp: usable_token_def Let_def first_usable_def)
  next
    case False
    with body have "gen rnd a (Suc k) = Some r"
      by (auto simp: usable_token_def Let_def split: if_splits)
    with IH False show ?thesis by (simp add: first_usable_Suc)
  qed
qed

lemma generateToken_first:
  "usable_token a (rnd (k + j)) \<Longrightarrow> \<exists>t k'. generateToken rnd a k = Some (t, k')"
proof (induction j arbitrary: k)
  case 0
  then show ?case by (subst generateToken.simps) (auto simp: usable_token_def Let_def)
next
  case (Suc j)
  then have "\<exists>t k'. generateToken rnd a (Suc k) = Some (t, k')" by simp
  then show ?case by (subst generateToken.simps) (auto simp: Let_def)
qed

lemma generateToken_Some_iff:
  "(\<exists>r. generateToken rnd a k = Some r) \<longleftrightarrow> (\<exists>j \<ge> k. usable_token a (rnd j))"
proof
  assume "\<exists>j \<ge> k. usable_token a (rnd j)"
  then obtain j where "k \<le> j" "usable_token a (rnd j)" by blast
  with generateToken_first [of a rnd k "j - k"] show "\<exists>r. generateToken rnd a k = Some r" by auto
next
  assume "\<exists>r. generateToken rnd a k = Some r"
  then obtain r where "first_usable rnd a k r" using generateToken_first_usable by blast
  then show "\<exists>j \<ge> k. usable_token a (rnd j)" unfolding first_usable_def by blast
qed

section \<open>The contract of the token tables\<close>

text \<open>
  What the pipelines rely on: a registry with fresh tokens keeps names and tokens in
  one-to-one correspondence and never forgets or changes an association once it is made.
\<close>

locale token_registry =
  fixes inv :: "'s \<Rightarrow> bool"
    and name_token :: "'s \<Rightarrow> name \<Rightarrow> 32 word option"
    and token_name :: "'s \<Rightarrow> 32 word \<Rightarrow> name option"
    and prev_token :: "'s \<Rightarrow> name \<Rightarrow> 32 word option"
    and usable :: "'s \<Rightarrow> 32 word \<Rightarrow> bool"
    and register :: "'s \<Rightarrow> name \<Rightarrow> 32 word \<Rightarrow> 32 word \<Rightarrow> 's"
  assumes inv_register:
      "inv s \<Longrightarrow> name_token s n = None \<Longrightarrow> usable s t \<Longrightarrow> inv (register s n t p)"
    and name_token_register:
      "name_token (register s n t p) = (name_token s)(n \<mapsto> t)"
    and prev_token_register:
      "prev_token (register s n t p) = (prev_token s)(n \<mapsto> p)"
    and inverse: "inv s \<Longrightarrow> name_token s n = Some t \<longleftrightarrow> token_name s t = Some n"
    and usable_nonzero: "inv s \<Longrightarrow> usable s t \<Longrightarrow> t \<noteq> 0"
    and name_token_nonzero: "inv s \<Longrightarrow> name_token s n = Some t \<Longrightarrow> t \<noteq> 0"
    and prev_token_dom: "inv s \<Longrightarrow> prev_token s n = None \<longleftrightarrow> name_token s n = None"
begin

lemma token_inject:
  "inv s \<Longrightarrow> name_token s n = Some t \<Longrightarrow> name_token s m = Some t \<Longrightarrow> n = m"
  by (simp add: inverse)

lemma register_lookup:
  assumes "inv s" "name_token s n = None" "usable s t"
  shows "token_name (register s n t p) t = Some n" "prev_token (register s n t p) n = Some p"
  using inverse [OF inv_register [OF assms], of p n t] by (simp_all add: name_token_register prev_token_register)

text \<open>A sequence of registrations of new names with usable tokens.\<close>

inductive registrations :: "'s \<Rightarrow> 's \<Rightarrow> bool" where
  refl: "registrations s s"
| step: "registrations s s' \<Longrightarrow> name_token s' n = None \<Longrightarrow> usable s' t
    \<Longrightarrow> registrations s (register s' n t p)"

lemma registrations_stable:
  assumes "registrations s s'" "inv s"
  shows "inv s' \<and> name_token s \<subseteq>\<^sub>m name_token s' \<and>
    (\<forall>n. name_token s n \<noteq> None \<longrightarrow> prev_token s' n = prev_token s n)"
  using assms
proof (induction rule: registrations.induct)
  case (step s s' n t p)
  then have IH: "inv s'" "name_token s \<subseteq>\<^sub>m name_token s'"
    "\<forall>m. name_token s m \<noteq> None \<longrightarrow> prev_token s' m = prev_token s m" by auto
  have "name_token s n = None" using IH(2) step.hyps(2) by (metis domIff map_le_def)
  then show ?case
    using IH step.hyps inv_register [of s' n t p]
    by (auto simp: name_token_register prev_token_register map_le_def)
qed simp

lemma token_resolves:
  assumes "registrations s s'" "inv s" "token_name s t = Some n"
  shows "token_name s' t = Some n \<and> prev_token s' n = prev_token s n"
proof -
  have st: "inv s'" "name_token s \<subseteq>\<^sub>m name_token s'"
    "\<forall>n. name_token s n \<noteq> None \<longrightarrow> prev_token s' n = prev_token s n"
    using registrations_stable [OF assms(1,2)] by auto
  have nt: "name_token s n = Some t" using assms(2,3) by (simp add: inverse)
  then have "name_token s' n = Some t" using st(2) by (metis domI map_le_def)
  then show ?thesis using st(1,3) nt by (simp add: inverse)
qed

end

lemma assist_inv_new: "assist_inv new_pit_assist"
  by (simp add: assist_inv_def new_pit_assist_def)

lemma assist_invD:
  assumes "assist_inv a"
  shows "0 \<in> m_reserved_value a" "m_Name_to_Token a n = Some t \<longleftrightarrow> m_Token_to_Name a t = Some n"
    "t \<in> m_reserved_value a \<Longrightarrow> m_Token_to_Name a t = None"
    "dom (m_Name_to_prevToken a) = dom (m_Name_to_Token a)"
  using assms unfolding assist_inv_def by blast+

lemma recordToken_simps [simp]:
  "m_reserved_value (recordToken a n t p) = m_reserved_value a"
  "m_Name_to_Token (recordToken a n t p) = (m_Name_to_Token a)(n \<mapsto> t)"
  "m_Token_to_Name (recordToken a n t p) = (m_Token_to_Name a)(t \<mapsto> n)"
  "m_Name_to_prevToken (recordToken a n t p) = (m_Name_to_prevToken a)(n \<mapsto> p)"
  "m_prevToken_to_Name (recordToken a n t p) = (m_prevToken_to_Name a)(p \<mapsto> n)"
  by (simp_all add: recordToken_def)

lemma assist_inv_recordToken:
  assumes "assist_inv a" "m_Name_to_Token a n = None" "usable_token a t"
  shows "assist_inv (recordToken a n t p)"
proof -
  note I = assist_invD [OF assms(1)]
  have "m_Token_to_Name a t' \<noteq> Some n" for t' using I(2) [of n t'] assms(2) by simp
  moreover have "m_Name_to_Token a n' \<noteq> Some t" for n'
    using I(2) [of n' t] assms(3) by (simp add: usable_token_def)
  ultimately have "((m_Name_to_Token a)(n \<mapsto> t)) n' = Some t' \<longleftrightarrow>
      ((m_Token_to_Name a)(t \<mapsto> n)) t' = Some n'" for n' t'
    using I(2) [of n' t'] by (simp add: fun_upd_apply)
  moreover have "\<forall>t' \<in> m_reserved_value a. t' \<noteq> t" using assms(3) by (auto simp: usable_token_def)
  ultimately show ?thesis
    using I(1,3,4) unfolding assist_inv_def by (simp only: recordToken_simps) auto
qed

interpretation assist: token_registry assist_inv m_Name_to_Token m_Token_to_Name
    m_Name_to_prevToken usable_token recordToken
proof unfold_locales
  fix a n t p
  show "m_Name_to_Token (recordToken a n t p) = (m_Name_to_Token a)(n \<mapsto> t)"
    "m_Name_to_prevToken (recordToken a n t p) = (m_Name_to_prevToken a)(n \<mapsto> p)" by simp_all
  assume a: "assist_inv a"
  show "m_Name_to_Token a n = None \<Longrightarrow> usable_token a t \<Longrightarrow> assist_inv (recordToken a n t p)"
    using a by (rule assist_inv_recordToken)
  show "m_Name_to_prevToken a n = None \<longleftrightarrow> m_Name_to_Token a n = None"
    using assist_invD(4) [OF a] by (metis domIff)
  show "m_Name_to_Token a n = Some t \<longleftrightarrow> m_Token_to_Name a t = Some n"
    using a by (rule assist_invD)
  show "usable_token a t \<Longrightarrow> t \<noteq> 0"
    using assist_invD(1) [OF a] by (auto simp: usable_token_def)
  show "m_Name_to_Token a n = Some t \<Longrightarrow> t \<noteq> 0"
    using assist_invD(1) [OF a] assist_invD(2) [OF a, of n t] assist_invD(3) [OF a, of t] by auto
qed

text \<open>The accessors in terms of the tables.\<close>

lemma token_accessors [simp]:
  "tokenToName a t = (n, True) \<longleftrightarrow> m_Token_to_Name a t = Some n"
  "nameToToken a n = (t, True) \<longleftrightarrow> m_Name_to_Token a n = Some t"
  "nameToPrevToken a n = (t, True) \<longleftrightarrow> m_Name_to_prevToken a n = Some t"
  "existName a n \<longleftrightarrow> (\<exists>t. nameToToken a n = (t, True))"
  by (auto simp: tokenToName_def nameToToken_def nameToPrevToken_def existName_def split: option.splits)

lemma createName_Inr:
  "createName rnd a k n p = Inr (a', k') \<longleftrightarrow>
     (\<exists>t. generateToken rnd a k = Some (t, k') \<and> a' = recordToken a n t p)"
  by (auto simp: createName_def split: option.splits)

lemma createName_total:
  "(\<exists>r. createName rnd a k n p = Inr r) \<longleftrightarrow> (\<exists>j \<ge> k. usable_token a (rnd j))"
proof -
  have "(\<exists>r. createName rnd a k n p = Inr r) \<longleftrightarrow> (\<exists>r. generateToken rnd a k = Some r)"
    by (cases "generateToken rnd a k") (auto simp: createName_def)
  then show ?thesis by (simp only: generateToken_Some_iff)
qed

section \<open>Properties\<close>

text \<open>
  A token written into an Interest as bytes is read back unchanged by the next forwarder, and its
  bytes are a valid PIT token field.
\<close>

theorem token_roundtrip:
  "readPitToken (setPitToken w) = Inr w \<and> validate_pitToken (setPitToken w) \<and> length (setPitToken w) = 4"
  by (simp add: validate_setPitToken)

text \<open>
  C11: Creating a token for a name ends iff the random source still has a usable value (not reserved
  and not in use); then the token is such a value and becomes the name's, with the previous hop's token
  beside it.  With no usable value left the search never returns.
\<close>

theorem createName_terminates:
  "(\<exists>r. createName rnd a k n p = Inr r) = (\<exists>j \<ge> k. usable_token a (rnd j)) \<and>
   (\<forall>a' k'. createName rnd a k n p = Inr (a', k') \<longrightarrow>
      (\<exists>t. usable_token a t \<and> nameToToken a' n = (t, True) \<and> tokenToName a' t = (n, True) \<and> nameToPrevToken a' n = (p, True)))"
proof -
  have "usable_token a t" if "generateToken rnd a k = Some (t, k')" for t k'
    using generateToken_first_usable [OF that] by (auto simp: first_usable_def)
  then show ?thesis using createName_total [of rnd a k n p] by (auto simp: createName_Inr)
qed

theorem createName_terminates_witness:
  "\<exists>a' k'. createName (\<lambda>k. word_of_nat k) new_pit_assist 0 [Component 8 [97]] 5 = Inr (a', k') \<and> nameToPrevToken a' [Component 8 [97]] = (5, True)"
proof -
  have "usable_token new_pit_assist (word_of_nat 1)" by (simp add: usable_token_def new_pit_assist_def)
  then have "\<exists>j \<ge> 0. usable_token new_pit_assist (word_of_nat j)" by (intro exI [of _ 1]) simp
  then obtain a' k' where "createName (\<lambda>k. word_of_nat k) new_pit_assist 0 [Component 8 [97]] 5 = Inr (a', k')"
    using createName_terminates [of "\<lambda>k. word_of_nat k" new_pit_assist 0 "[Component 8 [97]]" 5] by auto
  then show ?thesis
    using createName_terminates [of "\<lambda>k. word_of_nat k" new_pit_assist 0 "[Component 8 [97]]" 5] by blast
qed



end
