(* ===== verification/Name_Tree.thy ===== *)
theory Name_Tree
  imports Pit_Assist
begin

text \<open>
  The name tree that FIB, PIT, Measurements and StrategyChoice share:
  \<open>NFD/daemon/table/name-tree.cpp\<close>, \<open>name-tree-entry.cpp\<close> and the enumerations of
  \<open>name-tree-iterator.cpp\<close>.  An entry is identified with its name; the index from names to
  entries is an association list here, and \<open>Name_Tree_Hashtable\<close> shows that the hashtable
  of \<open>name-tree-hashtable.cpp\<close> implements it.  PIT entries are shared objects, so an entry
  of the tree holds references to them; the other tables own their entries.
\<close>

type_synonym pit_ref = nat

record ('f, 'm, 's) nte =
  nte_parent :: "name option"
  nte_children :: "name list"
  nte_fib :: "'f option"
  nte_pit :: "pit_ref list"
  nte_meas :: "'m option"
  nte_sc :: "'s option"

type_synonym ('f, 'm, 's) name_tree = "(name \<times> ('f, 'm, 's) nte) list"

definition getMaxDepth :: nat where "getMaxDepth = 32"

section \<open>Entries\<close>

definition new_nte :: "('f, 'm, 's) nte" where
  "new_nte = \<lparr>nte_parent = None, nte_children = [], nte_fib = None, nte_pit = [],
              nte_meas = None, nte_sc = None\<rparr>"

definition hasTableEntries :: "('f, 'm, 's) nte \<Rightarrow> bool" where
  "hasTableEntries e \<longleftrightarrow>
     nte_fib e \<noteq> None \<or> nte_pit e \<noteq> [] \<or> nte_meas e \<noteq> None \<or> nte_sc e \<noteq> None"

definition isEmpty_nte :: "('f, 'm, 's) nte \<Rightarrow> bool" where
  "isEmpty_nte e \<longleftrightarrow> nte_children e = [] \<and> \<not> hasTableEntries e"

definition nt_modify ::
    "(('f, 'm, 's) nte \<Rightarrow> ('f, 'm, 's) nte) \<Rightarrow> name \<Rightarrow> ('f, 'm, 's) name_tree \<Rightarrow> ('f, 'm, 's) name_tree" where
  "nt_modify f n nt = (case map_of nt n of None \<Rightarrow> nt | Some e \<Rightarrow> AList.update n (f e) nt)"

definition setParent :: "name \<Rightarrow> name \<Rightarrow> ('f, 'm, 's) name_tree \<Rightarrow> ('f, 'm, 's) name_tree" where
  "setParent n p nt =
     nt_modify (\<lambda>e. e\<lparr>nte_children := nte_children e @ [n]\<rparr>) p
       (nt_modify (\<lambda>e. e\<lparr>nte_parent := Some p\<rparr>) n nt)"

definition unsetParent :: "name \<Rightarrow> name \<Rightarrow> ('f, 'm, 's) name_tree \<Rightarrow> ('f, 'm, 's) name_tree" where
  "unsetParent n p nt =
     nt_modify (\<lambda>e. e\<lparr>nte_parent := None\<rparr>) n
       (nt_modify (\<lambda>e. e\<lparr>nte_children := remove1 n (nte_children e)\<rparr>) p nt)"

definition setFibEntry :: "'f option \<Rightarrow> name \<Rightarrow> ('f, 'm, 's) name_tree \<Rightarrow> ('f, 'm, 's) name_tree" where
  "setFibEntry f = nt_modify (\<lambda>e. e\<lparr>nte_fib := f\<rparr>)"

definition setMeasurementsEntry :: "'m option \<Rightarrow> name \<Rightarrow> ('f, 'm, 's) name_tree \<Rightarrow> ('f, 'm, 's) name_tree" where
  "setMeasurementsEntry m = nt_modify (\<lambda>e. e\<lparr>nte_meas := m\<rparr>)"

definition setStrategyChoiceEntry :: "'s option \<Rightarrow> name \<Rightarrow> ('f, 'm, 's) name_tree \<Rightarrow> ('f, 'm, 's) name_tree" where
  "setStrategyChoiceEntry s = nt_modify (\<lambda>e. e\<lparr>nte_sc := s\<rparr>)"

definition insertPitEntry :: "pit_ref \<Rightarrow> name \<Rightarrow> ('f, 'm, 's) name_tree \<Rightarrow> ('f, 'm, 's) name_tree" where
  "insertPitEntry r = nt_modify (\<lambda>e. e\<lparr>nte_pit := nte_pit e @ [r]\<rparr>)"

text \<open>\<open>erasePitEntry\<close> overwrites the found element with the last one and drops the last.\<close>

fun replace_first :: "'a \<Rightarrow> 'a \<Rightarrow> 'a list \<Rightarrow> 'a list" where
  "replace_first x y [] = []"
| "replace_first x y (z # zs) = (if z = x then y # zs else z # replace_first x y zs)"

definition swap_with_back :: "'a \<Rightarrow> 'a list \<Rightarrow> 'a list" where
  "swap_with_back x xs = butlast (replace_first x (last xs) xs)"

definition erasePitEntry :: "pit_ref \<Rightarrow> name \<Rightarrow> ('f, 'm, 's) name_tree \<Rightarrow> ('f, 'm, 's) name_tree" where
  "erasePitEntry r = nt_modify (\<lambda>e. e\<lparr>nte_pit := swap_with_back r (nte_pit e)\<rparr>)"

section \<open>Lookup and erase\<close>

definition nt_index_insert :: "name \<Rightarrow> ('f, 'm, 's) name_tree \<Rightarrow> ('f, 'm, 's) name_tree \<times> bool" where
  "nt_index_insert n nt =
     (case map_of nt n of None \<Rightarrow> (AList.update n new_nte nt, True) | Some _ \<Rightarrow> (nt, False))"

definition lookup_step ::
    "name \<Rightarrow> nat \<Rightarrow> ('f, 'm, 's) name_tree \<times> name option \<Rightarrow> ('f, 'm, 's) name_tree \<times> name option" where
  "lookup_step n i s =
     (let (nt, parent) = s;
          p = take i n;
          (nt', isNew) = nt_index_insert p nt
      in (case parent of Some q \<Rightarrow> if isNew then setParent p q nt' else nt' | None \<Rightarrow> nt', Some p))"

definition nt_lookup :: "name \<Rightarrow> nat \<Rightarrow> ('f, 'm, 's) name_tree \<Rightarrow> ('f, 'm, 's) name_tree res" where
  "nt_lookup n prefixLen nt =
     assert_res (prefixLen \<le> length n) (assert_res (prefixLen \<le> getMaxDepth)
       (Inr (fst (fold (lookup_step n) [0..<Suc prefixLen] (nt, None)))))"

lemma fst_set_AList_update: "fst ` set (AList.update k v al) = insert k (fst ` set al)"
  by (simp add: dom_update)

lemma length_update_existing: "k \<in> fst ` set al \<Longrightarrow> length (AList.update k v al) = length al"
  by (simp add: length_AList_update)

lemma map_of_SomeD_fst: "map_of al k = Some v \<Longrightarrow> k \<in> fst ` set al"
  by (metis domI dom_map_of_conv_image_fst)

lemma length_nt_modify [simp]: "length (nt_modify f n nt) = length nt"
  by (cases "map_of nt n") (simp_all add: nt_modify_def length_update_existing map_of_SomeD_fst)

lemma fst_set_nt_modify [simp]: "fst ` set (nt_modify f n nt) = fst ` set nt"
  by (auto simp: nt_modify_def fst_set_AList_update dest!: map_of_SomeD_fst split: option.splits)

lemma length_delete_less: "k \<in> fst ` set al \<Longrightarrow> length (AList.delete k al) < length al"
proof -
  assume "k \<in> fst ` set al"
  then obtain v where "(k, v) \<in> set al" by auto
  then have "length (filter (\<lambda>(k', _). k \<noteq> k') al) < length al"
    by (rule length_filter_less) simp
  then show ?thesis by (simp add: AList.delete_eq)
qed

lemma length_delete_unsetParent:
  assumes "map_of nt n = Some e"
  shows "length (AList.delete n (unsetParent n p nt)) < length nt"
proof -
  have "n \<in> fst ` set (unsetParent n p nt)"
    using assms by (simp add: unsetParent_def map_of_SomeD_fst)
  from length_delete_less [OF this] show ?thesis by (simp add: unsetParent_def)
qed

function eraseIfEmpty :: "name \<Rightarrow> bool \<Rightarrow> ('f, 'm, 's) name_tree \<Rightarrow> ('f, 'm, 's) name_tree \<times> nat" where
  "eraseIfEmpty n canEraseAncestors nt =
     (case map_of nt n of
        None \<Rightarrow> (nt, 0)
      | Some e \<Rightarrow>
          if \<not> isEmpty_nte e then (nt, 0)
          else
            (let nt1 = (case nte_parent e of Some p \<Rightarrow> unsetParent n p nt | None \<Rightarrow> nt);
                 nt2 = AList.delete n nt1
             in case nte_parent e of
                  Some p \<Rightarrow>
                    if canEraseAncestors
                    then (let (nt3, k) = eraseIfEmpty p canEraseAncestors nt2 in (nt3, Suc k))
                    else (nt2, 1)
                | None \<Rightarrow> (nt2, 1)))"
  by auto
termination
  by (relation "measure (\<lambda>(n, b, nt). length nt)")
    (simp_all add: length_delete_unsetParent)

declare eraseIfEmpty.simps [simp del]

section \<open>Matching\<close>

definition findExactMatch :: "name \<Rightarrow> nat \<Rightarrow> ('f, 'm, 's) name_tree \<Rightarrow> name option" where
  "findExactMatch n prefixLen nt =
     (let l = min (length n) prefixLen
      in if l > getMaxDepth then None
         else case map_of nt (take l n) of None \<Rightarrow> None | Some _ \<Rightarrow> Some (take l n))"

fun lpm_down :: "(name \<Rightarrow> 'e option) \<Rightarrow> (name \<Rightarrow> 'e \<Rightarrow> bool) \<Rightarrow> name \<Rightarrow> nat \<Rightarrow> name option" where
  "lpm_down look sel n 0 =
     (case look [] of Some e \<Rightarrow> if sel [] e then Some [] else None | None \<Rightarrow> None)"
| "lpm_down look sel n (Suc i) =
     (case look (take (Suc i) n) of
        Some e \<Rightarrow> if sel (take (Suc i) n) e then Some (take (Suc i) n) else lpm_down look sel n i
      | None \<Rightarrow> lpm_down look sel n i)"

definition findLongestPrefixMatch ::
    "name \<Rightarrow> (name \<Rightarrow> ('f, 'm, 's) nte \<Rightarrow> bool) \<Rightarrow> ('f, 'm, 's) name_tree \<Rightarrow> name option" where
  "findLongestPrefixMatch n entrySelector nt =
     lpm_down (map_of nt) entrySelector n (min (length n) getMaxDepth)"

text \<open>The walk over parent pointers; a path to the root has at most one more entry than the name.\<close>

fun lpm_up :: "nat \<Rightarrow> (name \<Rightarrow> ('f, 'm, 's) nte \<Rightarrow> bool) \<Rightarrow> ('f, 'm, 's) name_tree \<Rightarrow> name \<Rightarrow> name option" where
  "lpm_up 0 sel nt n = None"
| "lpm_up (Suc k) sel nt n =
     (case map_of nt n of
        None \<Rightarrow> None
      | Some e \<Rightarrow> if sel n e then Some n
                  else (case nte_parent e of None \<Rightarrow> None | Some p \<Rightarrow> lpm_up k sel nt p))"

definition findLongestPrefixMatch_entry ::
    "name \<Rightarrow> (name \<Rightarrow> ('f, 'm, 's) nte \<Rightarrow> bool) \<Rightarrow> ('f, 'm, 's) name_tree \<Rightarrow> name option" where
  "findLongestPrefixMatch_entry n sel nt = lpm_up (Suc (length n)) sel nt n"

text \<open>
  From a PIT entry: its own tree entry is at most as deep as its name; the loop goes deeper as
  long as longer prefixes of the name have entries.
\<close>

fun go_deeper :: "name \<Rightarrow> nat list \<Rightarrow> ('f, 'm, 's) name_tree \<Rightarrow> name \<Rightarrow> name" where
  "go_deeper n [] nt cur = cur"
| "go_deeper n (i # is) nt cur =
     (case findExactMatch n i nt of None \<Rightarrow> cur | Some exact \<Rightarrow> go_deeper n is nt exact)"

definition findLongestPrefixMatch_pit ::
    "name \<Rightarrow> name \<Rightarrow> (name \<Rightarrow> ('f, 'm, 's) nte \<Rightarrow> bool) \<Rightarrow> ('f, 'm, 's) name_tree \<Rightarrow> name option" where
  "findLongestPrefixMatch_pit pitName pitNte sel nt =
     (let depth = min (length pitName) getMaxDepth;
          start = (if length pitNte < length pitName
                   then go_deeper pitName [length pitNte + 1..<depth + 1] nt pitNte else pitNte)
      in findLongestPrefixMatch_entry start sel nt)"

section \<open>Enumeration\<close>

fun up_matches :: "nat \<Rightarrow> (name \<Rightarrow> ('f, 'm, 's) nte \<Rightarrow> bool) \<Rightarrow> ('f, 'm, 's) name_tree \<Rightarrow> name \<Rightarrow> name list" where
  "up_matches 0 sel nt n = []"
| "up_matches (Suc k) sel nt n =
     (case map_of nt n of
        None \<Rightarrow> []
      | Some e \<Rightarrow> (if sel n e then [n] else []) @
                  (case nte_parent e of None \<Rightarrow> [] | Some p \<Rightarrow> up_matches k sel nt p))"

definition findAllMatches ::
    "name \<Rightarrow> (name \<Rightarrow> ('f, 'm, 's) nte \<Rightarrow> bool) \<Rightarrow> ('f, 'm, 's) name_tree \<Rightarrow> name list" where
  "findAllMatches n sel nt =
     (case findLongestPrefixMatch n sel nt of
        None \<Rightarrow> []
      | Some m \<Rightarrow> up_matches (Suc (length m)) sel nt m)"

definition fullEnumerate :: "(name \<Rightarrow> ('f, 'm, 's) nte \<Rightarrow> bool) \<Rightarrow> ('f, 'm, 's) name_tree \<Rightarrow> name list" where
  "fullEnumerate sel nt = map fst (filter (\<lambda>(n, e). sel n e) nt)"

text \<open>
  Pre-order traversal of a subtree; the selector says whether to visit an entry and whether to
  descend.  The depth limit bounds the recursion.
\<close>

fun subtree_enumerate ::
    "nat \<Rightarrow> (name \<Rightarrow> ('f, 'm, 's) nte \<Rightarrow> bool \<times> bool) \<Rightarrow> ('f, 'm, 's) name_tree \<Rightarrow> name \<Rightarrow> name list" where
  "subtree_enumerate 0 pred nt n = []"
| "subtree_enumerate (Suc k) pred nt n =
     (case map_of nt n of
        None \<Rightarrow> []
      | Some e \<Rightarrow>
          (let (wantSelf, wantChildren) = pred n e
           in (if wantSelf then [n] else []) @
              (if wantChildren then concat (map (subtree_enumerate k pred nt) (nte_children e)) else [])))"

definition partialEnumerate ::
    "name \<Rightarrow> (name \<Rightarrow> ('f, 'm, 's) nte \<Rightarrow> bool \<times> bool) \<Rightarrow> ('f, 'm, 's) name_tree \<Rightarrow> name list" where
  "partialEnumerate n pred nt =
     (case findExactMatch n (length n) nt of
        None \<Rightarrow> []
      | Some m \<Rightarrow> subtree_enumerate (Suc getMaxDepth) pred nt m)"

section \<open>The invariant of the tree\<close>

text \<open>
  Every entry is within the depth limit; an entry other than the root is attached to the entry
  of its name without the last component; the children of an entry are exactly the entries one
  component longer, each once.
\<close>

definition nt_inv :: "('f, 'm, 's) name_tree \<Rightarrow> bool" where
  "nt_inv nt \<longleftrightarrow>
     distinct (map fst nt) \<and>
     (\<forall>n e. map_of nt n = Some e \<longrightarrow>
        length n \<le> getMaxDepth \<and>
        nte_parent e = (if n = [] then None else Some (butlast n)) \<and>
        (n \<noteq> [] \<longrightarrow> map_of nt (butlast n) \<noteq> None) \<and>
        distinct (nte_children e) \<and>
        (\<forall>c. c \<in> set (nte_children e) \<longleftrightarrow> c \<noteq> [] \<and> butlast c = n \<and> map_of nt c \<noteq> None))"

lemma nt_invI:
  assumes "distinct (map fst nt)"
    and "\<And>n e. map_of nt n = Some e \<Longrightarrow> length n \<le> getMaxDepth"
    and "\<And>n e. map_of nt n = Some e \<Longrightarrow> nte_parent e = (if n = [] then None else Some (butlast n))"
    and "\<And>n e. map_of nt n = Some e \<Longrightarrow> n \<noteq> [] \<Longrightarrow> map_of nt (butlast n) \<noteq> None"
    and "\<And>n e. map_of nt n = Some e \<Longrightarrow> distinct (nte_children e)"
    and "\<And>n e c. map_of nt n = Some e \<Longrightarrow>
           c \<in> set (nte_children e) \<longleftrightarrow> c \<noteq> [] \<and> butlast c = n \<and> map_of nt c \<noteq> None"
  shows "nt_inv nt"
  using assms unfolding nt_inv_def by blast

lemma nt_invD:
  assumes "nt_inv nt"
  shows "distinct (map fst nt)"
    and "map_of nt n = Some e \<Longrightarrow> length n \<le> getMaxDepth"
    and "map_of nt n = Some e \<Longrightarrow> nte_parent e = (if n = [] then None else Some (butlast n))"
    and "map_of nt n = Some e \<Longrightarrow> n \<noteq> [] \<Longrightarrow> \<exists>e'. map_of nt (butlast n) = Some e'"
    and "map_of nt n = Some e \<Longrightarrow> distinct (nte_children e)"
    and "map_of nt n = Some e \<Longrightarrow>
           c \<in> set (nte_children e) \<longleftrightarrow> c \<noteq> [] \<and> butlast c = n \<and> map_of nt c \<noteq> None"
  using assms unfolding nt_inv_def by blast+

lemma nt_inv_empty: "nt_inv []"
  by (simp add: nt_inv_def)

lemma map_of_nt_modify [nt_simps]:
  "map_of (nt_modify f n nt) m = (if m = n then map_option f (map_of nt n) else map_of nt m)"
  by (auto simp: nt_modify_def split: option.splits)

lemma distinct_fst_update: "distinct (map fst al) \<Longrightarrow> distinct (map fst (AList.update k v al))"
  by (rule distinct_update)

lemma distinct_fst_nt_modify: "distinct (map fst nt) \<Longrightarrow> distinct (map fst (nt_modify f n nt))"
  by (auto simp: nt_modify_def distinct_fst_update split: option.splits)

text \<open>A change to the table entries of one tree entry keeps the invariant.\<close>

lemma nt_inv_modify:
  assumes "nt_inv nt" "\<And>e. nte_parent (f e) = nte_parent e" "\<And>e. nte_children (f e) = nte_children e"
  shows "nt_inv (nt_modify f n nt)"
proof (rule nt_invI)
  note I = nt_invD [OF assms(1)]
  show "distinct (map fst (nt_modify f n nt))" using I(1) by (rule distinct_fst_nt_modify)
  fix m e assume m: "map_of (nt_modify f n nt) m = Some e"
  then obtain e' where e': "map_of nt m = Some e'" "nte_parent e = nte_parent e'"
    "nte_children e = nte_children e'"
    using assms(2,3) by (auto simp: nt_simps split: if_splits)
  show "length m \<le> getMaxDepth" "distinct (nte_children e)"
    "nte_parent e = (if m = [] then None else Some (butlast m))"
    using I(2,3,5) [OF e'(1)] e' by auto
  show "map_of (nt_modify f n nt) (butlast m) \<noteq> None" if "m \<noteq> []"
    using I(4) [OF e'(1) that] by (auto simp: nt_simps)
  show "c \<in> set (nte_children e) \<longleftrightarrow> c \<noteq> [] \<and> butlast c = m \<and> map_of (nt_modify f n nt) c \<noteq> None" for c
    using I(6) [OF e'(1), of c] e'(3) by (auto simp: nt_simps)
qed

lemmas nt_inv_set =
  nt_inv_modify [where f = "\<lambda>e. e\<lparr>nte_fib := x\<rparr>" for x, simplified, folded setFibEntry_def]
  nt_inv_modify [where f = "\<lambda>e. e\<lparr>nte_meas := x\<rparr>" for x, simplified, folded setMeasurementsEntry_def]
  nt_inv_modify [where f = "\<lambda>e. e\<lparr>nte_sc := x\<rparr>" for x, simplified, folded setStrategyChoiceEntry_def]
  nt_inv_modify [where f = "\<lambda>e. e\<lparr>nte_pit := nte_pit e @ [r]\<rparr>" for r, simplified, folded insertPitEntry_def]
  nt_inv_modify [where f = "\<lambda>e. e\<lparr>nte_pit := swap_with_back r (nte_pit e)\<rparr>" for r, simplified, folded erasePitEntry_def]

text \<open>What the tables hold at a name, whether or not the tree has an entry for it.\<close>

definition nte_content :: "('f, 'm, 's) nte \<Rightarrow> 'f option \<times> pit_ref list \<times> 'm option \<times> 's option" where
  "nte_content e = (nte_fib e, nte_pit e, nte_meas e, nte_sc e)"

definition nt_content ::
    "('f, 'm, 's) name_tree \<Rightarrow> name \<Rightarrow> 'f option \<times> pit_ref list \<times> 'm option \<times> 's option" where
  "nt_content nt n = (case map_of nt n of None \<Rightarrow> (None, [], None, None) | Some e \<Rightarrow> nte_content e)"

definition fib_at :: "('f, 'm, 's) name_tree \<Rightarrow> name \<Rightarrow> 'f option" where
  "fib_at nt n = fst (nt_content nt n)"

definition pit_at :: "('f, 'm, 's) name_tree \<Rightarrow> name \<Rightarrow> pit_ref list" where
  "pit_at nt n = fst (snd (nt_content nt n))"

definition meas_at :: "('f, 'm, 's) name_tree \<Rightarrow> name \<Rightarrow> 'm option" where
  "meas_at nt n = fst (snd (snd (nt_content nt n)))"

definition sc_at :: "('f, 'm, 's) name_tree \<Rightarrow> name \<Rightarrow> 's option" where
  "sc_at nt n = snd (snd (snd (nt_content nt n)))"

lemmas at_defs = fib_at_def pit_at_def meas_at_def sc_at_def

lemma hasTableEntries_content: "hasTableEntries e \<longleftrightarrow> nte_content e \<noteq> (None, [], None, None)"
  by (auto simp: hasTableEntries_def nte_content_def)

lemma new_nte_simps [simp]:
  "nte_parent new_nte = None" "nte_children new_nte = []" "nte_content new_nte = (None, [], None, None)"
  "nte_fib new_nte = None" "nte_pit new_nte = []" "nte_meas new_nte = None" "nte_sc new_nte = None"
  by (simp_all add: new_nte_def nte_content_def)

lemma at_Some [simp]:
  "map_of nt n = Some e \<Longrightarrow> fib_at nt n = nte_fib e"
  "map_of nt n = Some e \<Longrightarrow> pit_at nt n = nte_pit e"
  "map_of nt n = Some e \<Longrightarrow> meas_at nt n = nte_meas e"
  "map_of nt n = Some e \<Longrightarrow> sc_at nt n = nte_sc e"
  by (simp_all add: at_defs nt_content_def nte_content_def)

lemma at_None [simp]:
  "map_of nt n = None \<Longrightarrow> fib_at nt n = None"
  "map_of nt n = None \<Longrightarrow> pit_at nt n = []"
  "map_of nt n = None \<Longrightarrow> meas_at nt n = None"
  "map_of nt n = None \<Longrightarrow> sc_at nt n = None"
  by (simp_all add: at_defs nt_content_def)

lemma at_cong:
  assumes "nt_content nt = nt_content nt'"
  shows "fib_at nt = fib_at nt'" "pit_at nt = pit_at nt'" "meas_at nt = meas_at nt'" "sc_at nt = sc_at nt'"
  using assms by (simp_all add: at_defs fun_eq_iff)

lemma nt_content_modify [nt_simps]:
  "nt_content (nt_modify f n nt) m =
     (if m = n then (case map_of nt n of None \<Rightarrow> (None, [], None, None) | Some e \<Rightarrow> nte_content (f e))
      else nt_content nt m)"
  by (auto simp: nt_content_def nt_simps split: option.splits)

lemma at_set [nt_simps]:
  "map_of nt n \<noteq> None \<Longrightarrow> fib_at (setFibEntry x n nt) = (fib_at nt)(n := x)"
  "map_of nt n \<noteq> None \<Longrightarrow> meas_at (setMeasurementsEntry y n nt) = (meas_at nt)(n := y)"
  "map_of nt n \<noteq> None \<Longrightarrow> sc_at (setStrategyChoiceEntry z n nt) = (sc_at nt)(n := z)"
  "map_of nt n \<noteq> None \<Longrightarrow> pit_at (insertPitEntry r n nt) = (pit_at nt)(n := pit_at nt n @ [r])"
  "map_of nt n \<noteq> None \<Longrightarrow> pit_at (erasePitEntry r n nt) = (pit_at nt)(n := swap_with_back r (pit_at nt n))"
  by (auto simp: setFibEntry_def setMeasurementsEntry_def setStrategyChoiceEntry_def insertPitEntry_def
      erasePitEntry_def at_defs nt_content_def map_of_nt_modify nte_content_def fun_eq_iff split: option.splits)

lemma at_set_other [nt_simps]:
  "pit_at (setFibEntry x n nt) = pit_at nt" "meas_at (setFibEntry x n nt) = meas_at nt"
  "sc_at (setFibEntry x n nt) = sc_at nt"
  "fib_at (setMeasurementsEntry y n nt) = fib_at nt" "pit_at (setMeasurementsEntry y n nt) = pit_at nt"
  "sc_at (setMeasurementsEntry y n nt) = sc_at nt"
  "fib_at (setStrategyChoiceEntry z n nt) = fib_at nt" "pit_at (setStrategyChoiceEntry z n nt) = pit_at nt"
  "meas_at (setStrategyChoiceEntry z n nt) = meas_at nt"
  "fib_at (insertPitEntry r n nt) = fib_at nt" "meas_at (insertPitEntry r n nt) = meas_at nt"
  "sc_at (insertPitEntry r n nt) = sc_at nt"
  "fib_at (erasePitEntry r n nt) = fib_at nt" "meas_at (erasePitEntry r n nt) = meas_at nt"
  "sc_at (erasePitEntry r n nt) = sc_at nt"
  by (auto simp: setFibEntry_def setMeasurementsEntry_def setStrategyChoiceEntry_def insertPitEntry_def
      erasePitEntry_def at_defs nt_content_def map_of_nt_modify nte_content_def fun_eq_iff split: option.splits)

section \<open>Lookup\<close>

lemma nt_inv_prefix_closed:
  assumes "nt_inv nt" "map_of nt (take k n) \<noteq> None" "j \<le> k" "k \<le> length n"
  shows "map_of nt (take j n) \<noteq> None"
  using assms(3,2,4)
proof (induction rule: inc_induct)
  case (step i)
  then have "map_of nt (take (Suc i) n) \<noteq> None" "take (Suc i) n \<noteq> []" by auto
  then have "map_of nt (butlast (take (Suc i) n)) \<noteq> None"
    using nt_invD(4) [OF assms(1)] by blast
  with step show ?case by (simp add: butlast_take)
qed simp

lemma nt_inv_root: "nt_inv nt \<Longrightarrow> map_of nt n \<noteq> None \<Longrightarrow> map_of nt [] \<noteq> None"
  using nt_inv_prefix_closed [of nt "length n" n 0] by simp

lemma nt_inv_add_root:
  assumes "nt_inv nt" "map_of nt [] = None"
  shows "nt_inv (AList.update [] new_nte nt)"
proof -
  have "map_of nt n = None" for n
    using nt_inv_root [OF assms(1), of n] assms(2) by blast
  then show ?thesis
    using nt_invD(1) [OF assms(1)] by (auto simp: nt_inv_def distinct_fst_update)
qed

lemma map_of_add_child:
  assumes "map_of nt p = None" "p \<noteq> []"
  shows "map_of (setParent p (butlast p) (AList.update p new_nte nt)) m =
    (if m = p then Some (new_nte\<lparr>nte_parent := Some (butlast p)\<rparr>)
     else if m = butlast p then map_option (\<lambda>e. e\<lparr>nte_children := nte_children e @ [p]\<rparr>) (map_of nt m)
     else map_of nt m)"
proof -
  have "butlast p \<noteq> p" using assms(2) by (metis append_butlast_last_id not_Cons_self2 append_self_conv)
  then show ?thesis by (auto simp: setParent_def nt_simps)
qed

lemma nt_inv_add_child:
  assumes "nt_inv nt" "map_of nt p = None" "p \<noteq> []" "map_of nt (butlast p) \<noteq> None" "length p \<le> getMaxDepth"
  shows "nt_inv (setParent p (butlast p) (AList.update p new_nte nt))" (is "nt_inv ?t")
proof (rule nt_invI)
  note I = nt_invD [OF assms(1)]
  have neq: "butlast p \<noteq> p" using assms(3) by (metis append_butlast_last_id not_Cons_self2 append_self_conv)
  have fresh: "butlast c \<noteq> p" if "map_of nt c \<noteq> None" "c \<noteq> []" for c
    using that I(4) assms(2) by force
  note m = map_of_add_child [OF assms(2,3)]
  show "distinct (map fst ?t)"
    using I(1) by (simp add: setParent_def distinct_fst_nt_modify distinct_fst_update)
  fix n e assume n: "map_of ?t n = Some e"
  show "length n \<le> getMaxDepth" "nte_parent e = (if n = [] then None else Some (butlast n))"
    using n I(2,3) assms(3,5) by (auto simp: m split: if_splits)
  show "map_of ?t (butlast n) \<noteq> None" if "n \<noteq> []"
    using n I(4) [of n] assms(4) that by (fastforce simp: m split: if_splits)
  have kids: "n \<noteq> p \<Longrightarrow> \<exists>e'. map_of nt n = Some e' \<and>
      nte_children e = nte_children e' @ (if n = butlast p then [p] else [])"
    using n by (auto simp: m split: if_splits)
  show "distinct (nte_children e)"
  proof (cases "n = p")
    case True
    then show ?thesis using n by (auto simp: m)
  next
    case False
    then obtain e' where e': "map_of nt n = Some e'"
      "nte_children e = nte_children e' @ (if n = butlast p then [p] else [])" using kids by auto
    then show ?thesis using I(5) [OF e'(1)] I(6) [OF e'(1), of p] assms(2) by auto
  qed
  show "c \<in> set (nte_children e) \<longleftrightarrow> c \<noteq> [] \<and> butlast c = n \<and> map_of ?t c \<noteq> None" for c
  proof (cases "n = p")
    case True
    then have "nte_children e = []" using n by (auto simp: m)
    moreover have "c \<noteq> [] \<Longrightarrow> butlast c = p \<Longrightarrow> map_of ?t c = None"
      using fresh [of c] neq by (cases "map_of nt c") (auto simp: m)
    ultimately show ?thesis unfolding True by (metis empty_iff empty_set)
  next
    case False
    then obtain e' where e': "map_of nt n = Some e'"
      "nte_children e = nte_children e' @ (if n = butlast p then [p] else [])" using kids by auto
    then show ?thesis using I(6) [OF e'(1), of c] assms(2,3) by (auto simp: m)
  qed
qed

lemma nt_index_insert_new:
  "map_of nt p = None \<Longrightarrow> nt_index_insert p nt = (AList.update p new_nte nt, True)"
  "map_of nt p \<noteq> None \<Longrightarrow> nt_index_insert p nt = (nt, False)"
  by (auto simp: nt_index_insert_def)

text \<open>The state of the lookup loop after prefix length \<open>i\<close> has been handled.\<close>

definition lookup_done :: "('f, 'm, 's) name_tree \<Rightarrow> name \<Rightarrow> nat \<Rightarrow> ('f, 'm, 's) name_tree \<Rightarrow> bool" where
  "lookup_done nt0 n i nt \<longleftrightarrow>
     nt_inv nt \<and> nt_content nt = nt_content nt0 \<and>
     (\<forall>m. map_of nt m \<noteq> None \<longleftrightarrow> map_of nt0 m \<noteq> None \<or> (\<exists>j \<le> i. m = take j n))"

lemma nt_content_add_root:
  "map_of nt [] = None \<Longrightarrow> nt_content (AList.update [] new_nte nt) = nt_content nt"
  by (auto simp: nt_content_def fun_eq_iff split: option.splits)

lemma nt_content_add_child:
  "map_of nt p = None \<Longrightarrow> p \<noteq> [] \<Longrightarrow>
     nt_content (setParent p (butlast p) (AList.update p new_nte nt)) = nt_content nt"
  by (auto simp: nt_content_def map_of_add_child nte_content_def fun_eq_iff split: option.splits)

lemma lookup_step_0:
  assumes "nt_inv nt"
  shows "\<exists>nt'. lookup_step n 0 (nt, None) = (nt', Some (take 0 n)) \<and> lookup_done nt n 0 nt'"
proof (cases "map_of nt []")
  case None
  then show ?thesis
    using nt_inv_add_root [OF assms None] nt_content_add_root [OF None]
    by (auto simp: lookup_step_def Let_def nt_index_insert_def lookup_done_def)
next
  case (Some e)
  then show ?thesis using assms
    by (auto simp: lookup_step_def Let_def nt_index_insert_def lookup_done_def)
qed

lemma lookup_step_Suc:
  assumes "lookup_done nt0 n i nt" "Suc i \<le> length n" "Suc i \<le> getMaxDepth"
  shows "\<exists>nt'. lookup_step n (Suc i) (nt, Some (take i n)) = (nt', Some (take (Suc i) n)) \<and>
    lookup_done nt0 n (Suc i) nt'"
proof (cases "map_of nt (take (Suc i) n)")
  case None
  let ?p = "take (Suc i) n"
  have inv: "nt_inv nt" and content: "nt_content nt = nt_content nt0"
    and dom: "\<And>m. map_of nt m \<noteq> None \<longleftrightarrow> map_of nt0 m \<noteq> None \<or> (\<exists>j \<le> i. m = take j n)"
    using assms(1) unfolding lookup_done_def by blast+
  have p: "?p \<noteq> []" "butlast ?p = take i n" "length ?p \<le> getMaxDepth"
    using assms(2,3) by (auto simp: butlast_take)
  have parent: "map_of nt (butlast ?p) \<noteq> None" using dom p(2) by auto
  have step: "lookup_step n (Suc i) (nt, Some (take i n)) =
      (setParent ?p (butlast ?p) (AList.update ?p new_nte nt), Some ?p)"
    using None p(2) by (simp add: lookup_step_def nt_index_insert_new Let_def)
  have "map_of (setParent ?p (butlast ?p) (AList.update ?p new_nte nt)) m \<noteq> None \<longleftrightarrow>
      map_of nt m \<noteq> None \<or> m = ?p" for m
    using map_of_add_child [OF None p(1), of m] by auto
  then have "lookup_done nt0 n (Suc i) (setParent ?p (butlast ?p) (AList.update ?p new_nte nt))"
    using nt_inv_add_child [OF inv None p(1) parent p(3)] nt_content_add_child [OF None p(1)] content dom
    unfolding lookup_done_def le_Suc_eq by (metis (no_types, lifting))
  with step show ?thesis by blast
next
  case (Some e)
  then have "lookup_step n (Suc i) (nt, Some (take i n)) = (nt, Some (take (Suc i) n))"
    by (simp add: lookup_step_def nt_index_insert_new)
  moreover have "lookup_done nt0 n (Suc i) nt"
    using assms(1) Some unfolding lookup_done_def le_Suc_eq by (metis option.distinct(1))
  ultimately show ?thesis by blast
qed

lemma lookup_fold:
  assumes "nt_inv nt" "k \<le> length n" "k \<le> getMaxDepth"
  shows "\<exists>nt'. fold (lookup_step n) [0..<Suc k] (nt, None) = (nt', Some (take k n)) \<and> lookup_done nt n k nt'"
  using assms(2,3)
proof (induction k)
  case 0
  then show ?case using lookup_step_0 [OF assms(1), of n] by simp
next
  case (Suc k)
  then obtain nt' where "fold (lookup_step n) [0..<Suc k] (nt, None) = (nt', Some (take k n))"
    "lookup_done nt n k nt'" by auto
  with lookup_step_Suc [of nt n k nt'] Suc.prems show ?case by simp
qed

lemma nt_lookup_Inr:
  assumes "nt_inv nt" "k \<le> length n" "k \<le> getMaxDepth"
  obtains nt' where "nt_lookup n k nt = Inr nt'" "nt_inv nt'" "nt_content nt' = nt_content nt"
    "\<And>m. map_of nt' m \<noteq> None \<longleftrightarrow> map_of nt m \<noteq> None \<or> (\<exists>j \<le> k. m = take j n)"
  using lookup_fold [OF assms] assms(2,3) unfolding lookup_done_def nt_lookup_def
  by (auto simp del: upt_Suc)

section \<open>Erasing empty entries\<close>

definition nt_detach :: "name \<Rightarrow> ('f, 'm, 's) nte \<Rightarrow> ('f, 'm, 's) name_tree \<Rightarrow> ('f, 'm, 's) name_tree" where
  "nt_detach n e nt =
     AList.delete n (case nte_parent e of Some p \<Rightarrow> unsetParent n p nt | None \<Rightarrow> nt)"

lemma butlast_neq: "n \<noteq> [] \<Longrightarrow> butlast n \<noteq> n"
  by (metis append_butlast_last_id not_Cons_self2 append_self_conv)

lemma map_of_nt_detach:
  assumes "nt_inv nt" "map_of nt n = Some e"
  shows "map_of (nt_detach n e nt) m =
    (if m = n then None
     else if n \<noteq> [] \<and> m = butlast n
     then map_option (\<lambda>e. e\<lparr>nte_children := remove1 n (nte_children e)\<rparr>) (map_of nt m)
     else map_of nt m)"
  using nt_invD(3) [OF assms] butlast_neq [of n]
  by (auto simp: nt_detach_def unsetParent_def nt_simps)

lemma nt_inv_detach:
  assumes "nt_inv nt" "map_of nt n = Some e" "nte_children e = []"
  shows "nt_inv (nt_detach n e nt)" (is "nt_inv ?t")
proof (rule nt_invI)
  note I = nt_invD [OF assms(1)] and m = map_of_nt_detach [OF assms(1,2)]
  have leaf: "butlast c \<noteq> n" if "map_of nt c \<noteq> None" "c \<noteq> []" for c
    using I(6) [OF assms(2), of c] assms(3) that by auto
  show "distinct (map fst ?t)"
    using I(1) by (auto simp: nt_detach_def unsetParent_def distinct_fst_nt_modify distinct_delete
        split: option.splits)
  fix k x assume k: "map_of ?t k = Some x"
  then have "k \<noteq> n" by (auto simp: m)
  with k obtain y where y: "map_of nt k = Some y" "nte_parent x = nte_parent y"
    "nte_children x = (if n \<noteq> [] \<and> k = butlast n then remove1 n (nte_children y) else nte_children y)"
    by (auto simp: m split: if_splits)
  show "length k \<le> getMaxDepth" "nte_parent x = (if k = [] then None else Some (butlast k))"
    using I(2,3) [OF y(1)] y(2) by auto
  show "distinct (nte_children x)" using I(5) [OF y(1)] y(3) by auto
  show "map_of ?t (butlast k) \<noteq> None" if "k \<noteq> []"
    using I(4) [OF y(1) that] leaf [of k] that y(1) by (auto simp: m)
  show "c \<in> set (nte_children x) \<longleftrightarrow> c \<noteq> [] \<and> butlast c = k \<and> map_of ?t c \<noteq> None" for c
    using I(5) [OF y(1)] I(6) [OF y(1), of c] y(3) by (auto simp: m)
qed

lemma nt_content_detach:
  assumes "nt_inv nt" "map_of nt n = Some e" "isEmpty_nte e"
  shows "nt_content (nt_detach n e nt) = nt_content nt"
  using assms(3)
  by (auto simp: nt_content_def fun_eq_iff map_of_nt_detach [OF assms(1,2)] assms(2) isEmpty_nte_def
      hasTableEntries_content nte_content_def split: option.splits)

lemma eraseIfEmpty_unfold:
  "eraseIfEmpty n anc nt =
     (case map_of nt n of
        None \<Rightarrow> (nt, 0)
      | Some e \<Rightarrow> if \<not> isEmpty_nte e then (nt, 0)
                  else case nte_parent e of
                    Some p \<Rightarrow> if anc then (let (nt3, k) = eraseIfEmpty p anc (nt_detach n e nt) in (nt3, Suc k))
                              else (nt_detach n e nt, 1)
                  | None \<Rightarrow> (nt_detach n e nt, 1))"
  by (subst eraseIfEmpty.simps) (auto simp: nt_detach_def Let_def split: option.splits)

text \<open>Induction over the loop of \<open>eraseIfEmpty\<close>: a property kept by detaching one empty entry.\<close>

lemma eraseIfEmpty_induct_step:
  assumes "P nt" "nt_inv nt" "eraseIfEmpty n anc nt = (nt', k)"
    and "\<And>nt n e. P nt \<Longrightarrow> nt_inv nt \<Longrightarrow> map_of nt n = Some e \<Longrightarrow> isEmpty_nte e \<Longrightarrow> P (nt_detach n e nt)"
  shows "P nt' \<and> nt_inv nt'"
  using assms(1-3)
proof (induction "length nt" arbitrary: nt n nt' k rule: less_induct)
  case less
  show ?case
  proof (cases "map_of nt n")
    case None
    with less show ?thesis by (simp add: eraseIfEmpty_unfold)
  next
    case (Some e)
    show ?thesis
    proof (cases "isEmpty_nte e")
      case True
      then have D: "P (nt_detach n e nt)" "nt_inv (nt_detach n e nt)"
        using assms(4) less.prems Some by (auto intro: nt_inv_detach simp: isEmpty_nte_def)
      have "length (nt_detach n e nt) < length nt"
        using length_delete_unsetParent [OF Some] length_delete_less [OF map_of_SomeD_fst [OF Some]]
        by (auto simp: nt_detach_def split: option.splits)
      with D less Some True show ?thesis
        by (subst (asm) eraseIfEmpty_unfold) (auto split: option.splits if_splits prod.splits)
    next
      case False
      with Some less show ?thesis by (simp add: eraseIfEmpty_unfold)
    qed
  qed
qed

lemma eraseIfEmpty_content:
  assumes "nt_inv nt" "eraseIfEmpty n anc nt = (nt', k)"
  shows "nt_inv nt'" "nt_content nt' = nt_content nt"
proof -
  have "nt_content nt' = nt_content nt \<and> nt_inv nt'"
    by (rule eraseIfEmpty_induct_step [where P = "\<lambda>t. nt_content t = nt_content nt", OF refl assms])
      (simp add: nt_content_detach)
  then show "nt_inv nt'" "nt_content nt' = nt_content nt" by auto
qed

lemma eraseIfEmpty_dom:
  assumes "nt_inv nt" "eraseIfEmpty n anc nt = (nt', k)" "map_of nt' m \<noteq> None"
  shows "map_of nt m \<noteq> None"
proof -
  have "(\<forall>m. map_of nt' m \<noteq> None \<longrightarrow> map_of nt m \<noteq> None) \<and> nt_inv nt'"
  proof (rule eraseIfEmpty_induct_step [OF _ assms(1,2)])
    fix t n e assume *: "\<forall>m. map_of t m \<noteq> None \<longrightarrow> map_of nt m \<noteq> None" "nt_inv t" "map_of t n = Some e"
    show "\<forall>m. map_of (nt_detach n e t) m \<noteq> None \<longrightarrow> map_of nt m \<noteq> None"
      using *(1) by (auto simp: map_of_nt_detach [OF *(2,3)] split: if_splits)
  qed simp
  with assms(3) show ?thesis by blast
qed

text \<open>No garbage: when only one entry may be empty, erasing from it leaves no empty entry.\<close>

definition nt_tight :: "('f, 'm, 's) name_tree \<Rightarrow> bool" where
  "nt_tight nt \<longleftrightarrow> (\<forall>n e. map_of nt n = Some e \<longrightarrow> \<not> isEmpty_nte e)"

lemma eraseIfEmpty_tight:
  assumes "nt_inv nt" "\<And>m e. m \<noteq> n \<Longrightarrow> map_of nt m = Some e \<Longrightarrow> \<not> isEmpty_nte e"
    and "eraseIfEmpty n True nt = (nt', k)"
  shows "nt_tight nt'"
  using assms
proof (induction "length nt" arbitrary: nt n nt' k rule: less_induct)
  case less
  show ?case
  proof (cases "map_of nt n")
    case None
    then have "nt' = nt" using less.prems(3) by (simp add: eraseIfEmpty_unfold)
    with None less.prems(2) show ?thesis unfolding nt_tight_def by (metis option.distinct(1))
  next
    case (Some e)
    show ?thesis
    proof (cases "isEmpty_nte e")
      case True
      note m = map_of_nt_detach [OF less.prems(1) Some]
      have inv: "nt_inv (nt_detach n e nt)"
        using less.prems(1) Some True by (auto intro: nt_inv_detach simp: isEmpty_nte_def)
      have len: "length (nt_detach n e nt) < length nt"
        using length_delete_unsetParent [OF Some] length_delete_less [OF map_of_SomeD_fst [OF Some]]
        by (auto simp: nt_detach_def split: option.splits)
      show ?thesis
      proof (cases "n = []")
        case True
        then have "nt_tight (nt_detach n e nt)"
          unfolding nt_tight_def m using less.prems(2) by (metis option.distinct(1))
        with True less.prems nt_invD(3) [OF less.prems(1) Some] Some \<open>isEmpty_nte e\<close> show ?thesis
          by (simp add: eraseIfEmpty_unfold)
      next
        case False
        then have "nte_parent e = Some (butlast n)" using nt_invD(3) [OF less.prems(1) Some] by simp
        then obtain k' where "eraseIfEmpty (butlast n) True (nt_detach n e nt) = (nt', k')"
          using less.prems(3) Some \<open>isEmpty_nte e\<close>
          by (subst (asm) eraseIfEmpty_unfold) (auto split: prod.splits)
        moreover have "\<not> isEmpty_nte x" if "m' \<noteq> butlast n" "map_of (nt_detach n e nt) m' = Some x" for m' x
          using that less.prems(2) by (auto simp: m split: if_splits)
        ultimately show ?thesis using less.hyps [OF len inv] by blast
      qed
    next
      case False
      then have "nt' = nt" using less.prems(3) Some by (simp add: eraseIfEmpty_unfold)
      with False Some less.prems(2) show ?thesis unfolding nt_tight_def by (metis option.inject)
    qed
  qed
qed

section \<open>Longest prefix match\<close>

text \<open>
  The candidates of a name are its prefixes within the depth limit, longest first.  All the
  overloads of longest prefix match find the first candidate that the selector accepts.
\<close>

definition prefixes_down :: "nat \<Rightarrow> name \<Rightarrow> name list" where
  "prefixes_down k n = map (\<lambda>i. take i n) (rev [0..<Suc k])"

definition candidates :: "name \<Rightarrow> name list" where
  "candidates n = prefixes_down (min (length n) getMaxDepth) n"

definition hit :: "(name \<Rightarrow> 'e option) \<Rightarrow> (name \<Rightarrow> 'e \<Rightarrow> bool) \<Rightarrow> name \<Rightarrow> bool" where
  "hit look sel p = (case look p of None \<Rightarrow> False | Some e \<Rightarrow> sel p e)"

lemma prefixes_down_0 [simp]: "prefixes_down 0 n = [[]]"
  by (simp add: prefixes_down_def)

lemma prefixes_down_Suc [simp]: "prefixes_down (Suc k) n = take (Suc k) n # prefixes_down k n"
  by (simp add: prefixes_down_def)

lemma prefixes_down_snoc [simp]:
  "k \<le> length n \<Longrightarrow> prefixes_down k (n @ m) = prefixes_down k n"
  by (auto simp: prefixes_down_def)

lemma set_prefixes_down: "k \<le> length n \<Longrightarrow> set (prefixes_down k n) = {p. prefix p n \<and> length p \<le> k}"
proof (intro equalityI subsetI)
  fix p assume "k \<le> length n" "p \<in> {p. prefix p n \<and> length p \<le> k}"
  then have "p = take (length p) n" "length p \<in> set [0..<Suc k]"
    by (auto simp: prefix_def)
  then show "p \<in> set (prefixes_down k n)" unfolding prefixes_down_def set_map set_rev by (rule image_eqI)
qed (auto simp: prefixes_down_def take_is_prefix)

lemma lpm_down_find: "lpm_down look sel n k = find (hit look sel) (prefixes_down k n)"
  by (induction k) (auto simp: hit_def split: option.splits)

lemma findLongestPrefixMatch_find:
  "findLongestPrefixMatch n sel nt = find (hit (map_of nt) sel) (candidates n)"
  by (simp add: findLongestPrefixMatch_def lpm_down_find candidates_def)

lemma up_find:
  assumes "nt_inv nt" "map_of nt n \<noteq> None"
  shows "lpm_up (Suc (length n)) sel nt n = find (hit (map_of nt) sel) (prefixes_down (length n) n)"
    and "up_matches (Suc (length n)) sel nt n = filter (hit (map_of nt) sel) (prefixes_down (length n) n)"
  using assms(2)
proof (induction n rule: rev_induct)
  case Nil
  case 1
  then show ?case using nt_invD(3) [OF assms(1), of "[]"] by (auto simp: hit_def split: option.splits)
  case 2
  then show ?case using nt_invD(3) [OF assms(1), of "[]"] by (auto simp: hit_def split: option.splits)
next
  case (snoc c n)
  have parent: "\<exists>e. map_of nt (n @ [c]) = Some e \<and> nte_parent e = Some n \<and> map_of nt n \<noteq> None"
    if "map_of nt (n @ [c]) \<noteq> None"
    using that nt_invD(3,4) [OF assms(1), of "n @ [c]"] by fastforce
  case 1
  then show ?case using snoc.IH(1) parent by (auto simp: hit_def)
  case 2
  then show ?case using snoc.IH(2) parent by (auto simp: hit_def)
qed

lemma findLongestPrefixMatch_entry_find:
  assumes "nt_inv nt" "map_of nt n \<noteq> None"
  shows "findLongestPrefixMatch_entry n sel nt = findLongestPrefixMatch n sel nt"
proof -
  have "length n \<le> getMaxDepth" using nt_invD(2) [OF assms(1)] assms(2) by auto
  then show ?thesis
    using up_find(1) [OF assms, of sel]
    by (simp add: findLongestPrefixMatch_entry_def findLongestPrefixMatch_find candidates_def del: lpm_up.simps)
qed

lemma find_filter_suffix:
  "(\<And>x. x \<in> set xs \<Longrightarrow> \<not> P x) \<Longrightarrow> find P (xs @ ys) = find P ys"
  by (induction xs) auto

lemma prefixes_down_append:
  "k \<le> j \<Longrightarrow> prefixes_down j n = map (\<lambda>i. take i n) (rev [Suc k..<Suc j]) @ prefixes_down k n"
  by (induction rule: dec_induct) simp_all

lemma findExactMatch_take:
  "i \<le> length n \<Longrightarrow> i \<le> getMaxDepth \<Longrightarrow>
     findExactMatch n i nt = (if map_of nt (take i n) = None then None else Some (take i n))"
  by (auto simp: findExactMatch_def Let_def min_def split: option.splits)

lemma findExactMatch_iff:
  "nt_inv nt \<Longrightarrow> findExactMatch n (length n) nt = (if map_of nt n = None then None else Some n)"
  using nt_invD(2) [of nt n] by (auto simp: findExactMatch_def Let_def not_less split: option.splits)

lemma go_deeper_deepest:
  assumes "nt_inv nt" "i \<le> depth" "depth \<le> length n" "depth \<le> getMaxDepth" "map_of nt (take i n) \<noteq> None"
  shows "\<exists>j. i \<le> j \<and> j \<le> depth \<and> go_deeper n [i + 1..<depth + 1] nt (take i n) = take j n \<and>
    map_of nt (take j n) \<noteq> None \<and> (\<forall>l. j < l \<and> l \<le> depth \<longrightarrow> map_of nt (take l n) = None)"
  using assms(2,5)
proof (induction i rule: inc_induct)
  case base
  then show ?case by auto
next
  case (step i)
  have upt: "[i + 1..<depth + 1] = Suc i # [Suc i + 1..<depth + 1]"
    using step.hyps by (simp add: upt_conv_Cons)
  have ex: "findExactMatch n (Suc i) nt =
      (if map_of nt (take (Suc i) n) = None then None else Some (take (Suc i) n))"
    using step.hyps assms(3,4) by (intro findExactMatch_take) auto
  show ?case
  proof (cases "map_of nt (take (Suc i) n) = None")
    case True
    have "map_of nt (take l n) = None" if "i < l" "l \<le> depth" for l
      using nt_inv_prefix_closed [OF assms(1), of l n "Suc i"] True that assms(3)
      by (metis Suc_leI le_trans)
    then show ?thesis
      unfolding upt go_deeper.simps ex using True step by (intro exI [of _ i]) auto
  next
    case False
    with step.IH obtain j where "Suc i \<le> j" "j \<le> depth"
      "go_deeper n [Suc i + 1..<depth + 1] nt (take (Suc i) n) = take j n"
      "map_of nt (take j n) \<noteq> None" "\<forall>l. j < l \<and> l \<le> depth \<longrightarrow> map_of nt (take l n) = None" by auto
    then show ?thesis
      unfolding upt go_deeper.simps ex using False by (intro exI [of _ j]) auto
  qed
qed

lemma find_candidates_from:
  assumes "j \<le> min (length n) getMaxDepth"
    and "\<And>l. j < l \<Longrightarrow> l \<le> min (length n) getMaxDepth \<Longrightarrow> \<not> hit look sel (take l n)"
  shows "find (hit look sel) (candidates n) = find (hit look sel) (prefixes_down j n)"
    and "filter (hit look sel) (candidates n) = filter (hit look sel) (prefixes_down j n)"
proof -
  let ?l = "map (\<lambda>i. take i n) (rev [Suc j..<Suc (min (length n) getMaxDepth)])"
  have no: "\<not> hit look sel x" if "x \<in> set ?l" for x using that assms(2) by auto
  have eq: "candidates n = ?l @ prefixes_down j n"
    unfolding candidates_def by (rule prefixes_down_append [OF assms(1)])
  show "find (hit look sel) (candidates n) = find (hit look sel) (prefixes_down j n)"
    unfolding eq by (rule find_filter_suffix) (rule no)
  have "filter (hit look sel) ?l = []" unfolding filter_empty_conv using no by blast
  then show "filter (hit look sel) (candidates n) = filter (hit look sel) (prefixes_down j n)"
    unfolding eq filter_append by simp
qed

lemma prefixes_down_take: "j \<le> length n \<Longrightarrow> prefixes_down j (take j n) = prefixes_down j n"
  by (simp add: prefixes_down_def)

lemma findLongestPrefixMatch_pit_find:
  assumes "nt_inv nt" "map_of nt pitNte \<noteq> None" "prefix pitNte pitName"
  shows "findLongestPrefixMatch_pit pitName pitNte sel nt = findLongestPrefixMatch pitName sel nt"
proof (cases "length pitNte < length pitName")
  case False
  then have "pitNte = pitName" using assms(3) by (auto simp: prefix_def)
  then show ?thesis
    using findLongestPrefixMatch_entry_find [OF assms(1,2), of sel]
    by (simp add: findLongestPrefixMatch_pit_def)
next
  case True
  let ?d = "min (length pitName) getMaxDepth" and ?i = "length pitNte"
  have t: "pitNte = take ?i pitName" using assms(3) by (auto simp: prefix_def)
  have "?i \<le> getMaxDepth" using nt_invD(2) [OF assms(1)] assms(2) by auto
  then obtain j where j: "?i \<le> j" "j \<le> ?d" "go_deeper pitName [?i + 1..<?d + 1] nt pitNte = take j pitName"
    "map_of nt (take j pitName) \<noteq> None" "\<forall>l. j < l \<and> l \<le> ?d \<longrightarrow> map_of nt (take l pitName) = None"
    using go_deeper_deepest [OF assms(1), of ?i ?d pitName] True assms(2) t by auto
  have len: "length (take j pitName) = j" "j \<le> length pitName" using j(2) by auto
  have "findLongestPrefixMatch_pit pitName pitNte sel nt = find (hit (map_of nt) sel) (prefixes_down j pitName)"
    using up_find(1) [OF assms(1) j(4), of sel] True j(3) len
    by (simp add: findLongestPrefixMatch_pit_def findLongestPrefixMatch_entry_def prefixes_down_take del: lpm_up.simps)
  moreover have "find (hit (map_of nt) sel) (candidates pitName) = find (hit (map_of nt) sel) (prefixes_down j pitName)"
    using j(5) by (intro find_candidates_from(1) [OF j(2)]) (simp add: hit_def)
  ultimately show ?thesis by (simp add: findLongestPrefixMatch_find)
qed

lemma find_prefixes_down_Some:
  assumes "find P (prefixes_down k n) = Some m" "k \<le> length n"
  obtains j where "j \<le> k" "m = take j n" "P m" "\<And>l. j < l \<Longrightarrow> l \<le> k \<Longrightarrow> \<not> P (take l n)"
  using assms
proof (induction k arbitrary: thesis)
  case (Suc k)
  show ?case
  proof (cases "P (take (Suc k) n)")
    case True
    with Suc.prems show ?thesis by (intro Suc.prems(1) [of "Suc k"]) auto
  next
    case False
    with Suc obtain j where "j \<le> k" "m = take j n" "P m" "\<And>l. j < l \<Longrightarrow> l \<le> k \<Longrightarrow> \<not> P (take l n)" by auto
    with False show ?thesis by (intro Suc.prems(1) [of j]) (auto simp: le_Suc_eq)
  qed
qed (auto split: if_splits)

lemma findAllMatches_filter:
  assumes "nt_inv nt"
  shows "findAllMatches n sel nt = filter (hit (map_of nt) sel) (candidates n)"
proof (cases "findLongestPrefixMatch n sel nt")
  case None
  then have "\<forall>x \<in> set (candidates n). \<not> hit (map_of nt) sel x"
    by (simp add: findLongestPrefixMatch_find find_None_iff)
  then show ?thesis using None by (simp add: findAllMatches_def)
next
  case (Some m)
  then obtain j where j: "j \<le> min (length n) getMaxDepth" "m = take j n" "hit (map_of nt) sel m"
    "\<And>l. j < l \<Longrightarrow> l \<le> min (length n) getMaxDepth \<Longrightarrow> \<not> hit (map_of nt) sel (take l n)"
    unfolding findLongestPrefixMatch_find candidates_def by (rule find_prefixes_down_Some) auto
  have "map_of nt m \<noteq> None" using j(3) by (auto simp: hit_def split: option.splits)
  then have "findAllMatches n sel nt = filter (hit (map_of nt) sel) (prefixes_down j n)"
    using up_find(2) [OF assms, of m sel] Some j(1,2)
    by (simp add: findAllMatches_def prefixes_down_take del: up_matches.simps)
  with find_candidates_from(2) [OF j(1), of "map_of nt" sel] j(4) show ?thesis by simp
qed

section \<open>Enumeration of a subtree\<close>

definition descends ::
    "(name \<Rightarrow> ('f, 'm, 's) nte \<Rightarrow> bool \<times> bool) \<Rightarrow> ('f, 'm, 's) name_tree \<Rightarrow> name \<Rightarrow> name \<Rightarrow> bool" where
  "descends pred nt n m \<longleftrightarrow>
     (\<forall>q e. prefix n q \<and> strict_prefix q m \<and> map_of nt q = Some e \<longrightarrow> snd (pred q e))"

definition visited ::
    "(name \<Rightarrow> ('f, 'm, 's) nte \<Rightarrow> bool \<times> bool) \<Rightarrow> ('f, 'm, 's) name_tree \<Rightarrow> name \<Rightarrow> name \<Rightarrow> bool" where
  "visited pred nt n m \<longleftrightarrow>
     prefix n m \<and> (\<exists>e. map_of nt m = Some e \<and> fst (pred m e)) \<and> descends pred nt n m"

lemma children_snoc:
  assumes "nt_inv nt" "map_of nt n = Some e"
  shows "c \<in> set (nte_children e) \<longleftrightarrow> (\<exists>x. c = n @ [x] \<and> map_of nt (n @ [x]) \<noteq> None)"
  using nt_invD(6) [OF assms, of c] by (metis append_butlast_last_id butlast_snoc snoc_eq_iff_butlast)

lemma descends_child:
  assumes "map_of nt n = Some e" "prefix (n @ [x]) m"
  shows "descends pred nt n m \<longleftrightarrow> snd (pred n e) \<and> descends pred nt (n @ [x]) m"
proof -
  have "prefix n q \<and> strict_prefix q m \<longleftrightarrow> q = n \<or> prefix (n @ [x]) q \<and> strict_prefix q m" for q
  proof -
    obtain r where m: "m = n @ x # r" using assms(2) by (auto simp: prefix_def)
    show ?thesis
    proof
      assume q: "prefix n q \<and> strict_prefix q m"
      then obtain s where s: "q = n @ s" by (auto simp: prefix_def)
      show "q = n \<or> prefix (n @ [x]) q \<and> strict_prefix q m"
        using q m s by (cases s) (auto simp: strict_prefix_def)
    next
      assume "q = n \<or> prefix (n @ [x]) q \<and> strict_prefix q m"
      then show "prefix n q \<and> strict_prefix q m"
        using m by (auto simp: strict_prefix_def dest: append_prefixD)
    qed
  qed
  then show ?thesis using assms(1) unfolding descends_def by (metis option.inject)
qed

lemma visited_unfold:
  assumes "nt_inv nt" "map_of nt n = Some e"
  shows "visited pred nt n m \<longleftrightarrow>
    (m = n \<and> fst (pred n e)) \<or> (snd (pred n e) \<and> (\<exists>c \<in> set (nte_children e). visited pred nt c m))"
proof (cases "m = n")
  case True
  have "\<not> prefix c n" if "c \<in> set (nte_children e)" for c
    using that children_snoc [OF assms, of c] by (auto simp: prefix_def)
  with True assms(2) show ?thesis
    by (auto simp: visited_def descends_def strict_prefix_def)
next
  case False
  show ?thesis
  proof (cases "prefix n m")
    case True
    with False obtain x r where m: "m = n @ x # r" by (metis append_Nil2 list.exhaust prefix_def)
    have closed: "map_of nt m \<noteq> None \<Longrightarrow> map_of nt (n @ [x]) \<noteq> None"
      using nt_inv_prefix_closed [OF assms(1), of "length m" m "Suc (length n)"] m by simp
    have "prefix (n @ [x]) m" using m by simp
    note d = descends_child [OF assms(2) this, of pred]
    have "(\<exists>c \<in> set (nte_children e). visited pred nt c m) \<longleftrightarrow>
        map_of nt (n @ [x]) \<noteq> None \<and> visited pred nt (n @ [x]) m"
    proof
      assume "\<exists>c \<in> set (nte_children e). visited pred nt c m"
      then obtain y where "map_of nt (n @ [y]) \<noteq> None" "visited pred nt (n @ [y]) m"
        unfolding Bex_def children_snoc [OF assms] by blast
      moreover from this(2) m have "y = x" by (simp add: visited_def)
      ultimately show "map_of nt (n @ [x]) \<noteq> None \<and> visited pred nt (n @ [x]) m" by blast
    next
      assume "map_of nt (n @ [x]) \<noteq> None \<and> visited pred nt (n @ [x]) m"
      then show "\<exists>c \<in> set (nte_children e). visited pred nt c m"
        unfolding Bex_def children_snoc [OF assms] by blast
    qed
    with False True d closed m show ?thesis by (auto simp: visited_def)
  next
    case False
    moreover have "\<not> visited pred nt c m" if "c \<in> set (nte_children e)" for c
      using that False children_snoc [OF assms, of c] by (auto simp: visited_def dest: append_prefixD)
    ultimately show ?thesis using \<open>m \<noteq> n\<close> by (auto simp: visited_def)
  qed
qed

lemma subtree_enumerate_Some:
  "map_of nt n = Some e \<Longrightarrow>
     subtree_enumerate (Suc k) pred nt n =
       (if fst (pred n e) then [n] else []) @
       (if snd (pred n e) then concat (map (subtree_enumerate k pred nt) (nte_children e)) else [])"
  by (simp add: case_prod_beta Let_def)

lemma subtree_enumerate_set:
  assumes "nt_inv nt" "map_of nt n \<noteq> None" "getMaxDepth < length n + k"
  shows "set (subtree_enumerate k pred nt n) = {m. visited pred nt n m}"
  using assms(2,3)
proof (induction k arbitrary: n)
  case 0
  then show ?case using nt_invD(2) [OF assms(1)] by fastforce
next
  case (Suc k)
  then obtain e where e: "map_of nt n = Some e" by auto
  have "set (subtree_enumerate k pred nt c) = {m. visited pred nt c m}" if "c \<in> set (nte_children e)" for c
    using that Suc children_snoc [OF assms(1) e, of c] by auto
  then show ?case
    unfolding subtree_enumerate_Some [OF e] visited_unfold [OF assms(1) e] by auto
qed

lemma partialEnumerate_set:
  assumes "nt_inv nt"
  shows "set (partialEnumerate n pred nt) = {m. map_of nt n \<noteq> None \<and> visited pred nt n m}"
  using subtree_enumerate_set [OF assms, of n "Suc getMaxDepth" pred]
  by (auto simp: partialEnumerate_def findExactMatch_iff [OF assms] simp del: subtree_enumerate.simps)

lemma subtree_enumerate_prefix: "m \<in> set (subtree_enumerate k pred nt n) \<Longrightarrow> nt_inv nt \<Longrightarrow> prefix n m"
proof (induction k arbitrary: n)
  case (Suc k)
  then obtain e where e: "map_of nt n = Some e" by (cases "map_of nt n") auto
  have "prefix n m" if "c \<in> set (nte_children e)" "m \<in> set (subtree_enumerate k pred nt c)" for c
    using Suc.IH [OF that(2) Suc.prems(2)] that(1) children_snoc [OF Suc.prems(2) e, of c]
    by (auto dest: append_prefixD)
  then show ?case
    using Suc.prems(1) unfolding subtree_enumerate_Some [OF e] by (auto split: if_splits)
qed simp

lemma subtree_enumerate_distinct:
  "nt_inv nt \<Longrightarrow> distinct (subtree_enumerate k pred nt n)"
proof (induction k arbitrary: n)
  case (Suc k)
  show ?case
  proof (cases "map_of nt n")
    case (Some e)
    note kids = children_snoc [OF Suc.prems Some]
    have below: "m \<in> set (subtree_enumerate k pred nt c) \<Longrightarrow> prefix c m" for m c
      using subtree_enumerate_prefix Suc.prems by blast
    have "n \<notin> set (subtree_enumerate k pred nt c)" if "c \<in> set (nte_children e)" for c
      using below [of n c] that kids by (auto simp: prefix_def)
    moreover have "distinct (concat (map (subtree_enumerate k pred nt) cs))"
      if "distinct cs" "set cs \<subseteq> set (nte_children e)" for cs
      using that
    proof (induction cs)
      case (Cons c cs)
      have "c = d" if "d \<in> set cs" "m \<in> set (subtree_enumerate k pred nt c)"
        "m \<in> set (subtree_enumerate k pred nt d)" for d m
        using below [OF that(2)] below [OF that(3)] kids [of c] kids [of d] that(1) Cons.prems(2)
        by (auto simp: prefix_def)
      with Cons Suc show ?case by auto
    qed simp
    ultimately show ?thesis
      unfolding subtree_enumerate_Some [OF Some] using nt_invD(5) [OF Suc.prems Some] by auto
  qed simp
qed simp

section \<open>The contract between the tree and a table on it\<close>

text \<open>
  A table keeps at most one entry per name, stored in a field of the tree entries.  From how
  the field is read and written follow the laws its table needs: insertion after a lookup,
  erasure followed by \<open>eraseIfEmpty\<close>, and longest prefix match as the first candidate that
  has an entry.
\<close>

locale tree_table =
  fixes at :: "('f, 'm, 's) name_tree \<Rightarrow> name \<Rightarrow> 'x option"
    and set_at :: "'x option \<Rightarrow> name \<Rightarrow> ('f, 'm, 's) name_tree \<Rightarrow> ('f, 'm, 's) name_tree"
    and has :: "('f, 'm, 's) nte \<Rightarrow> bool"
  assumes at_content: "nt_content nt = nt_content nt' \<Longrightarrow> at nt = at nt'"
    and at_set: "map_of nt n \<noteq> None \<Longrightarrow> at (set_at x n nt) = (at nt)(n := x)"
    and inv_set: "nt_inv nt \<Longrightarrow> nt_inv (set_at x n nt)"
    and dom_set: "map_of (set_at x n nt) m \<noteq> None \<longleftrightarrow> map_of nt m \<noteq> None"
    and has_at: "map_of nt n = Some e \<Longrightarrow> has e \<longleftrightarrow> at nt n \<noteq> None"
    and at_absent: "map_of nt n = None \<Longrightarrow> at nt n = None"
    and has_not_empty: "has e \<Longrightarrow> \<not> isEmpty_nte e"
    and set_other: "m \<noteq> n \<Longrightarrow> map_of (set_at x n nt) m = map_of nt m"
begin

lemma insert_at:
  assumes "nt_inv nt" "length n \<le> getMaxDepth"
  shows "\<exists>nt1. nt_lookup n (length n) nt = Inr nt1 \<and> at nt1 = at nt \<and> nt_inv nt1 \<and> map_of nt1 n \<noteq> None \<and>
    at (set_at (Some x) n nt1) = (at nt)(n \<mapsto> x) \<and> nt_inv (set_at (Some x) n nt1)"
proof -
  obtain nt1 where nt1: "nt_lookup n (length n) nt = Inr nt1" "nt_inv nt1" "nt_content nt1 = nt_content nt"
    "\<And>m. map_of nt1 m \<noteq> None \<longleftrightarrow> map_of nt m \<noteq> None \<or> (\<exists>j \<le> length n. m = take j n)"
    using nt_lookup_Inr [OF assms(1), of "length n" n] assms(2) by blast
  have "map_of nt1 n \<noteq> None" using nt1(4) [of n] by (metis le_refl take_all)
  with nt1 at_content [OF nt1(3)] show ?thesis by (simp add: at_set inv_set)
qed

lemma erase_at:
  assumes "nt_inv nt" "map_of nt n \<noteq> None" "eraseIfEmpty n True (set_at None n nt) = (nt', k)"
  shows "at nt' = (at nt)(n := None)" "nt_inv nt'"
  using eraseIfEmpty_content [OF inv_set [OF assms(1)] assms(3)] at_set [OF assms(2), of None]
  by (auto dest: at_content)

lemma erase_tight:
  assumes "nt_inv nt" "nt_tight nt" "eraseIfEmpty n True (set_at None n nt) = (nt', k)"
  shows "nt_tight nt'"
  using assms(2) by (intro eraseIfEmpty_tight [OF inv_set [OF assms(1)] _ assms(3)])
    (auto simp: set_other nt_tight_def)

lemma hit_has: "hit (map_of nt) (\<lambda>_ e. has e) p \<longleftrightarrow> at nt p \<noteq> None"
  by (cases "map_of nt p") (auto simp: hit_def has_at at_absent)

lemma lpm_at:
  "findLongestPrefixMatch n (\<lambda>_ e. has e) nt = find (\<lambda>p. at nt p \<noteq> None) (candidates n)"
proof -
  have "hit (map_of nt) (\<lambda>_ e. has e) = (\<lambda>p. at nt p \<noteq> None)"
    by (rule ext) (rule hit_has)
  then show ?thesis by (simp only: findLongestPrefixMatch_find)
qed

lemma lpm_pit_at:
  assumes "nt_inv nt" "map_of nt pn \<noteq> None" "prefix pn n"
  shows "findLongestPrefixMatch_pit n pn (\<lambda>_ e. has e) nt = find (\<lambda>p. at nt p \<noteq> None) (candidates n)"
  using findLongestPrefixMatch_pit_find [OF assms] lpm_at by simp

lemma lpm_at_root:
  assumes "at nt [] \<noteq> None"
  shows "\<exists>p e. findLongestPrefixMatch n (\<lambda>_ e. has e) nt = Some p \<and> at nt p = Some e \<and> prefix p n"
proof -
  have mem: "[] \<in> set (candidates n)" and pre: "\<And>p. p \<in> set (candidates n) \<Longrightarrow> prefix p n"
    by (auto simp: candidates_def set_prefixes_down)
  obtain p where p: "find (\<lambda>p. at nt p \<noteq> None) (candidates n) = Some p"
    using mem assms by (cases "find (\<lambda>p. at nt p \<noteq> None) (candidates n)") (auto simp: find_None_iff)
  then have "at nt p \<noteq> None" "p \<in> set (candidates n)"
    by (auto simp: find_Some_iff)
  with p pre show ?thesis unfolding lpm_at by auto
qed

end

definition nteHasFibEntry :: "('f, 'm, 's) nte \<Rightarrow> bool" where
  "nteHasFibEntry e = (nte_fib e \<noteq> None)"

definition nteHasStrategyChoiceEntry :: "('f, 'm, 's) nte \<Rightarrow> bool" where
  "nteHasStrategyChoiceEntry e = (nte_sc e \<noteq> None)"

definition nteHasMeasurementsEntry :: "('f, 'm, 's) nte \<Rightarrow> bool" where
  "nteHasMeasurementsEntry e = (nte_meas e \<noteq> None)"

lemma map_of_set_entries [nt_simps]:
  "map_of (setFibEntry x n nt) m = (if m = n then map_option (\<lambda>e. e\<lparr>nte_fib := x\<rparr>) (map_of nt n) else map_of nt m)"
  "map_of (setMeasurementsEntry y n nt) m = (if m = n then map_option (\<lambda>e. e\<lparr>nte_meas := y\<rparr>) (map_of nt n) else map_of nt m)"
  "map_of (setStrategyChoiceEntry z n nt) m = (if m = n then map_option (\<lambda>e. e\<lparr>nte_sc := z\<rparr>) (map_of nt n) else map_of nt m)"
  "map_of (insertPitEntry r n nt) m = (if m = n then map_option (\<lambda>e. e\<lparr>nte_pit := nte_pit e @ [r]\<rparr>) (map_of nt n) else map_of nt m)"
  "map_of (erasePitEntry r n nt) m = (if m = n then map_option (\<lambda>e. e\<lparr>nte_pit := swap_with_back r (nte_pit e)\<rparr>) (map_of nt n) else map_of nt m)"
  by (simp_all add: setFibEntry_def setMeasurementsEntry_def setStrategyChoiceEntry_def insertPitEntry_def
      erasePitEntry_def nt_simps)

interpretation fib_table: tree_table fib_at setFibEntry nteHasFibEntry
  by (unfold_locales, erule at_cong(1))
    (auto simp: nt_simps nt_inv_set nteHasFibEntry_def isEmpty_nte_def hasTableEntries_def)

interpretation sc_table: tree_table sc_at setStrategyChoiceEntry nteHasStrategyChoiceEntry
  by (unfold_locales, erule at_cong(4))
    (auto simp: nt_simps nt_inv_set nteHasStrategyChoiceEntry_def isEmpty_nte_def hasTableEntries_def)

interpretation meas_table: tree_table meas_at setMeasurementsEntry nteHasMeasurementsEntry
  by (unfold_locales, erule at_cong(3))
    (auto simp: nt_simps nt_inv_set nteHasMeasurementsEntry_def isEmpty_nte_def hasTableEntries_def)

lemma lookup_tight_except:
  assumes "nt_inv nt" "nt_tight nt" "k \<le> length n" "k \<le> getMaxDepth" "nt_lookup n k nt = Inr nt'"
    and "m \<noteq> take k n" "map_of nt' m = Some e"
  shows "\<not> isEmpty_nte e"
proof -
  obtain nt1 where nt1: "nt_lookup n k nt = Inr nt1" "nt_inv nt1" "nt_content nt1 = nt_content nt"
    "\<And>m. map_of nt1 m \<noteq> None \<longleftrightarrow> map_of nt m \<noteq> None \<or> (\<exists>j \<le> k. m = take j n)"
    using nt_lookup_Inr [OF assms(1,3,4)] by metis
  then have [simp]: "nt1 = nt'" using assms(5) by simp
  have child: "nte_children e \<noteq> []" if "map_of nt' c \<noteq> None" "c \<noteq> []" "butlast c = m" for c
    using nt_invD(6) [OF _ assms(7), of c] nt1(2) that by auto
  show ?thesis
  proof (cases "map_of nt m")
    case (Some e0)
    then have "\<not> isEmpty_nte e0" using assms(2) by (simp add: nt_tight_def)
    moreover have "nte_content e = nte_content e0"
      using fun_cong [OF nt1(3), of m] Some assms(7) by (simp add: nt_content_def)
    moreover have "nte_children e0 = [] \<or> nte_children e \<noteq> []"
    proof (cases "nte_children e0")
      case (Cons c cs)
      then have "c \<noteq> []" "butlast c = m" "map_of nt c \<noteq> None"
        using nt_invD(6) [OF assms(1) Some, of c] by auto
      then show ?thesis using child [of c] nt1(4) [of c] by auto
    qed simp
    ultimately show ?thesis by (auto simp: isEmpty_nte_def hasTableEntries_content)
  next
    case None
    then obtain j where j: "j \<le> k" "m = take j n" using nt1(4) [of m] assms(7) by auto
    with assms(6) have "Suc j \<le> k" by (cases "j = k") auto
    then have "map_of nt' (take (Suc j) n) \<noteq> None" "take (Suc j) n \<noteq> []" "butlast (take (Suc j) n) = m"
      using nt1(4) [of "take (Suc j) n"] assms(3) j by (auto simp: butlast_take)
    then show ?thesis using child by (simp add: isEmpty_nte_def)
  qed
qed

lemma candidates_longest:
  assumes "find P (candidates n) = Some p"
  shows "prefix p n \<and> P p \<and> (\<forall>q. prefix q n \<and> length p < length q \<and> length q \<le> getMaxDepth \<longrightarrow> \<not> P q)"
proof -
  obtain j where j: "j \<le> min (length n) getMaxDepth" "p = take j n" "P p"
      "\<And>l. j < l \<Longrightarrow> l \<le> min (length n) getMaxDepth \<Longrightarrow> \<not> P (take l n)"
    by (rule find_prefixes_down_Some [OF assms [unfolded candidates_def]]) auto
  have "\<not> P q" if "prefix q n" "length p < length q" "length q \<le> getMaxDepth" for q
    using j(4) [of "length q"] j(1,2) that by (auto simp: prefix_def)
  then show ?thesis using j(2,3) by (auto simp: take_is_prefix)
qed

lemma candidates_none:
  "find P (candidates n) = None \<longleftrightarrow> (\<forall>q. prefix q n \<and> length q \<le> getMaxDepth \<longrightarrow> \<not> P q)"
  by (auto simp: find_None_iff candidates_def set_prefixes_down dest: prefix_length_le)

section \<open>Properties\<close>

text \<open>
  C19: The longest-prefix match returns the longest prefix of the name that has an accepted entry, and
  nothing only if no prefix has one; the variants that start at a tree entry or at a PIT entry return
  the same.
\<close>

theorem longest_prefix_match:
  assumes "nt_inv nt" "map_of nt pitNte \<noteq> None" "prefix pitNte n"
  shows "(case findLongestPrefixMatch n sel nt of
      None \<Rightarrow> \<forall>q. prefix q n \<and> length q \<le> getMaxDepth \<longrightarrow> \<not> hit (map_of nt) sel q
    | Some p \<Rightarrow> prefix p n \<and> hit (map_of nt) sel p \<and>
        (\<forall>q. prefix q n \<and> length p < length q \<and> length q \<le> getMaxDepth \<longrightarrow> \<not> hit (map_of nt) sel q)) \<and>
    findLongestPrefixMatch_pit n pitNte sel nt = findLongestPrefixMatch n sel nt \<and>
    findLongestPrefixMatch_entry pitNte sel nt = findLongestPrefixMatch pitNte sel nt"
proof -
  have "case findLongestPrefixMatch n sel nt of
      None \<Rightarrow> \<forall>q. prefix q n \<and> length q \<le> getMaxDepth \<longrightarrow> \<not> hit (map_of nt) sel q
    | Some p \<Rightarrow> prefix p n \<and> hit (map_of nt) sel p \<and>
        (\<forall>q. prefix q n \<and> length p < length q \<and> length q \<le> getMaxDepth \<longrightarrow> \<not> hit (map_of nt) sel q)"
    unfolding findLongestPrefixMatch_find
    using candidates_longest [of "hit (map_of nt) sel" n] candidates_none [of "hit (map_of nt) sel" n] by (auto split: option.split)
  then show ?thesis
    using findLongestPrefixMatch_pit_find [OF assms] findLongestPrefixMatch_entry_find [OF assms(1,2)] by blast
qed

theorem longest_prefix_match_witness:
  "\<exists>nt. nt_lookup [Component 8 [1]] 1 [] = Inr nt \<and>
     findLongestPrefixMatch_pit [Component 8 [1], Component 8 [2]] [] (\<lambda>_ _. True) (nt :: (nat, nat, nat) name_tree) =
     findLongestPrefixMatch [Component 8 [1], Component 8 [2]] (\<lambda>_ _. True) nt"
proof -
  obtain nt where nt: "nt_lookup [Component 8 [1]] 1 ([] :: (nat, nat, nat) name_tree) = Inr nt" "nt_inv nt"
    "\<And>m. map_of nt m \<noteq> None \<longleftrightarrow> map_of ([] :: (nat, nat, nat) name_tree) m \<noteq> None \<or> (\<exists>j \<le> 1. m = take j [Component 8 [1]])"
    by (rule nt_lookup_Inr [OF nt_inv_empty, of 1 "[Component 8 [1]]"]) (auto simp: getMaxDepth_def)
  then have "map_of nt [] \<noteq> None" by (metis take0 zero_le_one)
  from longest_prefix_match [OF nt(2) this, of "[Component 8 [1], Component 8 [2]]" "\<lambda>_ _. True"] nt(1) show ?thesis by auto
qed

text \<open>
  Looking a name up creates the entries on its path and changes nothing stored; erasing the empty
  entry again removes every entry that stores nothing, so that the tree holds no empty entry.
\<close>

theorem lookup_then_erase:
  assumes "nt_inv nt" "nt_tight nt" "length n \<le> getMaxDepth"
  shows "\<exists>nt1 nt2 k. nt_lookup n (length n) nt = Inr nt1 \<and> nt_inv nt1 \<and> map_of nt1 n \<noteq> None \<and> nt_content nt1 = nt_content nt \<and>
    eraseIfEmpty n True nt1 = (nt2, k) \<and> nt_inv nt2 \<and> nt_tight nt2 \<and> nt_content nt2 = nt_content nt"
proof -
  obtain nt1 where nt1: "nt_lookup n (length n) nt = Inr nt1" "nt_inv nt1" "nt_content nt1 = nt_content nt"
      "\<And>m. map_of nt1 m \<noteq> None \<longleftrightarrow> map_of nt m \<noteq> None \<or> (\<exists>j \<le> length n. m = take j n)"
    by (rule nt_lookup_Inr [OF assms(1) _ assms(3)]) auto
  obtain nt2 k where e: "eraseIfEmpty n True nt1 = (nt2, k)" by force
  have "nt_tight nt2"
    by (rule eraseIfEmpty_tight [OF nt1(2) _ e]) (use lookup_tight_except [OF assms(1,2) _ assms(3) nt1(1)] in auto)
  moreover have "map_of nt1 n \<noteq> None" using nt1(4) [of n] by auto
  ultimately show ?thesis using nt1 e eraseIfEmpty_content [OF nt1(2) e] by auto
qed

theorem lookup_then_erase_witness:
  "\<exists>nt1 nt2 k. nt_lookup [Component 8 [1]] 1 ([] :: (nat, nat, nat) name_tree) = Inr nt1 \<and>
     eraseIfEmpty [Component 8 [1]] True nt1 = (nt2, k) \<and> nt_tight nt2"
proof -
  have "nt_tight ([] :: (nat, nat, nat) name_tree)" by (simp add: nt_tight_def)
  from lookup_then_erase [OF nt_inv_empty this, of "[Component 8 [1]]"] show ?thesis by (auto simp: getMaxDepth_def)
qed

text \<open>
  Partial enumeration visits, each once, exactly the entries below the name that the predicate
  accepts and that no ancestor's predicate cuts off.
\<close>

theorem enumeration:
  assumes "nt_inv nt"
  shows "set (partialEnumerate n pred nt) = {m. map_of nt n \<noteq> None \<and> visited pred nt n m} \<and> distinct (partialEnumerate n pred nt)"
  using partialEnumerate_set [OF assms] subtree_enumerate_distinct [OF assms]
  by (simp add: partialEnumerate_def del: subtree_enumerate.simps split: option.splits)

theorem enumeration_witness:
  "\<exists>nt :: (nat, nat, nat) name_tree. nt_lookup [Component 8 [1]] 1 [] = Inr nt \<and> distinct (partialEnumerate [] (\<lambda>_ _. (True, True)) nt) \<and>
     [Component 8 [1]] \<in> set (partialEnumerate [] (\<lambda>_ _. (True, True)) nt)"
proof -
  obtain nt where nt: "nt_lookup [Component 8 [1]] 1 ([] :: (nat, nat, nat) name_tree) = Inr nt" "nt_inv nt"
    "\<And>m. map_of nt m \<noteq> None \<longleftrightarrow> map_of ([] :: (nat, nat, nat) name_tree) m \<noteq> None \<or> (\<exists>j \<le> 1. m = take j [Component 8 [1]])"
    by (rule nt_lookup_Inr [OF nt_inv_empty, of 1 "[Component 8 [1]]"]) (auto simp: getMaxDepth_def)
  have "map_of nt [] \<noteq> None" "map_of nt [Component 8 [1]] \<noteq> None"
    using nt(3) [of "[]"] nt(3) [of "[Component 8 [1]]"] by (auto intro: exI [of _ 0] exI [of _ 1])
  with nt(1) enumeration [OF nt(2), of "[]" "\<lambda>_ _. (True, True)"] show ?thesis by (auto simp: visited_def descends_def)
qed

end
