(* ===== verification/Fib.thy ===== *)
theory Fib
  imports Name_Tree "HOL-Library.Multiset"
begin

text \<open>
  The Forwarding Information Base: \<open>NFD/daemon/table/fib-entry.cpp\<close> and \<open>fib.cpp\<close>.  A face
  is its identifier.  \<open>std::sort\<close> by cost is the stable sort \<open>sort_key\<close>; every statement
  about the result only uses that it is sorted and has the same elements.  An iterator into the
  vector of next hops is an index.
\<close>

record next_hop =
  nh_face :: face_id
  nh_cost :: nat

record fib_entry =
  fe_prefix :: name
  fe_nextHops :: "next_hop list"

type_synonym ('m, 's) fib_tree = "(fib_entry, 'm, 's) name_tree"

section \<open>Entries\<close>

definition new_fib_entry :: "name \<Rightarrow> fib_entry" where
  "new_fib_entry pfx = \<lparr>fe_prefix = pfx, fe_nextHops = []\<rparr>"

fun index_of :: "('a \<Rightarrow> bool) \<Rightarrow> 'a list \<Rightarrow> nat" where
  "index_of P [] = 0"
| "index_of P (x # xs) = (if P x then 0 else Suc (index_of P xs))"

definition findNextHop :: "fib_entry \<Rightarrow> face_id \<Rightarrow> nat" where
  "findNextHop e face = index_of (\<lambda>nh. nh_face nh = face) (fe_nextHops e)"

definition hasNextHop :: "fib_entry \<Rightarrow> face_id \<Rightarrow> bool" where
  "hasNextHop e face = (findNextHop e face \<noteq> length (fe_nextHops e))"

definition sortNextHops :: "next_hop list \<Rightarrow> next_hop list" where
  "sortNextHops nhs = sort_key nh_cost nhs"

definition entry_addOrUpdateNextHop :: "fib_entry \<Rightarrow> face_id \<Rightarrow> nat \<Rightarrow> fib_entry \<times> nat \<times> bool" where
  "entry_addOrUpdateNextHop e face cost =
     (let it = findNextHop e face;
          isNew = (it = length (fe_nextHops e));
          nhs = (if isNew then fe_nextHops e @ [\<lparr>nh_face = face, nh_cost = 0\<rparr>] else fe_nextHops e);
          nhs = nhs[it := (nhs ! it)\<lparr>nh_cost := cost\<rparr>]
      in (e\<lparr>fe_nextHops := sortNextHops nhs\<rparr>, it, isNew))"

definition entry_removeNextHop :: "fib_entry \<Rightarrow> face_id \<Rightarrow> fib_entry \<times> bool" where
  "entry_removeNextHop e face =
     (let it = findNextHop e face
      in if it \<noteq> length (fe_nextHops e)
         then (e\<lparr>fe_nextHops := take it (fe_nextHops e) @ drop (Suc it) (fe_nextHops e)\<rparr>, True)
         else (e, False))"

section \<open>The table\<close>

text \<open>The number of entries is a \<open>size_t\<close>.\<close>

record ('m, 's) fib =
  fib_nt :: "('m, 's) fib_tree"
  fib_nItems :: "64 word"

definition s_emptyEntry :: fib_entry where
  "s_emptyEntry = new_fib_entry []"

definition entry_at :: "('m, 's) fib_tree \<Rightarrow> name option \<Rightarrow> fib_entry" where
  "entry_at nt found =
     (case found of
        Some p \<Rightarrow> (case fib_at nt p of Some e \<Rightarrow> e | None \<Rightarrow> s_emptyEntry)
      | None \<Rightarrow> s_emptyEntry)"

definition fib_findLongestPrefixMatch :: "('m, 's) fib_tree \<Rightarrow> name \<Rightarrow> fib_entry" where
  "fib_findLongestPrefixMatch nt pfx =
     entry_at nt (findLongestPrefixMatch pfx (\<lambda>_ e. nteHasFibEntry e) nt)"

definition fib_findLongestPrefixMatch_pit :: "('m, 's) fib_tree \<Rightarrow> name \<Rightarrow> name \<Rightarrow> fib_entry" where
  "fib_findLongestPrefixMatch_pit nt pitName pitNte =
     entry_at nt (findLongestPrefixMatch_pit pitName pitNte (\<lambda>_ e. nteHasFibEntry e) nt)"

definition fib_findExactMatch :: "('m, 's) fib_tree \<Rightarrow> name \<Rightarrow> fib_entry option" where
  "fib_findExactMatch nt pfx =
     (case findExactMatch pfx (length pfx) nt of Some p \<Rightarrow> fib_at nt p | None \<Rightarrow> None)"

definition fib_insert :: "name \<Rightarrow> ('m, 's) fib \<Rightarrow> (('m, 's) fib \<times> bool) res" where
  "fib_insert pfx f =
     bind_res (nt_lookup pfx (length pfx) (fib_nt f)) (\<lambda>nt.
       case fib_at nt pfx of
         Some _ \<Rightarrow> Inr (f\<lparr>fib_nt := nt\<rparr>, False)
       | None \<Rightarrow> Inr (f\<lparr>fib_nt := setFibEntry (Some (new_fib_entry pfx)) pfx nt,
                        fib_nItems := fib_nItems f + 1\<rparr>, True))"

definition fib_erase_nte :: "name \<Rightarrow> bool \<Rightarrow> ('m, 's) fib \<Rightarrow> ('m, 's) fib" where
  "fib_erase_nte nte canDeleteNte f =
     (let nt = setFibEntry None nte (fib_nt f);
          nt = (if canDeleteNte then fst (eraseIfEmpty nte True nt) else nt)
      in f\<lparr>fib_nt := nt, fib_nItems := fib_nItems f - 1\<rparr>)"

definition fib_erase :: "name \<Rightarrow> ('m, 's) fib \<Rightarrow> ('m, 's) fib" where
  "fib_erase pfx f =
     (case findExactMatch pfx (length pfx) (fib_nt f) of
        Some nte \<Rightarrow> fib_erase_nte nte True f
      | None \<Rightarrow> f)"

text \<open>\<open>Fib::addOrUpdateNextHop\<close> emits \<open>afterNewNextHop\<close> with the hop its iterator points at.\<close>

definition fib_addOrUpdateNextHop ::
    "name \<Rightarrow> face_id \<Rightarrow> nat \<Rightarrow> ('m, 's) fib \<Rightarrow> ('m, 's) fib \<times> (name \<times> next_hop) option" where
  "fib_addOrUpdateNextHop pfx face cost f =
     (case fib_at (fib_nt f) pfx of
        None \<Rightarrow> (f, None)
      | Some e \<Rightarrow>
          (let (e', it, isNew) = entry_addOrUpdateNextHop e face cost
           in (f\<lparr>fib_nt := setFibEntry (Some e') pfx (fib_nt f)\<rparr>,
               if isNew then Some (fe_prefix e', fe_nextHops e' ! it) else None)))"

datatype RemoveNextHopResult = NO_SUCH_NEXTHOP | NEXTHOP_REMOVED | FIB_ENTRY_REMOVED

definition fib_removeNextHop :: "name \<Rightarrow> face_id \<Rightarrow> ('m, 's) fib \<Rightarrow> ('m, 's) fib \<times> RemoveNextHopResult" where
  "fib_removeNextHop pfx face f =
     (case fib_at (fib_nt f) pfx of
        None \<Rightarrow> (f, NO_SUCH_NEXTHOP)
      | Some e \<Rightarrow>
          (let (e', isRemoved) = entry_removeNextHop e face;
               f' = f\<lparr>fib_nt := setFibEntry (Some e') pfx (fib_nt f)\<rparr>
           in if \<not> isRemoved then (f, NO_SUCH_NEXTHOP)
              else if fe_nextHops e' = [] then (fib_erase_nte pfx False f', FIB_ENTRY_REMOVED)
              else (f', NEXTHOP_REMOVED)))"

section \<open>Next hop lists\<close>

definition nexthops_ok :: "next_hop list \<Rightarrow> bool" where
  "nexthops_ok nhs \<longleftrightarrow> sorted (map nh_cost nhs) \<and> distinct (map nh_face nhs)"

definition fib_entry_ok :: "name \<Rightarrow> fib_entry \<Rightarrow> bool" where
  "fib_entry_ok n e \<longleftrightarrow> fe_prefix e = n \<and> nexthops_ok (fe_nextHops e)"

text \<open>A list of next hops as the map it represents.\<close>

definition cost_of :: "next_hop list \<Rightarrow> face_id \<rightharpoonup> nat" where
  "cost_of nhs = map_of (map (\<lambda>nh. (nh_face nh, nh_cost nh)) nhs)"

lemma index_of_le: "index_of P xs \<le> length xs"
  by (induction xs) auto

lemma index_of_length: "index_of P xs = length xs \<longleftrightarrow> (\<forall>x \<in> set xs. \<not> P x)"
  by (induction xs) auto

lemma index_of_nth: "index_of P xs < length xs \<Longrightarrow> P (xs ! index_of P xs)"
  by (induction xs) auto

lemma cost_of_Some:
  "distinct (map nh_face nhs) \<Longrightarrow>
     cost_of nhs f = Some c \<longleftrightarrow> (\<exists>nh \<in> set nhs. nh_face nh = f \<and> nh_cost nh = c)"
  by (auto simp: cost_of_def map_of_eq_Some_iff comp_def)

lemma cost_of_cong_mset:
  assumes "mset nhs = mset nhs'" "distinct (map nh_face nhs)"
  shows "cost_of nhs = cost_of nhs'"
proof
  have set: "set nhs = set nhs'" using assms(1) by (rule mset_eq_setD)
  have "distinct (map nh_face nhs')"
    using assms by (metis mset_eq_imp_distinct_iff mset_map)
  then show "cost_of nhs f = cost_of nhs' f" for f
    using cost_of_Some [OF assms(2), of f] cost_of_Some [of nhs' f] set by (metis option.exhaust)
qed

lemma set_update_index:
  assumes "distinct (map nh_face nhs)" "i < length nhs"
  shows "set (nhs[i := (nhs ! i)\<lparr>nh_cost := c\<rparr>]) =
    insert ((nhs ! i)\<lparr>nh_cost := c\<rparr>) {nh \<in> set nhs. nh_face nh \<noteq> nh_face (nhs ! i)}"
proof -
  have "distinct nhs" using assms(1) by (simp add: distinct_map)
  then have "set (nhs[i := x]) = insert x (set nhs - {nhs ! i})" for x
    using assms(2) by (simp add: set_update_distinct)
  moreover have "nh \<in> set nhs \<Longrightarrow> nh_face nh = nh_face (nhs ! i) \<longleftrightarrow> nh = nhs ! i" for nh
    using assms by (metis distinct_map inj_onD nth_mem)
  ultimately show ?thesis by auto
qed

lemma map_face_update_cost: "map nh_face (nhs[i := (nhs ! i)\<lparr>nh_cost := c\<rparr>]) = map nh_face nhs"
  by (cases "i < length nhs") (simp_all add: map_update list_update_same_conv list_update_beyond)

lemma option_eqI: "(\<And>c. a = Some c \<longleftrightarrow> b = Some c) \<Longrightarrow> a = b"
  by (cases a; cases b) auto

lemma cost_of_replace:
  assumes "distinct (map nh_face us)" "distinct (map nh_face ns)"
    and "set us = insert nh {x \<in> set ns. nh_face x \<noteq> nh_face nh}"
  shows "cost_of us = (cost_of ns)(nh_face nh \<mapsto> nh_cost nh)"
proof (rule ext, rule option_eqI)
  show "cost_of us f = Some c \<longleftrightarrow> ((cost_of ns)(nh_face nh \<mapsto> nh_cost nh)) f = Some c" for f c
    unfolding cost_of_Some [OF assms(1)] assms(3) using cost_of_Some [OF assms(2), of f c] by auto
qed

lemma cost_of_remove:
  assumes "distinct (map nh_face us)" "distinct (map nh_face ns)" "set us = {x \<in> set ns. nh_face x \<noteq> face}"
  shows "cost_of us = (cost_of ns)(face := None)"
proof (rule ext, rule option_eqI)
  show "cost_of us f = Some c \<longleftrightarrow> ((cost_of ns)(face := None)) f = Some c" for f c
    unfolding cost_of_Some [OF assms(1)] assms(3) using cost_of_Some [OF assms(2), of f c] by auto
qed

lemma cost_of_None:
  "cost_of nhs f = None \<longleftrightarrow> (\<forall>nh \<in> set nhs. nh_face nh \<noteq> f)"
  by (auto simp: cost_of_def map_of_eq_None_iff image_image)

lemma entry_addOrUpdateNextHop_spec:
  assumes "nexthops_ok (fe_nextHops e)" "entry_addOrUpdateNextHop e face cost = (e', it, isNew)"
  shows "nexthops_ok (fe_nextHops e')" "cost_of (fe_nextHops e') = (cost_of (fe_nextHops e))(face \<mapsto> cost)"
    "isNew \<longleftrightarrow> cost_of (fe_nextHops e) face = None" "fe_prefix e' = fe_prefix e"
proof -
  let ?i = "findNextHop e face"
  define nhs where "nhs = (if ?i = length (fe_nextHops e)
      then fe_nextHops e @ [\<lparr>nh_face = face, nh_cost = 0\<rparr>] else fe_nextHops e)"
  define u where "u = nhs[?i := (nhs ! ?i)\<lparr>nh_cost := cost\<rparr>]"
  have e': "e' = e\<lparr>fe_nextHops := sortNextHops u\<rparr>" "isNew \<longleftrightarrow> ?i = length (fe_nextHops e)"
    using assms(2) by (auto simp: entry_addOrUpdateNextHop_def nhs_def u_def Let_def)
  have d0: "distinct (map nh_face (fe_nextHops e))" using assms(1) by (simp add: nexthops_ok_def)
  have le: "?i \<le> length (fe_nextHops e)" by (simp add: findNextHop_def index_of_le)
  have new: "?i = length (fe_nextHops e) \<longleftrightarrow> (\<forall>nh \<in> set (fe_nextHops e). nh_face nh \<noteq> face)"
    by (simp add: findNextHop_def index_of_length)
  have i: "?i < length nhs" using le by (auto simp: nhs_def)
  have face: "nh_face (nhs ! ?i) = face"
  proof (cases "?i = length (fe_nextHops e)")
    case False
    then have "index_of (\<lambda>nh. nh_face nh = face) (fe_nextHops e) < length (fe_nextHops e)"
      using le by (simp add: findNextHop_def)
    from index_of_nth [OF this] False show ?thesis by (simp add: nhs_def findNextHop_def)
  qed (simp add: nhs_def)
  have d: "distinct (map nh_face nhs)" using d0 new by (auto simp: nhs_def)
  have m: "mset (sortNextHops u) = mset u" by (simp add: sortNextHops_def)
  have "distinct (map nh_face u)" using d unfolding u_def by (simp only: map_face_update_cost)
  then have ds: "distinct (map nh_face (sortNextHops u))"
    using m by (metis mset_eq_imp_distinct_iff mset_map)
  then show "nexthops_ok (fe_nextHops e')"
    using e' by (simp add: nexthops_ok_def sortNextHops_def)
  show "isNew \<longleftrightarrow> cost_of (fe_nextHops e) face = None"
    unfolding e'(2) new cost_of_None by blast
  show "fe_prefix e' = fe_prefix e" using e' by simp
  have "{nh \<in> set nhs. nh_face nh \<noteq> face} = {nh \<in> set (fe_nextHops e). nh_face nh \<noteq> face}"
    by (auto simp: nhs_def)
  then have "set (sortNextHops u) = insert ((nhs ! ?i)\<lparr>nh_cost := cost\<rparr>) {x \<in> set (fe_nextHops e). nh_face x \<noteq> face}"
    using set_update_index [OF d i, of cost] face by (simp add: u_def sortNextHops_def)
  from cost_of_replace [OF ds d0, of "(nhs ! ?i)\<lparr>nh_cost := cost\<rparr>"] this face e'
  show "cost_of (fe_nextHops e') = (cost_of (fe_nextHops e))(face \<mapsto> cost)" by simp
qed

lemma entry_removeNextHop_spec:
  assumes "nexthops_ok (fe_nextHops e)" "entry_removeNextHop e face = (e', r)"
  shows "nexthops_ok (fe_nextHops e')" "cost_of (fe_nextHops e') = (cost_of (fe_nextHops e))(face := None)"
    "r \<longleftrightarrow> cost_of (fe_nextHops e) face \<noteq> None" "fe_prefix e' = fe_prefix e"
proof -
  let ?l = "fe_nextHops e" and ?i = "findNextHop e face"
  have d: "distinct (map nh_face ?l)" "sorted (map nh_cost ?l)" using assms(1) by (auto simp: nexthops_ok_def)
  have new: "?i = length ?l \<longleftrightarrow> (\<forall>nh \<in> set ?l. nh_face nh \<noteq> face)"
    by (simp add: findNextHop_def index_of_length)
  have "nexthops_ok (fe_nextHops e') \<and> cost_of (fe_nextHops e') = (cost_of ?l)(face := None) \<and>
      (r \<longleftrightarrow> cost_of ?l face \<noteq> None) \<and> fe_prefix e' = fe_prefix e"
  proof (cases "?i = length ?l")
    case True
    with new have "cost_of ?l face = None" by (simp add: cost_of_None)
    with True assms show ?thesis
      by (auto simp: entry_removeNextHop_def Let_def fun_upd_idem)
  next
    case False
    then have i: "?i < length ?l" using index_of_le [of "\<lambda>nh. nh_face nh = face" ?l] by (simp add: findNextHop_def)
    then have f: "nh_face (?l ! ?i) = face"
      using index_of_nth [of "\<lambda>nh. nh_face nh = face" ?l] by (simp add: findNextHop_def)
    let ?u = "take ?i ?l @ drop (Suc ?i) ?l"
    have l: "?l = take ?i ?l @ ?l ! ?i # drop (Suc ?i) ?l" using i by (simp add: id_take_nth_drop)
    obtain as bs where ab: "?l = as @ ?l ! ?i # bs" "?u = as @ bs" using l by blast
    have "distinct (map nh_face (as @ ?l ! ?i # bs))" "sorted (map nh_cost (as @ ?l ! ?i # bs))"
      using d unfolding ab(1) [symmetric] .
    then have du: "distinct (map nh_face ?u)" "sorted (map nh_cost ?u)" "nh_face (?l ! ?i) \<notin> nh_face ` set ?u"
      unfolding ab(2) by (auto simp: sorted_append)
    have "set ?l = insert (?l ! ?i) (set ?u)" using arg_cong [OF ab(1), of set] unfolding ab(2) by simp
    then have "set ?u = {x \<in> set ?l. nh_face x \<noteq> face}" using du(3) f by auto
    with cost_of_remove [OF du(1) d(1)] du False f i assms(2) show ?thesis
      by (auto simp: entry_removeNextHop_def nexthops_ok_def Let_def cost_of_None)
  qed
  then show "nexthops_ok (fe_nextHops e')" "cost_of (fe_nextHops e') = (cost_of ?l)(face := None)"
    "r \<longleftrightarrow> cost_of ?l face \<noteq> None" "fe_prefix e' = fe_prefix e" by auto
qed

section \<open>The table as a map from prefixes to costs\<close>

definition fib_dom :: "('m, 's) fib \<Rightarrow> name set" where
  "fib_dom f = {n. fib_at (fib_nt f) n \<noteq> None}"

definition fib_inv :: "('m, 's) fib \<Rightarrow> bool" where
  "fib_inv f \<longleftrightarrow>
     nt_inv (fib_nt f) \<and>
     (\<forall>n e. fib_at (fib_nt f) n = Some e \<longrightarrow> fib_entry_ok n e) \<and>
     fib_nItems f = word_of_nat (card (fib_dom f))"

definition fib_abs :: "('m, 's) fib \<Rightarrow> name \<rightharpoonup> (face_id \<rightharpoonup> nat)" where
  "fib_abs f n = map_option (\<lambda>e. cost_of (fe_nextHops e)) (fib_at (fib_nt f) n)"

lemma finite_fib_dom [simp]: "finite (fib_dom f)"
proof -
  have "fib_dom f \<subseteq> dom (map_of (fib_nt f))"
    by (auto simp: fib_dom_def) (metis at_None(1) not_Some_eq)
  then show ?thesis using finite_subset finite_dom_map_of by blast
qed

lemma fib_at_exists: "fib_at nt n \<noteq> None \<Longrightarrow> map_of nt n \<noteq> None"
  using at_None(1) by metis

lemma fib_invD:
  assumes "fib_inv f"
  shows "nt_inv (fib_nt f)" "fib_at (fib_nt f) n = Some e \<Longrightarrow> fib_entry_ok n e"
    "fib_nItems f = word_of_nat (card (fib_dom f))"
  using assms by (auto simp: fib_inv_def)

lemma nexthops_ok_Nil [simp]: "nexthops_ok []"
  by (simp add: nexthops_ok_def)

lemma new_fib_entry_ok [simp]: "fib_entry_ok n (new_fib_entry n)"
  by (simp add: fib_entry_ok_def new_fib_entry_def)

lemma cost_of_new [simp]: "cost_of (fe_nextHops (new_fib_entry n)) = Map.empty"
  by (simp add: new_fib_entry_def cost_of_def)

lemma fib_insert_refines:
  assumes "fib_inv f" "length n \<le> getMaxDepth"
  shows "\<exists>f' isNew. fib_insert n f = Inr (f', isNew) \<and> fib_inv f' \<and>
    isNew = (fib_abs f n = None) \<and>
    fib_abs f' = (if isNew then (fib_abs f)(n \<mapsto> Map.empty) else fib_abs f)"
proof -
  note I = fib_invD [OF assms(1)]
  let ?x = "new_fib_entry n"
  obtain nt1 where nt1: "nt_lookup n (length n) (fib_nt f) = Inr nt1" "fib_at nt1 = fib_at (fib_nt f)"
    "nt_inv nt1" "fib_at (setFibEntry (Some ?x) n nt1) = (fib_at (fib_nt f))(n \<mapsto> ?x)"
    "nt_inv (setFibEntry (Some ?x) n nt1)"
    using fib_table.insert_at [OF I(1) assms(2), of ?x] by blast
  show ?thesis
  proof (cases "fib_at (fib_nt f) n")
    case None
    have "fib_dom (f\<lparr>fib_nt := setFibEntry (Some ?x) n nt1, fib_nItems := c\<rparr>) = insert n (fib_dom f)" for c
      using nt1(4) by (auto simp: fib_dom_def)
    moreover have "n \<notin> fib_dom f" using None by (simp add: fib_dom_def)
    ultimately have "fib_inv (f\<lparr>fib_nt := setFibEntry (Some ?x) n nt1, fib_nItems := fib_nItems f + 1\<rparr>)"
      using I nt1(4,5) by (simp add: fib_inv_def)
    with None nt1 show ?thesis
      by (auto simp: fib_insert_def fib_abs_def fun_eq_iff)
  next
    case (Some e)
    have "fib_inv (f\<lparr>fib_nt := nt1\<rparr>)" using I nt1(2,3) by (simp add: fib_inv_def fib_dom_def)
    with Some nt1 show ?thesis
      by (auto simp: fib_insert_def fib_abs_def fun_eq_iff)
  qed
qed

lemma fib_set_refines:
  assumes "fib_inv f" "fib_at (fib_nt f) n = Some e" "fib_entry_ok n e'"
  shows "fib_inv (f\<lparr>fib_nt := setFibEntry (Some e') n (fib_nt f)\<rparr>)"
    "fib_abs (f\<lparr>fib_nt := setFibEntry (Some e') n (fib_nt f)\<rparr>) = (fib_abs f)(n \<mapsto> cost_of (fe_nextHops e'))"
proof -
  note I = fib_invD [OF assms(1)]
  have ex: "map_of (fib_nt f) n \<noteq> None" by (rule fib_at_exists) (simp add: assms(2))
  have at: "fib_at (setFibEntry (Some e') n (fib_nt f)) = (fib_at (fib_nt f))(n \<mapsto> e')"
    using ex by (rule fib_table.at_set)
  have "fib_dom (f\<lparr>fib_nt := setFibEntry (Some e') n (fib_nt f)\<rparr>) = fib_dom f"
    using at assms(2) by (auto simp: fib_dom_def)
  then show "fib_inv (f\<lparr>fib_nt := setFibEntry (Some e') n (fib_nt f)\<rparr>)"
    using I at assms(3) fib_table.inv_set [OF I(1)] by (simp add: fib_inv_def)
  show "fib_abs (f\<lparr>fib_nt := setFibEntry (Some e') n (fib_nt f)\<rparr>) = (fib_abs f)(n \<mapsto> cost_of (fe_nextHops e'))"
    using at by (auto simp: fib_abs_def)
qed

lemma fib_addOrUpdateNextHop_refines:
  assumes "fib_inv f" "fib_abs f n = Some costs" "fib_addOrUpdateNextHop n face c f = (f', sig)"
  shows "fib_inv f' \<and> fib_abs f' = (fib_abs f)(n \<mapsto> costs(face \<mapsto> c)) \<and> (sig \<noteq> None \<longleftrightarrow> costs face = None)"
proof -
  obtain e where e: "fib_at (fib_nt f) n = Some e" "costs = cost_of (fe_nextHops e)"
    using assms(2) by (auto simp: fib_abs_def)
  have ok: "fib_entry_ok n e" using fib_invD(2) [OF assms(1) e(1)] .
  obtain e' it isNew where e': "entry_addOrUpdateNextHop e face c = (e', it, isNew)" by (metis prod_cases3)
  have nh: "nexthops_ok (fe_nextHops e)" using ok by (simp add: fib_entry_ok_def)
  note S = entry_addOrUpdateNextHop_spec [OF nh e']
  have "fib_entry_ok n e'" using ok S by (simp add: fib_entry_ok_def)
  from fib_set_refines [OF assms(1) e(1) this] S e e' assms(3) show ?thesis
    by (auto simp: fib_addOrUpdateNextHop_def)
qed

lemma fib_erase_nte_refines:
  assumes "fib_inv f" "fib_abs f n \<noteq> None"
  shows "fib_inv (fib_erase_nte n b f) \<and> fib_abs (fib_erase_nte n b f) = (fib_abs f)(n := None)"
proof -
  note I = fib_invD [OF assms(1)]
  have n: "fib_at (fib_nt f) n \<noteq> None" using assms(2) by (simp add: fib_abs_def)
  then have ex: "map_of (fib_nt f) n \<noteq> None" by (rule fib_at_exists)
  define nt where "nt = fib_nt (fib_erase_nte n b f)"
  have at: "fib_at nt = (fib_at (fib_nt f))(n := None)" "nt_inv nt"
    using fib_table.erase_at [OF I(1) ex, of "fst (eraseIfEmpty n True (setFibEntry None n (fib_nt f)))"]
      fib_table.at_set [OF ex, of None] fib_table.inv_set [OF I(1), of None n]
    by (auto simp: nt_def fib_erase_nte_def Let_def) (metis prod.collapse)+
  have "fib_dom (fib_erase_nte n b f) = fib_dom f - {n}"
    using at(1) by (auto simp: fib_dom_def nt_def)
  moreover have "n \<in> fib_dom f" using n by (simp add: fib_dom_def)
  moreover have "fib_nItems (fib_erase_nte n b f) = fib_nItems f - 1"
    by (simp add: fib_erase_nte_def Let_def)
  ultimately have "fib_nItems (fib_erase_nte n b f) = word_of_nat (card (fib_dom (fib_erase_nte n b f)))"
    unfolding I(3) by (simp only: card.remove [OF finite_fib_dom] of_nat_Suc) simp
  with at I(2) show ?thesis
    by (auto simp: fib_inv_def fib_abs_def nt_def fun_eq_iff)
qed

lemma fib_removeNextHop_refines:
  assumes "fib_inv f" "fib_abs f n = Some costs" "fib_removeNextHop n face f = (f', r)"
  shows "fib_inv f' \<and>
    (case costs face of
       None \<Rightarrow> r = NO_SUCH_NEXTHOP \<and> f' = f
     | Some _ \<Rightarrow> (if costs(face := None) = Map.empty
          then r = FIB_ENTRY_REMOVED \<and> fib_abs f' = (fib_abs f)(n := None)
          else r = NEXTHOP_REMOVED \<and> fib_abs f' = (fib_abs f)(n \<mapsto> costs(face := None))))"
proof -
  obtain e where e: "fib_at (fib_nt f) n = Some e" "costs = cost_of (fe_nextHops e)"
    using assms(2) by (auto simp: fib_abs_def)
  have ok: "fib_entry_ok n e" using fib_invD(2) [OF assms(1) e(1)] .
  obtain e' b where e': "entry_removeNextHop e face = (e', b)" by fastforce
  have nh: "nexthops_ok (fe_nextHops e)" using ok by (simp add: fib_entry_ok_def)
  note S = entry_removeNextHop_spec [OF nh e']
  have ok': "fib_entry_ok n e'" using ok S by (simp add: fib_entry_ok_def)
  have empty: "fe_nextHops e' = [] \<longleftrightarrow> costs(face := None) = Map.empty"
    unfolding e(2) S(2) [symmetric] by (auto simp: cost_of_def)
  note R = fib_set_refines [OF assms(1) e(1) ok']
  let ?f = "f\<lparr>fib_nt := setFibEntry (Some e') n (fib_nt f)\<rparr>"
  have "fib_inv (fib_erase_nte n False ?f) \<and> fib_abs (fib_erase_nte n False ?f) = (fib_abs f)(n := None)"
    using fib_erase_nte_refines [OF R(1), of n False] R(2) by simp
  with R S(2,3) e e' empty assms(1,3) show ?thesis
    by (auto simp: fib_removeNextHop_def split: option.splits if_splits)
qed

section \<open>Properties\<close>

text \<open>
  C20: On the FIB as a map from names to next-hop costs, adding or updating a next hop of an entry sets
  that face's cost and signals a new next hop exactly when there was none; removing one deletes that
  face's cost, and the whole entry with the last one.  The invariant is kept: next hops ordered by cost,
  one per face, the item counter exact.
\<close>

theorem fib_next_hops:
  assumes "fib_inv f" "fib_abs f n = Some costs"
  shows "(\<exists>f' sig. fib_addOrUpdateNextHop n face c f = (f', sig) \<and> fib_inv f' \<and> fib_abs f' = (fib_abs f)(n \<mapsto> costs(face \<mapsto> c)) \<and>
      (sig \<noteq> None \<longleftrightarrow> costs face = None)) \<and>
    (\<exists>f' r. fib_removeNextHop n face f = (f', r) \<and> fib_inv f' \<and>
      (case costs face of
         None \<Rightarrow> r = NO_SUCH_NEXTHOP \<and> f' = f
       | Some _ \<Rightarrow> (if costs(face := None) = Map.empty
            then r = FIB_ENTRY_REMOVED \<and> fib_abs f' = (fib_abs f)(n := None)
            else r = NEXTHOP_REMOVED \<and> fib_abs f' = (fib_abs f)(n \<mapsto> costs(face := None)))))"
proof -
  obtain f1 sig where a: "fib_addOrUpdateNextHop n face c f = (f1, sig)" by force
  obtain f2 r where b: "fib_removeNextHop n face f = (f2, r)" by force
  from fib_addOrUpdateNextHop_refines [OF assms a] fib_removeNextHop_refines [OF assms b] show ?thesis unfolding a b by simp
qed

theorem fib_next_hops_witness:
  "\<exists>f f' sig. fib_insert [Component 8 [1]] (\<lparr>fib_nt = [], fib_nItems = 0\<rparr> :: (nat, nat) fib) = Inr (f, True) \<and>
     fib_addOrUpdateNextHop [Component 8 [1]] 3 10 f = (f', sig) \<and> fib_abs f' [Component 8 [1]] = Some [3 \<mapsto> 10] \<and> sig \<noteq> None"
proof -
  let ?f0 = "\<lparr>fib_nt = [], fib_nItems = 0\<rparr> :: (nat, nat) fib"
  have i: "fib_inv ?f0" by (simp add: fib_inv_def nt_inv_empty fib_dom_def)
  obtain f isNew where f: "fib_insert [Component 8 [1]] ?f0 = Inr (f, isNew)" "fib_inv f" "isNew = (fib_abs ?f0 [Component 8 [1]] = None)"
      "fib_abs f = (if isNew then (fib_abs ?f0)([Component 8 [1]] \<mapsto> Map.empty) else fib_abs ?f0)"
    using fib_insert_refines [OF i, of "[Component 8 [1]]"] by (auto simp: getMaxDepth_def)
  have "isNew" using f(3) by (simp add: fib_abs_def)
  then have "fib_abs f [Component 8 [1]] = Some Map.empty" using f(4) by simp
  from fib_next_hops [OF f(2) this, of 3 10] f(1) \<open>isNew\<close> show ?thesis by auto
qed

text \<open>
  The next hops used for a name are those of the longest prefix with a FIB entry; without any, the
  empty entry is used, which has none.
\<close>

theorem fib_longest_prefix:
  "(\<exists>p e. prefix p n \<and> fib_at nt p = Some e \<and> fib_findLongestPrefixMatch nt n = e \<and>
      (\<forall>q. prefix q n \<and> length p < length q \<and> length q \<le> getMaxDepth \<longrightarrow> fib_at nt q = None)) \<or>
   (\<forall>q. prefix q n \<and> length q \<le> getMaxDepth \<longrightarrow> fib_at nt q = None) \<and> fe_nextHops (fib_findLongestPrefixMatch nt n) = []"
proof (cases "find (\<lambda>p. fib_at nt p \<noteq> None) (candidates n)")
  case None
  then show ?thesis
    using candidates_none [of "\<lambda>p. fib_at nt p \<noteq> None" n]
    by (auto simp: fib_findLongestPrefixMatch_def fib_table.lpm_at entry_at_def s_emptyEntry_def new_fib_entry_def)
next
  case (Some p)
  from candidates_longest [OF Some] Some show ?thesis
    by (auto simp: fib_findLongestPrefixMatch_def fib_table.lpm_at entry_at_def)
qed

theorem fib_longest_prefix_witness:
  "fe_nextHops (fib_findLongestPrefixMatch ([] :: (nat, nat) fib_tree) [Component 8 [1]]) = []"
  using fib_longest_prefix [of "[Component 8 [1]]" "[] :: (nat, nat) fib_tree"] by auto

end
