(* ===== verification/Pit.thy ===== *)
theory Pit
  imports Fib
begin

text \<open>
  The Pending Interest Table: \<open>NFD/daemon/table/pit-entry.cpp\<close>, \<open>pit-face-record.cpp\<close>,
  \<open>pit-in-record.cpp\<close>, \<open>pit-out-record.cpp\<close> and \<open>pit.cpp\<close>.  PIT entries and Interests are
  objects shared by pointer in the code (\<open>shared_ptr\<close>), so both live in stores indexed by
  references.  Clock readings are nanoseconds, Interest lifetimes milliseconds.
\<close>

type_synonym iref = nat
type_synonym interest_store = "iref \<Rightarrow> interest"

section \<open>Lists of records searched by face\<close>

fun update_first :: "('a \<Rightarrow> bool) \<Rightarrow> ('a \<Rightarrow> 'a) \<Rightarrow> 'a list \<Rightarrow> 'a list" where
  "update_first P f [] = []"
| "update_first P f (x # xs) = (if P x then f x # xs else x # update_first P f xs)"

fun delete_first :: "('a \<Rightarrow> bool) \<Rightarrow> 'a list \<Rightarrow> 'a list" where
  "delete_first P [] = []"
| "delete_first P (x # xs) = (if P x then xs else x # delete_first P xs)"

text \<open>\<open>find_if\<close>, then \<open>emplace_front\<close> when there is none, then an update in place.\<close>

definition upsert :: "('a \<Rightarrow> bool) \<Rightarrow> 'a \<Rightarrow> ('a \<Rightarrow> 'a) \<Rightarrow> 'a list \<Rightarrow> 'a list" where
  "upsert P new f xs = (if find P xs = None then f new # xs else update_first P f xs)"

section \<open>Records and entries\<close>

record in_record =
  ir_face :: face_id
  ir_lastNonce :: "32 word"
  ir_lastRenewed :: time
  ir_expiry :: time
  ir_interest :: iref

record out_record =
  or_face :: face_id
  or_lastNonce :: "32 word"
  or_lastRenewed :: time
  or_expiry :: time
  or_incomingNack :: "nack_reason option"
  or_suppression :: "int option"

record pit_entry =
  pe_interest :: iref
  pe_in :: "in_record list"
  pe_out :: "out_record list"
  pe_expiryTimer :: "time option"
  pe_isSatisfied :: bool
  pe_dataFreshnessPeriod :: int
  pe_nte :: "name option"
  pe_suppression :: "int option"

definition MAX_LIFETIME :: int where "MAX_LIFETIME = 10 * 24 * 3600 * 1000"

text \<open>
  \<open>getNonce\<close> on an Interest that already has one; the incoming Interest pipeline makes sure of
  it before any record is updated.
\<close>

definition nonce_of :: "interest \<Rightarrow> 32 word" where
  "nonce_of i = (case i_nonce i of Some n \<Rightarrow> n | None \<Rightarrow> 0)"

definition expiry_of :: "time \<Rightarrow> interest \<Rightarrow> time" where
  "expiry_of now i = now + min (i_lifetime i) MAX_LIFETIME * 1000000"

definition inRecord_update :: "time \<Rightarrow> iref \<Rightarrow> interest \<Rightarrow> in_record \<Rightarrow> in_record" where
  "inRecord_update now r i rec =
     rec\<lparr>ir_lastNonce := nonce_of i, ir_lastRenewed := now, ir_expiry := expiry_of now i, ir_interest := r\<rparr>"

definition outRecord_update :: "time \<Rightarrow> interest \<Rightarrow> out_record \<Rightarrow> out_record" where
  "outRecord_update now i rec =
     rec\<lparr>or_lastNonce := nonce_of i, or_lastRenewed := now, or_expiry := expiry_of now i\<rparr>"

definition new_in_record :: "face_id \<Rightarrow> in_record" where
  "new_in_record face = \<lparr>ir_face = face, ir_lastNonce = 0, ir_lastRenewed = - (2 ^ 63),
     ir_expiry = - (2 ^ 63), ir_interest = 0\<rparr>"

definition new_out_record :: "face_id \<Rightarrow> out_record" where
  "new_out_record face = \<lparr>or_face = face, or_lastNonce = 0, or_lastRenewed = - (2 ^ 63),
     or_expiry = - (2 ^ 63), or_incomingNack = None, or_suppression = None\<rparr>"

definition setIncomingNack :: "interest \<Rightarrow> nack_reason \<Rightarrow> out_record \<Rightarrow> out_record \<times> bool" where
  "setIncomingNack i reason rec =
     (if nonce_of i \<noteq> or_lastNonce rec then (rec, False)
      else (rec\<lparr>or_incomingNack := Some reason\<rparr>, True))"

definition new_pit_entry :: "iref \<Rightarrow> pit_entry" where
  "new_pit_entry r = \<lparr>pe_interest = r, pe_in = [], pe_out = [], pe_expiryTimer = None,
     pe_isSatisfied = False, pe_dataFreshnessPeriod = 0, pe_nte = None, pe_suppression = None\<rparr>"

text \<open>\<open>canMatch\<close> asserts that the first components agree and compares the rest.\<close>

definition canMatch :: "interest \<Rightarrow> interest \<Rightarrow> nat \<Rightarrow> bool res" where
  "canMatch own i nEqualNameComps =
     assert_res (name_compare_range (i_name own) 0 nEqualNameComps (i_name i) 0 nEqualNameComps = 0)
       (Inr (name_compare_range (i_name own) nEqualNameComps (length (i_name own))
               (i_name i) nEqualNameComps (length (i_name i)) = 0 \<and>
             i_canBePrefix own = i_canBePrefix i \<and> i_mustBeFresh own = i_mustBeFresh i))"

definition getInRecord :: "pit_entry \<Rightarrow> face_id \<Rightarrow> in_record option" where
  "getInRecord e face = find (\<lambda>r. ir_face r = face) (pe_in e)"

definition getOutRecord :: "pit_entry \<Rightarrow> face_id \<Rightarrow> out_record option" where
  "getOutRecord e face = find (\<lambda>r. or_face r = face) (pe_out e)"

definition insertOrUpdateInRecord ::
    "interest_store \<Rightarrow> time \<Rightarrow> face_id \<Rightarrow> iref \<Rightarrow> pit_entry \<Rightarrow> pit_entry res" where
  "insertOrUpdateInRecord h now face r e =
     bind_res (canMatch (h (pe_interest e)) (h r) 0) (\<lambda>ok. assert_res ok
       (Inr (e\<lparr>pe_in := upsert (\<lambda>rec. ir_face rec = face) (new_in_record face)
                 (inRecord_update now r (h r)) (pe_in e)\<rparr>)))"

definition insertOrUpdateOutRecord ::
    "interest_store \<Rightarrow> time \<Rightarrow> face_id \<Rightarrow> iref \<Rightarrow> pit_entry \<Rightarrow> pit_entry res" where
  "insertOrUpdateOutRecord h now face r e =
     bind_res (canMatch (h (pe_interest e)) (h r) 0) (\<lambda>ok. assert_res ok
       (Inr (e\<lparr>pe_out := upsert (\<lambda>rec. or_face rec = face) (new_out_record face)
                 (outRecord_update now (h r)) (pe_out e)\<rparr>)))"

definition deleteInRecord :: "face_id \<Rightarrow> pit_entry \<Rightarrow> pit_entry" where
  "deleteInRecord face e = e\<lparr>pe_in := delete_first (\<lambda>rec. ir_face rec = face) (pe_in e)\<rparr>"

definition deleteOutRecord :: "face_id \<Rightarrow> pit_entry \<Rightarrow> pit_entry" where
  "deleteOutRecord face e = e\<lparr>pe_out := delete_first (\<lambda>rec. or_face rec = face) (pe_out e)\<rparr>"

definition clearInRecords :: "pit_entry \<Rightarrow> pit_entry" where
  "clearInRecords e = e\<lparr>pe_in := []\<rparr>"

section \<open>The table\<close>

record ('f, 'm, 's) pit =
  pit_nt :: "('f, 'm, 's) name_tree"
  pit_entries :: "pit_ref \<Rightarrow> pit_entry"
  pit_next :: pit_ref
  pit_nItems :: "64 word"

definition entry_interest :: "interest_store \<Rightarrow> ('f, 'm, 's) pit \<Rightarrow> pit_ref \<Rightarrow> interest" where
  "entry_interest h p r = h (pe_interest (pit_entries p r))"

definition findBasedOnName :: "interest_store \<Rightarrow> name \<Rightarrow> ('f, 'm, 's) pit \<Rightarrow> pit_ref option" where
  "findBasedOnName h n p =
     (case findExactMatch n (length n) (pit_nt p) of
        None \<Rightarrow> None
      | Some nte \<Rightarrow> find (\<lambda>r. i_name (entry_interest h p r) = n) (pit_at (pit_nt p) nte))"

definition nteDepth :: "name \<Rightarrow> nat" where
  "nteDepth n =
     (let hasDigest = (0 < length n \<and> isImplicitSha256Digest (last n))
      in min (length n - (if hasDigest then 1 else 0)) getMaxDepth)"

fun find_res :: "('a \<Rightarrow> bool res) \<Rightarrow> 'a list \<Rightarrow> 'a option res" where
  "find_res P [] = Inr None"
| "find_res P (x # xs) = bind_res (P x) (\<lambda>b. if b then Inr (Some x) else find_res P xs)"

definition findOrInsert ::
    "interest_store \<Rightarrow> iref \<Rightarrow> bool \<Rightarrow> ('f, 'm, 's) pit \<Rightarrow> (('f, 'm, 's) pit \<times> pit_ref option \<times> bool) res" where
  "findOrInsert h r allowInsert p =
     (let n = i_name (h r);
          depth = nteDepth n;
          nte = take depth n
      in bind_res
           (if allowInsert then bind_res (nt_lookup n depth (pit_nt p)) (\<lambda>nt. Inr (Some nt))
            else Inr (if findExactMatch n depth (pit_nt p) = None then None else Some (pit_nt p)))
           (\<lambda>found. case found of
              None \<Rightarrow> Inr (p, None, True)
            | Some nt \<Rightarrow>
                bind_res (find_res (\<lambda>e. canMatch (entry_interest h p e) (h r) depth) (pit_at nt nte))
                  (\<lambda>hit. case hit of
                     Some e \<Rightarrow> Inr (p\<lparr>pit_nt := nt\<rparr>, Some e, False)
                   | None \<Rightarrow>
                       if \<not> allowInsert
                       then assert_res (\<not> isEmpty_nte (the (map_of nt nte))) (Inr (p, None, True))
                       else Inr (p\<lparr>pit_nt := insertPitEntry (pit_next p) nte nt,
                                   pit_entries := (pit_entries p)(pit_next p :=
                                     (new_pit_entry r)\<lparr>pe_nte := Some nte\<rparr>),
                                   pit_next := Suc (pit_next p),
                                   pit_nItems := pit_nItems p + 1\<rparr>, Some (pit_next p), True))))"

definition nteHasPitEntries :: "('f, 'm, 's) nte \<Rightarrow> bool" where
  "nteHasPitEntries e = (nte_pit e \<noteq> [])"

definition findAllDataMatches :: "interest_store \<Rightarrow> data \<Rightarrow> ('f, 'm, 's) pit \<Rightarrow> pit_ref list" where
  "findAllDataMatches h d p =
     concat (map (\<lambda>nte. filter (\<lambda>r. matchesData (entry_interest h p r) d) (pit_at (pit_nt p) nte))
       (findAllMatches (d_name d) (\<lambda>_ e. nteHasPitEntries e) (pit_nt p)))"

definition pit_erase :: "pit_ref \<Rightarrow> bool \<Rightarrow> ('f, 'm, 's) pit \<Rightarrow> ('f, 'm, 's) pit res" where
  "pit_erase r canDeleteNte p =
     (case pe_nte (pit_entries p r) of
        None \<Rightarrow> Inl AssertionFailed
      | Some nte \<Rightarrow>
          (let nt = erasePitEntry r nte (pit_nt p);
               nt = (if canDeleteNte then fst (eraseIfEmpty nte True nt) else nt)
           in Inr (p\<lparr>pit_nt := nt,
                     pit_entries := (pit_entries p)(r := (pit_entries p r)\<lparr>pe_nte := None\<rparr>),
                     pit_nItems := pit_nItems p - 1\<rparr>)))"

definition deleteInOutRecords :: "face_id \<Rightarrow> pit_entry \<Rightarrow> pit_entry" where
  "deleteInOutRecords face e = deleteOutRecord face (deleteInRecord face e)"

text \<open>
  An entry is attached while the table holds it.  The invariant: an attached entry sits in the tree
  entry its name selects and nowhere else, no two match the same Interests, records have distinct
  faces, and the item count is right.
\<close>

definition attached :: "('f, 'm, 's) pit \<Rightarrow> pit_ref \<Rightarrow> bool" where
  "attached p r \<longleftrightarrow> r < pit_next p \<and> pe_nte (pit_entries p r) \<noteq> None"

definition records_ok :: "pit_entry \<Rightarrow> bool" where
  "records_ok e \<longleftrightarrow> distinct (map ir_face (pe_in e)) \<and> distinct (map or_face (pe_out e))"

definition pit_nte_of :: "name \<Rightarrow> name" where
  "pit_nte_of n = take (nteDepth n) n"

definition empty_pit :: "('f, 'm, 's) pit" where
  "empty_pit = \<lparr>pit_nt = [], pit_entries = (\<lambda>_. new_pit_entry 0), pit_next = 0, pit_nItems = 0\<rparr>"

definition pit_inv :: "interest_store \<Rightarrow> ('f, 'm, 's) pit \<Rightarrow> bool" where
  "pit_inv h p \<longleftrightarrow>
     nt_inv (pit_nt p) \<and> nt_tight (pit_nt p) \<and>
     (\<forall>n r. r \<in> set (pit_at (pit_nt p) n) \<longleftrightarrow> attached p r \<and> pe_nte (pit_entries p r) = Some n) \<and>
     (\<forall>n. distinct (pit_at (pit_nt p) n)) \<and>
     (\<forall>r. attached p r \<longrightarrow> pe_nte (pit_entries p r) = Some (pit_nte_of (i_name (entry_interest h p r)))) \<and>
     (\<forall>r r'. attached p r \<and> attached p r' \<and> matchesInterest (entry_interest h p r) (entry_interest h p r') \<longrightarrow> r = r') \<and>
     (\<forall>r. records_ok (pit_entries p r)) \<and>
     pit_nItems p = word_of_nat (card {r. attached p r})"

definition pit_modify :: "pit_ref \<Rightarrow> (pit_entry \<Rightarrow> pit_entry) \<Rightarrow> ('f, 'm, 's) pit \<Rightarrow> ('f, 'm, 's) pit" where
  "pit_modify r f p = p\<lparr>pit_entries := (pit_entries p)(r := f (pit_entries p r))\<rparr>"

definition keeps_identity :: "(pit_entry \<Rightarrow> pit_entry) \<Rightarrow> bool" where
  "keeps_identity f \<longleftrightarrow>
     (\<forall>e. pe_interest (f e) = pe_interest e \<and> pe_nte (f e) = pe_nte e \<and> (records_ok e \<longrightarrow> records_ok (f e)))"

section \<open>Record lists: laws\<close>

lemma find_update_first:
  assumes "\<And>x. P x \<Longrightarrow> P (f x)"
  shows "find P (update_first P f xs) = map_option f (find P xs)"
  using assms by (induction xs) auto

lemma map_update_first:
  "(\<And>x. P x \<Longrightarrow> g (f x) = g x) \<Longrightarrow> map g (update_first P f xs) = map g xs"
  by (induction xs) auto

lemma set_delete_first_subset: "set (delete_first P xs) \<subseteq> set xs"
  by (induction xs) auto

lemma delete_first_filter:
  "distinct (map k xs) \<Longrightarrow> delete_first (\<lambda>x. k x = a) xs = filter (\<lambda>x. k x \<noteq> a) xs"
  by (induction xs) (auto simp: image_iff intro!: filter_True [symmetric])

lemma distinct_delete_first: "distinct (map k xs) \<Longrightarrow> distinct (map k (delete_first P xs))"
  by (induction xs) (auto dest: set_delete_first_subset [THEN subsetD])

text \<open>
  A list of records with distinct keys is a map from keys to records; upsert and delete are
  update and removal of that map.
\<close>

locale record_list =
  fixes key :: "'r \<Rightarrow> 'k"
begin

definition lookup :: "'r list \<Rightarrow> 'k \<rightharpoonup> 'r" where
  "lookup xs k = find (\<lambda>x. key x = k) xs"

lemma lookup_upsert:
  assumes "\<And>x. key (f x) = key x" "key new = k"
  shows "lookup (upsert (\<lambda>x. key x = k) new f xs) =
    (lookup xs)(k \<mapsto> f (case lookup xs k of None \<Rightarrow> new | Some x \<Rightarrow> x))"
proof
  fix j
  have upd: "find (\<lambda>x. key x = j) (update_first (\<lambda>x. key x = k) f xs) =
      (if j = k then map_option f (find (\<lambda>x. key x = k) xs) else find (\<lambda>x. key x = j) xs)"
    using assms(1) by (induction xs) auto
  show "lookup (upsert (\<lambda>x. key x = k) new f xs) j =
      ((lookup xs)(k \<mapsto> f (case lookup xs k of None \<Rightarrow> new | Some x \<Rightarrow> x))) j"
  proof (cases "find (\<lambda>x. key x = k) xs")
    case None
    then show ?thesis using assms by (auto simp: lookup_def upsert_def)
  next
    case (Some x)
    then show ?thesis by (simp add: lookup_def upsert_def upd)
  qed
qed

lemma distinct_upsert:
  assumes "\<And>x. key (f x) = key x" "key new = k" "distinct (map key xs)"
  shows "distinct (map key (upsert (\<lambda>x. key x = k) new f xs))"
  using assms by (auto simp: upsert_def map_update_first find_None_iff)

lemma lookup_delete:
  assumes "distinct (map key xs)"
  shows "lookup (delete_first (\<lambda>x. key x = k) xs) = (lookup xs)(k := None)"
proof
  fix j
  show "lookup (delete_first (\<lambda>x. key x = k) xs) j = ((lookup xs)(k := None)) j"
    using assms by (induction xs) (auto simp: lookup_def find_None_iff image_iff)
qed

lemma lookup_Some:
  assumes "distinct (map key xs)"
  shows "lookup xs k = Some x \<longleftrightarrow> x \<in> set xs \<and> key x = k"
  using assms by (induction xs) (auto simp: lookup_def)

end

interpretation in_list: record_list ir_face .

interpretation out_list: record_list or_face .

section \<open>The invariant of the table\<close>

lemma name_compare_range_take: "name_compare_range n 0 k m 0 k = 0 \<longleftrightarrow> take k n = take k m"
  by (simp add: name_compare_range_def compare_loop_eq_0 min_def)

lemma name_compare_range_drop:
  "name_compare_range n k (length n) m k (length m) = 0 \<longleftrightarrow> drop k n = drop k m"
  by (simp add: name_compare_range_def compare_loop_eq_0 min_def)

lemma canMatch_matches:
  "take k (i_name own) = take k (i_name i) \<Longrightarrow> canMatch own i k = Inr (matchesInterest own i)"
  unfolding canMatch_def name_compare_range_take name_compare_range_drop matchesInterest_def
  by simp (metis append_take_drop_id)

lemma canMatch_0: "canMatch own i 0 = Inr (matchesInterest own i)"
  by (rule canMatch_matches) simp

lemma find_res_pure: "(\<And>x. x \<in> set xs \<Longrightarrow> P x = Inr (Q x)) \<Longrightarrow> find_res P xs = Inr (find Q xs)"
  by (induction xs) auto

lemma nteDepth_le: "nteDepth n \<le> length n" "nteDepth n \<le> getMaxDepth"
  by (auto simp: nteDepth_def Let_def)

lemma pit_invD:
  assumes "pit_inv h p"
  shows "nt_inv (pit_nt p)" "nt_tight (pit_nt p)"
    "r \<in> set (pit_at (pit_nt p) n) \<longleftrightarrow> attached p r \<and> pe_nte (pit_entries p r) = Some n"
    "distinct (pit_at (pit_nt p) n)"
    "attached p r \<Longrightarrow> pe_nte (pit_entries p r) = Some (pit_nte_of (i_name (entry_interest h p r)))"
    "attached p r \<Longrightarrow> attached p r' \<Longrightarrow> matchesInterest (entry_interest h p r) (entry_interest h p r') \<Longrightarrow> r = r'"
    "records_ok (pit_entries p r)"
    "pit_nItems p = word_of_nat (card {r. attached p r})"
  using assms unfolding pit_inv_def by blast+

lemma finite_attached [simp]: "finite {r. attached p r}"
  by (rule finite_subset [of _ "{..<pit_next p}"]) (auto simp: attached_def)

lemma matchesInterest_sym: "matchesInterest i j \<longleftrightarrow> matchesInterest j i"
  by (auto simp: matchesInterest_def)

lemma matchesInterest_trans: "matchesInterest i j \<Longrightarrow> matchesInterest j k \<Longrightarrow> matchesInterest i k"
  by (simp add: matchesInterest_def)

lemma matchesInterest_refl [simp]: "matchesInterest i i"
  by (simp add: matchesInterest_def)

lemma pit_at_name:
  assumes "pit_inv h p" "r \<in> set (pit_at (pit_nt p) (pit_nte_of n))"
  shows "take (nteDepth n) (i_name (entry_interest h p r)) = take (nteDepth n) n"
proof -
  let ?m = "i_name (entry_interest h p r)"
  have "attached p r" "pe_nte (pit_entries p r) = Some (pit_nte_of n)"
    using assms pit_invD(3) [OF assms(1)] by auto
  then have eq: "take (nteDepth ?m) ?m = take (nteDepth n) n"
    using pit_invD(5) [OF assms(1)] by (simp add: pit_nte_of_def)
  then have "nteDepth ?m = nteDepth n"
    using nteDepth_le(1) [of n] nteDepth_le(1) [of ?m] by (metis length_take min.absorb2)
  with eq show ?thesis by simp
qed

lemma find_SomeD: "find P xs = Some x \<Longrightarrow> x \<in> set xs \<and> P x"
  by (induction xs) (auto split: if_splits)

lemma find_entry:
  assumes "pit_inv h p"
  shows "find_res (\<lambda>e. canMatch (entry_interest h p e) i (nteDepth (i_name i))) (pit_at (pit_nt p) (pit_nte_of (i_name i)))
    = Inr (find (\<lambda>e. matchesInterest (entry_interest h p e) i) (pit_at (pit_nt p) (pit_nte_of (i_name i))))"
  by (rule find_res_pure) (simp add: canMatch_matches pit_at_name [OF assms])

lemma find_entry_Some:
  assumes "pit_inv h p"
  shows "find (\<lambda>e. matchesInterest (entry_interest h p e) i) (pit_at (pit_nt p) (pit_nte_of (i_name i))) = Some r
    \<longleftrightarrow> attached p r \<and> matchesInterest (entry_interest h p r) i"
proof
  assume "find (\<lambda>e. matchesInterest (entry_interest h p e) i) (pit_at (pit_nt p) (pit_nte_of (i_name i))) = Some r"
  then have "r \<in> set (pit_at (pit_nt p) (pit_nte_of (i_name i)))" "matchesInterest (entry_interest h p r) i"
    by (auto simp: find_Some_iff)
  with pit_invD(3) [OF assms] show "attached p r \<and> matchesInterest (entry_interest h p r) i" by blast
next
  assume r: "attached p r \<and> matchesInterest (entry_interest h p r) i"
  then have "r \<in> set (pit_at (pit_nt p) (pit_nte_of (i_name i)))"
    using pit_invD(3,5) [OF assms] by (simp add: matchesInterest_def)
  then obtain r' where r': "find (\<lambda>e. matchesInterest (entry_interest h p e) i) (pit_at (pit_nt p) (pit_nte_of (i_name i))) = Some r'"
    using r by (cases "find (\<lambda>e. matchesInterest (entry_interest h p e) i) (pit_at (pit_nt p) (pit_nte_of (i_name i)))")
      (auto simp: find_None_iff)
  then have "attached p r'" "matchesInterest (entry_interest h p r') i"
    using pit_invD(3) [OF assms] find_SomeD by fast+
  then have "r' = r"
    using r pit_invD(6) [OF assms] matchesInterest_trans matchesInterest_sym by blast
  with r' show "find (\<lambda>e. matchesInterest (entry_interest h p e) i) (pit_at (pit_nt p) (pit_nte_of (i_name i))) = Some r" by simp
qed

lemma find_entry_None:
  assumes "pit_inv h p"
  shows "find (\<lambda>e. matchesInterest (entry_interest h p e) i) (pit_at (pit_nt p) (pit_nte_of (i_name i))) = None
    \<longleftrightarrow> \<not> (\<exists>r. attached p r \<and> matchesInterest (entry_interest h p r) i)"
  using find_entry_Some [OF assms, of i] by (metis not_Some_eq)

section \<open>Insertion\<close>

lemma nt_tight_insertPit:
  assumes "\<And>m e. m \<noteq> n \<Longrightarrow> map_of nt m = Some e \<Longrightarrow> \<not> isEmpty_nte e"
  shows "nt_tight (insertPitEntry r n nt)"
  using assms by (auto simp: nt_tight_def map_of_set_entries isEmpty_nte_def hasTableEntries_def split: if_splits)

definition pit_insert_new :: "interest_store \<Rightarrow> iref \<Rightarrow> ('f, 'm, 's) pit \<Rightarrow> ('f, 'm, 's) pit \<Rightarrow> bool" where
  "pit_insert_new h r p p' \<longleftrightarrow>
     pit_next p' = Suc (pit_next p) \<and>
     pit_entries p' = (pit_entries p)(pit_next p :=
       (new_pit_entry r)\<lparr>pe_nte := Some (pit_nte_of (i_name (h r)))\<rparr>) \<and>
     pit_nItems p' = pit_nItems p + 1 \<and>
     pit_at (pit_nt p') = (pit_at (pit_nt p))(pit_nte_of (i_name (h r)) :=
       pit_at (pit_nt p) (pit_nte_of (i_name (h r))) @ [pit_next p]) \<and>
     fib_at (pit_nt p') = fib_at (pit_nt p) \<and> meas_at (pit_nt p') = meas_at (pit_nt p) \<and>
     sc_at (pit_nt p') = sc_at (pit_nt p) \<and>
     nt_inv (pit_nt p') \<and> nt_tight (pit_nt p')"

lemma findOrInsert_old:
  assumes "pit_inv h p" "attached p e" "matchesInterest (entry_interest h p e) (h r)"
  shows "\<exists>nt'. findOrInsert h r True p = Inr (p\<lparr>pit_nt := nt'\<rparr>, Some e, False) \<and>
    nt_inv nt' \<and> nt_content nt' = nt_content (pit_nt p) \<and> nt_tight nt'"
proof -
  note I = pit_invD [OF assms(1)]
  let ?n = "i_name (h r)"
  obtain nt' where nt': "nt_lookup ?n (nteDepth ?n) (pit_nt p) = Inr nt'" "nt_inv nt'"
    "nt_content nt' = nt_content (pit_nt p)"
    "\<And>m. map_of nt' m \<noteq> None \<longleftrightarrow> map_of (pit_nt p) m \<noteq> None \<or> (\<exists>j \<le> nteDepth ?n. m = take j ?n)"
    using nt_lookup_Inr [OF I(1), of "nteDepth ?n" ?n] nteDepth_le [of ?n] by metis
  have at: "pit_at nt' = pit_at (pit_nt p)" using at_cong(2) [OF nt'(3)] .
  have f: "find (\<lambda>e. matchesInterest (entry_interest h p e) (h r)) (pit_at (pit_nt p) (pit_nte_of ?n)) = Some e"
    using find_entry_Some [OF assms(1)] assms(2,3) by blast
  then have ne: "pit_at nt' (pit_nte_of ?n) \<noteq> []" unfolding at by auto
  have "\<not> isEmpty_nte x" if "map_of nt' m = Some x" for m x
  proof (cases "m = take (nteDepth ?n) ?n")
    case True
    then show ?thesis
      using ne that by (auto simp: pit_nte_of_def isEmpty_nte_def hasTableEntries_def)
  next
    case False
    then show ?thesis
      using lookup_tight_except [OF I(1,2) nteDepth_le nt'(1) False that] by simp
  qed
  then have "nt_tight nt'" by (simp add: nt_tight_def)
  moreover have "findOrInsert h r True p = Inr (p\<lparr>pit_nt := nt'\<rparr>, Some e, False)"
    using find_entry [OF assms(1), of "h r"] f
    by (simp add: findOrInsert_def nt'(1) at pit_nte_of_def)
  ultimately show ?thesis using nt' by blast
qed

lemma findOrInsert_new:
  assumes "pit_inv h p" "\<not> (\<exists>e. attached p e \<and> matchesInterest (entry_interest h p e) (h r))"
  shows "\<exists>p'. findOrInsert h r True p = Inr (p', Some (pit_next p), True) \<and> pit_insert_new h r p p'"
proof -
  note I = pit_invD [OF assms(1)]
  let ?n = "i_name (h r)"
  obtain nt' where nt': "nt_lookup ?n (nteDepth ?n) (pit_nt p) = Inr nt'" "nt_inv nt'"
    "nt_content nt' = nt_content (pit_nt p)"
    "\<And>m. map_of nt' m \<noteq> None \<longleftrightarrow> map_of (pit_nt p) m \<noteq> None \<or> (\<exists>j \<le> nteDepth ?n. m = take j ?n)"
    using nt_lookup_Inr [OF I(1), of "nteDepth ?n" ?n] nteDepth_le [of ?n] by metis
  note at = at_cong [OF nt'(3)]
  have ex: "map_of nt' (pit_nte_of ?n) \<noteq> None" using nt'(4) unfolding pit_nte_of_def by blast
  let ?p = "p\<lparr>pit_nt := insertPitEntry (pit_next p) (pit_nte_of ?n) nt',
     pit_entries := (pit_entries p)(pit_next p := (new_pit_entry r)\<lparr>pe_nte := Some (pit_nte_of ?n)\<rparr>),
     pit_next := Suc (pit_next p), pit_nItems := pit_nItems p + 1\<rparr>"
  have "nt_tight (insertPitEntry (pit_next p) (pit_nte_of ?n) nt')"
    using lookup_tight_except [OF I(1,2) nteDepth_le nt'(1)]
    by (intro nt_tight_insertPit) (auto simp: pit_nte_of_def)
  then have "pit_insert_new h r p ?p"
    using at nt'(2) ex by (simp add: pit_insert_new_def nt_simps nt_inv_set)
  moreover have "findOrInsert h r True p = Inr (?p, Some (pit_next p), True)"
    using find_entry [OF assms(1), of "h r"] find_entry_None [OF assms(1), of "h r"] assms(2)
    by (simp add: findOrInsert_def nt'(1) at pit_nte_of_def Let_def)
  ultimately show ?thesis by blast
qed

lemma pit_inv_insert_new:
  assumes "pit_inv h p" "\<not> (\<exists>e. attached p e \<and> matchesInterest (entry_interest h p e) (h r))"
    and "pit_insert_new h r p p'"
  shows "pit_inv h p'"
proof -
  note I = pit_invD [OF assms(1)] and N = assms(3) [unfolded pit_insert_new_def]
  let ?n = "i_name (h r)"
  have att: "attached p' e \<longleftrightarrow> attached p e \<or> e = pit_next p" for e
    using N by (auto simp: attached_def)
  have old: "attached p e \<Longrightarrow> e \<noteq> pit_next p" for e by (simp add: attached_def)
  have ei: "entry_interest h p' e = (if e = pit_next p then h r else entry_interest h p e)" for e
    using N by (simp add: entry_interest_def new_pit_entry_def)
  have fresh: "pit_next p \<notin> set (pit_at (pit_nt p) n)" for n using I(3) old by blast
  have "{e. attached p' e} = insert (pit_next p) {e. attached p e}" using att by auto
  moreover have "pit_next p \<notin> {e. attached p e}" using old by blast
  ultimately have "pit_nItems p' = word_of_nat (card {e. attached p' e})"
    using N I(8) by simp
  moreover have "\<forall>n e. e \<in> set (pit_at (pit_nt p') n) \<longleftrightarrow> attached p' e \<and> pe_nte (pit_entries p' e) = Some n"
    using N I(3) att old fresh by auto
  moreover have "\<forall>n. distinct (pit_at (pit_nt p') n)" using N I(4) fresh by auto
  moreover have "\<forall>e. attached p' e \<longrightarrow> pe_nte (pit_entries p' e) = Some (pit_nte_of (i_name (entry_interest h p' e)))"
    using N I(5) att old by (auto simp: ei)
  moreover have "\<forall>e e'. attached p' e \<and> attached p' e' \<and> matchesInterest (entry_interest h p' e) (entry_interest h p' e') \<longrightarrow> e = e'"
    using I(6) assms(2) att old by (auto simp: ei matchesInterest_sym split: if_splits)
  moreover have "\<forall>e. records_ok (pit_entries p' e)"
    using N I(7) by (auto simp: records_ok_def new_pit_entry_def)
  ultimately show ?thesis using N unfolding pit_inv_def by blast
qed

lemma attached_nt [simp]: "attached (p\<lparr>pit_nt := nt\<rparr>) = attached p"
  by (simp add: attached_def fun_eq_iff)

lemma entry_interest_nt [simp]: "entry_interest h (p\<lparr>pit_nt := nt\<rparr>) = entry_interest h p"
  by (simp add: entry_interest_def fun_eq_iff)

lemma pit_inv_change_nt:
  assumes "pit_inv h p" "nt_inv nt'" "nt_tight nt'" "pit_at nt' = pit_at (pit_nt p)"
  shows "pit_inv h (p\<lparr>pit_nt := nt'\<rparr>)"
  using assms unfolding pit_inv_def by simp

section \<open>Finding, data matching and erasing\<close>

lemma findOrInsert_find:
  assumes "pit_inv h p"
  shows "findOrInsert h r False p =
    Inr (p, find (\<lambda>e. matchesInterest (entry_interest h p e) (h r)) (pit_at (pit_nt p) (pit_nte_of (i_name (h r)))),
         \<not> (\<exists>e. attached p e \<and> matchesInterest (entry_interest h p e) (h r)))"
proof -
  note I = pit_invD [OF assms]
  let ?n = "i_name (h r)" and ?m = "pit_nte_of (i_name (h r))"
  let ?f = "find (\<lambda>e. matchesInterest (entry_interest h p e) (h r)) (pit_at (pit_nt p) ?m)"
  have ex: "findExactMatch ?n (nteDepth ?n) (pit_nt p) = (if map_of (pit_nt p) ?m = None then None else Some ?m)"
    unfolding pit_nte_of_def by (rule findExactMatch_take) (rule nteDepth_le)+
  show ?thesis
  proof (cases "map_of (pit_nt p) ?m")
    case None
    then have f: "?f = None" by simp
    then have "\<not> (\<exists>e. attached p e \<and> matchesInterest (entry_interest h p e) (h r))"
      using find_entry_None [OF assms, of "h r"] by simp
    with f None ex show ?thesis by (simp add: findOrInsert_def Let_def)
  next
    case (Some x)
    then have "\<not> isEmpty_nte x" using I(2) by (simp add: nt_tight_def)
    moreover have "?f = None \<longleftrightarrow> \<not> (\<exists>e. attached p e \<and> matchesInterest (entry_interest h p e) (h r))"
      by (rule find_entry_None [OF assms])
    ultimately show ?thesis
      using find_entry [OF assms, of "h r"] Some ex
      by (cases ?f) (simp_all add: findOrInsert_def Let_def pit_nte_of_def)
  qed
qed

lemma prefix_pit_nte:
  assumes "matchesData i d"
  shows "pit_nte_of (i_name i) \<in> set (candidates (d_name d))"
proof -
  have "prefix (pit_nte_of (i_name i)) (d_name d)"
    using matchesData_prefix [OF assms]
  proof
    assume full: "i_name i = getFullName d"
    then have "isImplicitSha256Digest (last (i_name i))"
      using assms by (auto simp: matchesData_def Let_def getFullName_def split: if_splits)
    with full have "nteDepth (i_name i) \<le> length (d_name d)"
      by (auto simp: nteDepth_def Let_def getFullName_def)
    with full show ?thesis by (auto simp: pit_nte_of_def getFullName_def take_is_prefix)
  next
    assume "prefix (i_name i) (d_name d)"
    then show ?thesis
      unfolding pit_nte_of_def by (meson prefix_order.trans take_is_prefix)
  qed
  moreover have "length (pit_nte_of (i_name i)) \<le> getMaxDepth"
    using nteDepth_le [of "i_name i"] by (simp add: pit_nte_of_def)
  ultimately show ?thesis
    by (auto simp: candidates_def set_prefixes_down dest: prefix_length_le)
qed

lemma hit_pit: "hit (map_of nt) (\<lambda>_ e. nteHasPitEntries e) n \<longleftrightarrow> pit_at nt n \<noteq> []"
  by (cases "map_of nt n") (auto simp: hit_def nteHasPitEntries_def)

lemma findAllDataMatches_set:
  assumes "pit_inv h p"
  shows "set (findAllDataMatches h d p) = {r. attached p r \<and> matchesData (entry_interest h p r) d}"
proof (intro equalityI subsetI)
  note I = pit_invD [OF assms]
  fix r assume "r \<in> set (findAllDataMatches h d p)"
  then show "r \<in> {r. attached p r \<and> matchesData (entry_interest h p r) d}"
    using I(3) by (auto simp: findAllDataMatches_def)
next
  note I = pit_invD [OF assms]
  fix r assume "r \<in> {r. attached p r \<and> matchesData (entry_interest h p r) d}"
  then have r: "attached p r" "matchesData (entry_interest h p r) d" by auto
  let ?n = "pit_nte_of (i_name (entry_interest h p r))"
  have at: "r \<in> set (pit_at (pit_nt p) ?n)" using I(3,5) r(1) by blast
  then have "?n \<in> set (findAllMatches (d_name d) (\<lambda>_ e. nteHasPitEntries e) (pit_nt p))"
    using prefix_pit_nte [OF r(2)] by (auto simp: findAllMatches_filter [OF I(1)] hit_pit)
  with at r show "r \<in> set (findAllDataMatches h d p)" by (auto simp: findAllDataMatches_def)
qed

lemma distinct_candidates: "distinct (candidates n)"
proof -
  have "inj_on (\<lambda>i. take i n) {0..<Suc (min (length n) getMaxDepth)}"
    by (rule inj_onI) (metis atLeastLessThan_iff length_take less_Suc_eq_le min.absorb2 min.boundedE)
  then show ?thesis by (simp add: candidates_def prefixes_down_def distinct_map del: upt_Suc)
qed

lemma findAllDataMatches_distinct:
  assumes "pit_inv h p"
  shows "distinct (findAllDataMatches h d p)"
proof -
  note I = pit_invD [OF assms]
  have "distinct (findAllMatches (d_name d) (\<lambda>_ e. nteHasPitEntries e) (pit_nt p))"
    by (simp add: findAllMatches_filter [OF I(1)] distinct_candidates)
  moreover have "distinct (concat (map (\<lambda>nte. filter P (pit_at (pit_nt p) nte)) ns))"
    if "distinct ns" for ns P
    using that
  proof (induction ns)
    case (Cons n ns)
    have "r \<notin> set (pit_at (pit_nt p) m)" if "r \<in> set (pit_at (pit_nt p) n)" "m \<in> set ns" for r m
      using that Cons.prems I(3) by auto
    with Cons I(4) show ?case by auto
  qed simp
  ultimately show ?thesis by (simp add: findAllDataMatches_def)
qed

lemma set_swap_with_back:
  assumes "distinct xs" "x \<in> set xs"
  shows "set (swap_with_back x xs) = set xs - {x}" "distinct (swap_with_back x xs)"
proof -
  obtain ys y where xs: "xs = ys @ [y]" using assms(2) by (cases xs rule: rev_cases) auto
  have r: "distinct zs \<Longrightarrow> x \<in> set zs \<Longrightarrow> w \<notin> set zs \<Longrightarrow>
      set (replace_first x w zs) = insert w (set zs - {x}) \<and> distinct (replace_first x w zs)" for zs and w :: 'a
    by (induction zs) auto
  have snoc: "replace_first x w (zs @ [z]) =
      (if x \<in> set zs then replace_first x w zs @ [z] else if x = z then zs @ [w] else zs @ [z])" for zs z and w :: 'a
    by (induction zs) auto
  have "set (swap_with_back x xs) = set xs - {x} \<and> distinct (swap_with_back x xs)"
    using assms r [of ys y] by (auto simp: swap_with_back_def xs snoc)
  then show "set (swap_with_back x xs) = set xs - {x}" "distinct (swap_with_back x xs)" by auto
qed

lemma pit_erase_inv:
  assumes "pit_inv h p" "attached p r"
  obtains p' where "pit_erase r True p = Inr p'" "pit_inv h p'"
    "\<And>e. attached p' e \<longleftrightarrow> attached p e \<and> e \<noteq> r"
    "pit_next p' = pit_next p"
    "pit_entries p' = (pit_entries p)(r := (pit_entries p r)\<lparr>pe_nte := None\<rparr>)"
    "fib_at (pit_nt p') = fib_at (pit_nt p)" "meas_at (pit_nt p') = meas_at (pit_nt p)"
    "sc_at (pit_nt p') = sc_at (pit_nt p)"
proof -
  note I = pit_invD [OF assms(1)]
  let ?n = "pit_nte_of (i_name (entry_interest h p r))"
  have nte: "pe_nte (pit_entries p r) = Some ?n" by (rule I(5) [OF assms(2)])
  have mem: "r \<in> set (pit_at (pit_nt p) ?n)" using I(3) assms(2) nte by blast
  then have ex: "map_of (pit_nt p) ?n \<noteq> None" by (cases "map_of (pit_nt p) ?n") auto
  let ?nt1 = "erasePitEntry r ?n (pit_nt p)"
  have inv1: "nt_inv ?nt1" using I(1) by (rule nt_inv_set)
  obtain nt2 k where nt2: "eraseIfEmpty ?n True ?nt1 = (nt2, k)" by fastforce
  have tight: "nt_tight nt2"
    using I(2) by (intro eraseIfEmpty_tight [OF inv1 _ nt2]) (auto simp: map_of_set_entries nt_tight_def)
  note C = eraseIfEmpty_content [OF inv1 nt2]
  have at: "pit_at nt2 = (pit_at (pit_nt p))(?n := swap_with_back r (pit_at (pit_nt p) ?n))"
    "fib_at nt2 = fib_at (pit_nt p)" "meas_at nt2 = meas_at (pit_nt p)" "sc_at nt2 = sc_at (pit_nt p)"
    using at_cong [OF C(2)] ex by (simp_all add: nt_simps)
  define p' where "p' = p\<lparr>pit_nt := nt2,
      pit_entries := (pit_entries p)(r := (pit_entries p r)\<lparr>pe_nte := None\<rparr>), pit_nItems := pit_nItems p - 1\<rparr>"
  have p' [simp]: "pit_nt p' = nt2" "pit_nItems p' = pit_nItems p - 1" "pit_next p' = pit_next p"
    "pit_entries p' = (pit_entries p)(r := (pit_entries p r)\<lparr>pe_nte := None\<rparr>)"
    by (simp_all add: p'_def)
  have e: "pit_erase r True p = Inr p'" by (simp add: pit_erase_def nte nt2 p'_def)
  have att: "attached p' e \<longleftrightarrow> attached p e \<and> e \<noteq> r" for e by (auto simp: attached_def)
  have ei: "entry_interest h p' e = entry_interest h p e" for e by (simp add: entry_interest_def)
  note sw = set_swap_with_back [OF I(4) mem]
  have "{e. attached p e} = insert r {e. attached p' e}" using att assms(2) by auto
  moreover have "r \<notin> {e. attached p' e}" using att by simp
  ultimately have "card {e. attached p e} = Suc (card {e. attached p' e})"
    by (metis card_insert_disjoint finite_attached)
  then have "pit_nItems p' = word_of_nat (card {e. attached p' e})" using I(8) by simp
  moreover have "\<forall>n e. e \<in> set (pit_at nt2 n) \<longleftrightarrow> attached p' e \<and> pe_nte (pit_entries p' e) = Some n"
  proof (intro allI)
    fix n e
    have "e \<in> set (pit_at nt2 n) \<longleftrightarrow> e \<in> set (pit_at (pit_nt p) n) \<and> e \<noteq> r"
      using sw(1) I(3) [of r n] nte by (cases "n = ?n") (auto simp: at)
    then show "e \<in> set (pit_at nt2 n) \<longleftrightarrow> attached p' e \<and> pe_nte (pit_entries p' e) = Some n"
      unfolding att I(3) by auto
  qed
  moreover have "\<forall>n. distinct (pit_at nt2 n)" using I(4) sw(2) by (simp add: at)
  moreover have "\<forall>e. attached p' e \<longrightarrow> pe_nte (pit_entries p' e) = Some (pit_nte_of (i_name (entry_interest h p' e)))"
    unfolding att ei using I(5) by simp
  moreover have "\<forall>e e'. attached p' e \<and> attached p' e' \<and> matchesInterest (entry_interest h p' e) (entry_interest h p' e') \<longrightarrow> e = e'"
    unfolding att ei using I(6) by blast
  moreover have "\<forall>e. records_ok (pit_entries p' e)" using I(7) by (simp add: records_ok_def)
  ultimately have "pit_inv h p'" using tight C(1) unfolding pit_inv_def p'(1) by blast
  with e att at show thesis by (intro that [of p']) simp_all
qed

section \<open>Finding by name alone\<close>

lemma findBasedOnName_Some:
  assumes "pit_inv h p" "findBasedOnName h n p = Some r"
  shows "attached p r" "i_name (entry_interest h p r) = n" "length n \<le> getMaxDepth" "nteDepth n = length n"
proof -
  note I = pit_invD [OF assms(1)]
  have r': "map_of (pit_nt p) n \<noteq> None" "find (\<lambda>r. i_name (entry_interest h p r) = n) (pit_at (pit_nt p) n) = Some r"
    using assms(2) by (auto simp: findBasedOnName_def findExactMatch_iff [OF I(1)] split: if_splits)
  then have r: "r \<in> set (pit_at (pit_nt p) n)" "i_name (entry_interest h p r) = n" using find_SomeD by fast+
  then show "attached p r" "i_name (entry_interest h p r) = n" using I(3) by auto
  show "length n \<le> getMaxDepth" using nt_invD(2) [OF I(1)] r' by auto
  have "pit_nte_of n = n" using r I(3) [of r n] I(5) [of r] by simp
  then show "nteDepth n = length n" unfolding pit_nte_of_def by (metis length_take min.absorb2 nteDepth_le(1))
qed

lemma findBasedOnName_complete:
  assumes "pit_inv h p" "attached p r" "i_name (entry_interest h p r) = n" "nteDepth n = length n"
  shows "findBasedOnName h n p \<noteq> None"
proof -
  note I = pit_invD [OF assms(1)]
  have mem: "r \<in> set (pit_at (pit_nt p) n)"
    using I(3) I(5) [OF assms(2)] assms by (simp add: pit_nte_of_def)
  then have "map_of (pit_nt p) n \<noteq> None" by (cases "map_of (pit_nt p) n") auto
  moreover have "find (\<lambda>r. i_name (entry_interest h p r) = n) (pit_at (pit_nt p) n) \<noteq> None"
    using mem assms(3) unfolding find_None_iff by blast
  ultimately show ?thesis by (simp add: findBasedOnName_def findExactMatch_iff [OF I(1)])
qed

section \<open>Changes to an entry and to the Interest store\<close>

lemma pit_modify_simps [simp]:
  "pit_nt (pit_modify r f p) = pit_nt p" "pit_next (pit_modify r f p) = pit_next p"
  "pit_nItems (pit_modify r f p) = pit_nItems p"
  "pit_entries (pit_modify r f p) = (pit_entries p)(r := f (pit_entries p r))"
  by (simp_all add: pit_modify_def)

lemma keeps_identity_attached:
  assumes "pe_interest x = pe_interest (pit_entries p r)" "pe_nte x = pe_nte (pit_entries p r)"
  shows "attached (p\<lparr>pit_entries := (pit_entries p)(r := x)\<rparr>) = attached p"
    "entry_interest h (p\<lparr>pit_entries := (pit_entries p)(r := x)\<rparr>) = entry_interest h p"
  using assms by (auto simp: attached_def entry_interest_def fun_eq_iff)

lemma pit_inv_update:
  assumes "pit_inv h p" "pe_interest x = pe_interest (pit_entries p r)" "pe_nte x = pe_nte (pit_entries p r)"
    and "records_ok x"
  shows "pit_inv h (p\<lparr>pit_entries := (pit_entries p)(r := x)\<rparr>)"
  using assms(1,4) assms(2,3) unfolding pit_inv_def keeps_identity_attached [OF assms(2,3)]
  by (simp add: fun_upd_apply)

lemma pit_inv_modify:
  assumes "pit_inv h p" "keeps_identity f"
  shows "pit_inv h (pit_modify r f p)"
  unfolding pit_modify_def
  by (rule pit_inv_update [OF assms(1)]) (use assms pit_invD(7) in \<open>auto simp: keeps_identity_def\<close>)

lemma pit_inv_store:
  assumes "pit_inv h p" "\<And>e. attached p e \<Longrightarrow> matchesInterest (entry_interest h p e) (entry_interest h' p e)"
  shows "pit_inv h' p"
proof -
  have n: "i_name (entry_interest h' p e) = i_name (entry_interest h p e)" if "attached p e" for e
    using assms(2) [OF that] by (simp add: matchesInterest_def)
  have m: "matchesInterest (entry_interest h' p e) (entry_interest h' p e') \<longleftrightarrow>
      matchesInterest (entry_interest h p e) (entry_interest h p e')" if "attached p e" "attached p e'" for e e'
    using assms(2) [OF that(1)] assms(2) [OF that(2)] by (simp add: matchesInterest_def)
  show ?thesis
    using assms(1) n m unfolding pit_inv_def by (metis (no_types, lifting))
qed

lemma upsert_in_records_ok:
  "records_ok e \<Longrightarrow> records_ok (e\<lparr>pe_in := upsert (\<lambda>rec. ir_face rec = face) (new_in_record face)
     (inRecord_update now r i) (pe_in e)\<rparr>)"
  using in_list.distinct_upsert [of "inRecord_update now r i" "new_in_record face" face "pe_in e"]
  by (simp add: records_ok_def inRecord_update_def new_in_record_def)

lemma upsert_out_records_ok:
  "records_ok e \<Longrightarrow> records_ok (e\<lparr>pe_out := upsert (\<lambda>rec. or_face rec = face) (new_out_record face)
     (outRecord_update now i) (pe_out e)\<rparr>)"
  using out_list.distinct_upsert [of "outRecord_update now i" "new_out_record face" face "pe_out e"]
  by (simp add: records_ok_def outRecord_update_def new_out_record_def)

lemma keeps_identity_record_ops:
  "keeps_identity (deleteInRecord face)" "keeps_identity (deleteOutRecord face)"
  "keeps_identity clearInRecords" "keeps_identity (deleteInOutRecords face)"
  by (auto simp: keeps_identity_def deleteInRecord_def deleteOutRecord_def clearInRecords_def
      deleteInOutRecords_def records_ok_def distinct_delete_first)

lemma insertOrUpdateInRecord_matches:
  "matchesInterest (h (pe_interest e)) (h r) \<Longrightarrow>
     insertOrUpdateInRecord h now face r e =
       Inr (e\<lparr>pe_in := upsert (\<lambda>rec. ir_face rec = face) (new_in_record face) (inRecord_update now r (h r)) (pe_in e)\<rparr>)"
  by (simp add: insertOrUpdateInRecord_def canMatch_0)

lemma insertOrUpdateOutRecord_matches:
  "matchesInterest (h (pe_interest e)) (h r) \<Longrightarrow>
     insertOrUpdateOutRecord h now face r e =
       Inr (e\<lparr>pe_out := upsert (\<lambda>rec. or_face rec = face) (new_out_record face) (outRecord_update now (h r)) (pe_out e)\<rparr>)"
  by (simp add: insertOrUpdateOutRecord_def canMatch_0)

lemma empty_pit_unattached [simp]: "\<not> attached empty_pit e"
  by (simp add: attached_def empty_pit_def)

lemma empty_pit_simps [simp]:
  "pit_nt empty_pit = []" "pit_nItems empty_pit = 0" "pit_next empty_pit = 0" "pit_entries empty_pit = (\<lambda>_. new_pit_entry 0)"
  by (simp_all add: empty_pit_def)

lemma pit_inv_empty: "pit_inv h empty_pit"
  by (simp add: pit_inv_def nt_inv_empty nt_tight_def records_ok_def new_pit_entry_def)

lemma one_entry_pit:
  obtains p' :: "('f, 'm, 's) pit" where "findOrInsert h r True empty_pit = Inr (p', Some 0, True)"
    "pit_inv h p'" "\<And>e. attached p' e \<longleftrightarrow> e = 0" "entry_interest h p' 0 = h r"
proof -
  have n: "\<not> (\<exists>e. attached (empty_pit :: ('f, 'm, 's) pit) e \<and> matchesInterest (entry_interest h (empty_pit :: ('f, 'm, 's) pit) e) (h r))" by simp
  obtain p' :: "('f, 'm, 's) pit" where p': "findOrInsert h r True empty_pit = Inr (p', Some 0, True)" "pit_insert_new h r empty_pit p'"
    using findOrInsert_new [OF pit_inv_empty n] by auto
  have "attached p' e \<longleftrightarrow> e = 0" for e using p'(2) by (auto simp: pit_insert_new_def attached_def)
  moreover have "entry_interest h p' 0 = h r" using p'(2) by (simp add: pit_insert_new_def entry_interest_def new_pit_entry_def)
  ultimately show ?thesis using that p'(1) pit_inv_insert_new [OF pit_inv_empty n p'(2)] by simp
qed

lemma found_again:
  assumes "pit_inv h p" "attached p e" "matchesInterest (entry_interest h p e) (h r)"
  shows "findOrInsert h r False p = Inr (p, Some e, False)"
  unfolding findOrInsert_find [OF assms(1)] using find_entry_Some [OF assms(1), of "h r" e] assms(2,3) by auto

lemma pit_insert_newD:
  assumes "pit_insert_new h r p p'"
  shows "attached p' e \<longleftrightarrow> attached p e \<or> e = pit_next p" "entry_interest h p' (pit_next p) = h r"
    "attached p e \<Longrightarrow> pit_entries p' e = pit_entries p e" "pe_in (pit_entries p' (pit_next p)) = []" "pe_out (pit_entries p' (pit_next p)) = []"
  using assms by (auto simp: pit_insert_new_def attached_def entry_interest_def new_pit_entry_def)

section \<open>Properties\<close>

text \<open>
  C13: Inserting an Interest into the PIT returns the one entry whose Interest matches it (same name and
  selectors), and creates it, with no records, exactly when there is none; all other entries stay, and
  a second insertion finds the same entry.
\<close>

theorem pit_find_or_insert:
  assumes "pit_inv h p"
  shows "\<exists>p' e isNew. findOrInsert h r True p = Inr (p', Some e, isNew) \<and> pit_inv h p' \<and> attached p' e \<and>
    matchesInterest (entry_interest h p' e) (h r) \<and>
    (isNew \<longleftrightarrow> \<not> (\<exists>e'. attached p e' \<and> matchesInterest (entry_interest h p e') (h r))) \<and>
    (isNew \<longrightarrow> pe_in (pit_entries p' e) = [] \<and> pe_out (pit_entries p' e) = []) \<and>
    (\<forall>e'. attached p' e' \<longleftrightarrow> attached p e' \<or> e' = e) \<and> (\<forall>e'. attached p e' \<longrightarrow> pit_entries p' e' = pit_entries p e') \<and>
    findOrInsert h r False p' = Inr (p', Some e, False)"
proof (cases "\<exists>e. attached p e \<and> matchesInterest (entry_interest h p e) (h r)")
  case True
  then obtain e where e: "attached p e" "matchesInterest (entry_interest h p e) (h r)" by blast
  obtain nt where nt: "findOrInsert h r True p = Inr (p\<lparr>pit_nt := nt\<rparr>, Some e, False)" "nt_inv nt" "nt_content nt = nt_content (pit_nt p)" "nt_tight nt"
    using findOrInsert_old [OF assms e] by blast
  have i: "pit_inv h (p\<lparr>pit_nt := nt\<rparr>)" by (rule pit_inv_change_nt [OF assms nt(2,4) at_cong(2) [OF nt(3)]])
  show ?thesis
    by (rule exI [of _ "p\<lparr>pit_nt := nt\<rparr>"], rule exI [of _ e], rule exI [of _ False])
      (use nt(1) i e True found_again [OF i, of e r] in \<open>simp, blast\<close>)
next
  case False
  obtain p' where p': "findOrInsert h r True p = Inr (p', Some (pit_next p), True)" "pit_insert_new h r p p'"
    using findOrInsert_new [OF assms False] by blast
  have i: "pit_inv h p'" by (rule pit_inv_insert_new [OF assms False p'(2)])
  note n = pit_insert_newD [OF p'(2)]
  show ?thesis
    by (rule exI [of _ p'], rule exI [of _ "pit_next p"], rule exI [of _ True])
      (use p'(1) i n False found_again [OF i, of "pit_next p" r] in simp)
qed

theorem pit_find_or_insert_witness:
  "\<exists>p' e. findOrInsert (\<lambda>_. \<lparr>i_name = [Component 8 [1]], i_canBePrefix = False, i_mustBeFresh = False, i_forwardingHint = [], i_nonce = None,
    i_lifetime = 4000, i_hopLimit = None, i_incomingFaceId = None, i_nextHopFaceId = None, i_pitToken = None\<rparr>) 0 True
     (empty_pit :: (nat, nat, nat) pit) = Inr (p', Some e, True) \<and> attached p' e"
  (is "\<exists>p' e. findOrInsert ?h 0 True _ = _ \<and> _")
  using pit_find_or_insert [OF pit_inv_empty, of ?h 0, where ?'a = nat and ?'b = nat and ?'c = nat] by auto

text \<open>
  C14: Looking for the PIT entries a Data satisfies returns, each once, exactly the entries whose
  Interest the Data matches.
\<close>

theorem pit_data_matches:
  assumes "pit_inv h p"
  shows "set (findAllDataMatches h d p) = {e. attached p e \<and> matchesData (entry_interest h p e) d} \<and> distinct (findAllDataMatches h d p)"
  using findAllDataMatches_set [OF assms] findAllDataMatches_distinct [OF assms] by blast

theorem pit_data_matches_witness:
  "\<exists>h (p :: (nat, nat, nat) pit) d. pit_inv h p \<and> set (findAllDataMatches h d p) = {0}"
proof -
  define d where "d = \<lparr>d_name = [Component 8 [1]], d_freshnessPeriod = 0, d_digest = replicate 32 0, d_incomingFaceId = None,
    d_pitToken = None, d_cachePolicy = None\<rparr>"
  define i where "i = \<lparr>i_name = [Component 8 [1]], i_canBePrefix = False, i_mustBeFresh = False, i_forwardingHint = [], i_nonce = None,
    i_lifetime = 4000, i_hopLimit = None, i_incomingFaceId = None, i_nextHopFaceId = None, i_pitToken = None\<rparr>"
  obtain p where p: "pit_inv (\<lambda>_. i) (p :: (nat, nat, nat) pit)" "\<And>e. attached p e \<longleftrightarrow> e = 0" "entry_interest (\<lambda>_. i) p 0 = i"
    by (rule one_entry_pit [where ?h = "\<lambda>_. i" and ?r = 0]) (rule that)
  have m: "matchesData i d" by (subst matchesData_iff) (simp_all add: i_def d_def)
  have "{e. attached p e \<and> matchesData (entry_interest (\<lambda>_. i) p e) d} = {0}" unfolding p(2) using p(3) m by (simp cong: conj_cong)
  then have "set (findAllDataMatches (\<lambda>_. i) d p) = {0}" using pit_data_matches [OF p(1), of d] by blast
  with p(1) show ?thesis by blast
qed

text \<open>
  C15: The search of the PIT by name alone, which the reflexive pipeline uses to find the original
  Interest, finds an entry with that very name if and only if there is one and the name has at most 32
  components and does not end in an implicit digest.
\<close>

theorem pit_find_by_name:
  assumes "pit_inv h p"
  shows "(findBasedOnName h n p \<noteq> None) = ((\<exists>e. attached p e \<and> i_name (entry_interest h p e) = n) \<and> nteDepth n = length n) \<and>
    (\<forall>e. findBasedOnName h n p = Some e \<longrightarrow> attached p e \<and> i_name (entry_interest h p e) = n)"
  using findBasedOnName_Some [OF assms] findBasedOnName_complete [OF assms] by blast

theorem pit_find_by_name_witness:
  "\<exists>h (p :: (nat, nat, nat) pit). pit_inv h p \<and> findBasedOnName h [] p \<noteq> None"
proof -
  define i where "i = \<lparr>i_name = [], i_canBePrefix = True, i_mustBeFresh = False, i_forwardingHint = [], i_nonce = None,
    i_lifetime = 4000, i_hopLimit = None, i_incomingFaceId = None, i_nextHopFaceId = None, i_pitToken = None\<rparr>"
  obtain p where p: "pit_inv (\<lambda>_. i) (p :: (nat, nat, nat) pit)" "\<And>e. attached p e \<longleftrightarrow> e = 0" "entry_interest (\<lambda>_. i) p 0 = i"
    by (rule one_entry_pit [where ?h = "\<lambda>_. i" and ?r = 0]) (rule that)
  have "i_name i = []" "nteDepth [] = 0" by (simp_all add: i_def nteDepth_def)
  then have "findBasedOnName (\<lambda>_. i) [] p \<noteq> None" using pit_find_by_name [OF p(1), of "[]"] p(2,3) by auto
  with p(1) show ?thesis by blast
qed

end
