(* ===== verification/Measurements.thy ===== *)
theory Measurements
  imports Pit
begin

text \<open>
  The measurements table (\<open>daemon/table/measurements.cpp\<close>): entries that strategies attach data
  to, each with an expiry that can only be moved later, and the timer that removes it.  The
  strategy information of an entry is the list of the type identifiers of its items.
\<close>

record measurements_entry =
  me_name :: name
  me_expiry :: time
  me_cleanup :: "time option"
  me_info :: "nat list"

record ('f, 's) measurements =
  meas_nt :: "('f, measurements_entry, 's) name_tree"
  meas_nItems :: "64 word"

definition getInitialLifetime :: int where "getInitialLifetime = 4 * 10 ^ 9"

definition meas_get_nte :: "time \<Rightarrow> name \<Rightarrow> ('f, 's) measurements \<Rightarrow> ('f, 's) measurements" where
  "meas_get_nte now nte m =
     (case meas_at (meas_nt m) nte of
        Some _ \<Rightarrow> m
      | None \<Rightarrow>
          let entry = \<lparr>me_name = nte, me_expiry = now + getInitialLifetime,
                       me_cleanup = Some (now + getInitialLifetime), me_info = []\<rparr>
          in m\<lparr>meas_nt := setMeasurementsEntry (Some entry) nte (meas_nt m), meas_nItems := meas_nItems m + 1\<rparr>)"

definition meas_get :: "time \<Rightarrow> name \<Rightarrow> ('f, 's) measurements \<Rightarrow> ('f, 's) measurements res" where
  "meas_get now n m =
     (let depth = min (length n) getMaxDepth in
      bind_res (nt_lookup n depth (meas_nt m)) (\<lambda>nt. Inr (meas_get_nte now (take depth n) (m\<lparr>meas_nt := nt\<rparr>))))"

text \<open>
  \<open>get\<close> for a FIB entry; the empty entry of the FIB is not attached to the tree.  For a PIT
  entry the name with its digest is looked up, other entries are attached.
\<close>

definition meas_get_fib :: "time \<Rightarrow> bool \<Rightarrow> name \<Rightarrow> ('f, 's) measurements \<Rightarrow> ('f, 's) measurements res" where
  "meas_get_fib now isAttached pfx m =
     (if \<not> isAttached
      then assert_res (pfx = [])
             (bind_res (nt_lookup pfx (length pfx) (meas_nt m)) (\<lambda>nt. Inr (meas_get_nte now pfx (m\<lparr>meas_nt := nt\<rparr>))))
      else assert_res (fib_at (meas_nt m) pfx \<noteq> None) (Inr (meas_get_nte now pfx m)))"

definition meas_get_pit :: "time \<Rightarrow> name \<Rightarrow> name option \<Rightarrow> ('f, 's) measurements \<Rightarrow> ('f, 's) measurements res" where
  "meas_get_pit now pitName pitNte m =
     (let hasDigest = (0 < length pitName \<and> isImplicitSha256Digest (last pitName)) in
      if hasDigest \<and> length pitName \<le> getMaxDepth
      then bind_res (nt_lookup pitName (length pitName) (meas_nt m)) (\<lambda>nt. Inr (meas_get_nte now pitName (m\<lparr>meas_nt := nt\<rparr>)))
      else case pitNte of None \<Rightarrow> Inl AssertionFailed | Some nte \<Rightarrow> Inr (meas_get_nte now nte m))"

definition meas_getParent :: "time \<Rightarrow> name \<Rightarrow> ('f, 's) measurements \<Rightarrow> (('f, 's) measurements \<times> name option) res" where
  "meas_getParent now child m =
     (if child = [] then Inr (m, None)
      else case map_of (meas_nt m) child of
             None \<Rightarrow> Inl UndefinedBehavior
           | Some e \<Rightarrow> (case nte_parent e of
                          None \<Rightarrow> Inl AssertionFailed
                        | Some p \<Rightarrow> Inr (meas_get_nte now p m, Some p)))"

definition meas_findLongestPrefixMatch ::
    "name \<Rightarrow> (measurements_entry \<Rightarrow> bool) \<Rightarrow> ('f, 's) measurements \<Rightarrow> measurements_entry option" where
  "meas_findLongestPrefixMatch n pred m =
     (case findLongestPrefixMatch (getPrefix n (int getMaxDepth))
             (\<lambda>_ e. case nte_meas e of Some x \<Rightarrow> pred x | None \<Rightarrow> False) (meas_nt m) of
        Some p \<Rightarrow> meas_at (meas_nt m) p
      | None \<Rightarrow> None)"

definition meas_findExactMatch :: "name \<Rightarrow> ('f, 's) measurements \<Rightarrow> measurements_entry option" where
  "meas_findExactMatch n m =
     (case findExactMatch n (length n) (meas_nt m) of None \<Rightarrow> None | Some p \<Rightarrow> meas_at (meas_nt m) p)"

definition extendLifetime :: "time \<Rightarrow> name \<Rightarrow> int \<Rightarrow> ('f, 's) measurements \<Rightarrow> ('f, 's) measurements res" where
  "extendLifetime now n lifetime m =
     (case meas_at (meas_nt m) n of
        None \<Rightarrow> Inl AssertionFailed
      | Some entry \<Rightarrow>
          let expiry = now + lifetime
          in if expiry \<le> me_expiry entry then Inr m
             else Inr (m\<lparr>meas_nt := setMeasurementsEntry
                           (Some (entry\<lparr>me_expiry := expiry, me_cleanup := Some (now + max 0 lifetime)\<rparr>)) n (meas_nt m)\<rparr>))"

definition cleanup :: "name \<Rightarrow> ('f, 's) measurements \<Rightarrow> ('f, 's) measurements res" where
  "cleanup n m =
     (case meas_at (meas_nt m) n of
        None \<Rightarrow> Inl AssertionFailed
      | Some _ \<Rightarrow>
          Inr (m\<lparr>meas_nt := fst (eraseIfEmpty n True (setMeasurementsEntry None n (meas_nt m))),
                 meas_nItems := meas_nItems m - 1\<rparr>))"

definition initial_entry :: "time \<Rightarrow> name \<Rightarrow> measurements_entry" where
  "initial_entry now n = \<lparr>me_name = n, me_expiry = now + getInitialLifetime,
     me_cleanup = Some (now + getInitialLifetime), me_info = []\<rparr>"

definition get_or_initial :: "time \<Rightarrow> name \<Rightarrow> measurements_entry option \<Rightarrow> measurements_entry" where
  "get_or_initial now n x = (case x of Some e \<Rightarrow> e | None \<Rightarrow> initial_entry now n)"

definition meas_inv :: "('f, 's) measurements \<Rightarrow> bool" where
  "meas_inv m \<longleftrightarrow> nt_inv (meas_nt m) \<and> (\<forall>n e. meas_at (meas_nt m) n = Some e \<longrightarrow> me_name e = n) \<and>
     meas_nItems m = word_of_nat (card (dom (meas_at (meas_nt m))))"

section \<open>The table as a map\<close>

lemma finite_meas_dom [simp]: "finite (dom (meas_at nt))"
proof (rule finite_subset)
  show "dom (meas_at nt) \<subseteq> fst ` set nt"
    using map_of_SomeD_fst [of nt] at_None(3) [of nt] by (fastforce simp: dom_def)
qed simp

lemma meas_get_nte_refines:
  assumes "meas_inv m" "map_of (meas_nt m) n \<noteq> None"
  shows "meas_inv (meas_get_nte now n m)"
    "meas_at (meas_nt (meas_get_nte now n m)) =
       (meas_at (meas_nt m))(n \<mapsto> get_or_initial now n (meas_at (meas_nt m) n))"
proof -
  note I = assms(1) [unfolded meas_inv_def]
  show "meas_at (meas_nt (meas_get_nte now n m)) =
      (meas_at (meas_nt m))(n \<mapsto> get_or_initial now n (meas_at (meas_nt m) n))"
    using assms(2) by (cases "meas_at (meas_nt m) n")
      (auto simp: meas_get_nte_def get_or_initial_def initial_entry_def nt_simps)
  show "meas_inv (meas_get_nte now n m)"
  proof (cases "meas_at (meas_nt m) n")
    case None
    define m' where "m' = meas_get_nte now n m"
    have at: "meas_at (meas_nt m') = (meas_at (meas_nt m))(n \<mapsto> initial_entry now n)"
      and n: "meas_nItems m' = meas_nItems m + 1" and inv: "nt_inv (meas_nt m')"
      using None I assms(2) by (simp_all add: m'_def meas_get_nte_def initial_entry_def nt_simps nt_inv_set)
    have "n \<notin> dom (meas_at (meas_nt m))" using None by auto
    then have "card (dom (meas_at (meas_nt m'))) = Suc (card (dom (meas_at (meas_nt m))))"
      by (simp add: at)
    with at n inv I show ?thesis unfolding meas_inv_def m'_def [symmetric] by (auto simp: initial_entry_def)
  qed (use assms(1) in \<open>simp add: meas_get_nte_def\<close>)
qed

lemma meas_inv_lookup:
  assumes "meas_inv m" "k \<le> length n" "k \<le> getMaxDepth"
  obtains nt where "nt_lookup n k (meas_nt m) = Inr nt" "meas_inv (m\<lparr>meas_nt := nt\<rparr>)"
    "meas_at nt = meas_at (meas_nt m)" "map_of nt (take k n) \<noteq> None"
proof -
  note I = assms(1) [unfolded meas_inv_def]
  obtain nt where nt: "nt_lookup n k (meas_nt m) = Inr nt" "nt_inv nt" "nt_content nt = nt_content (meas_nt m)"
    "\<And>p. map_of nt p \<noteq> None \<longleftrightarrow> map_of (meas_nt m) p \<noteq> None \<or> (\<exists>j \<le> k. p = take j n)"
    using nt_lookup_Inr [of "meas_nt m" k n] I assms(2,3) by blast
  have at: "meas_at nt = meas_at (meas_nt m)" by (rule at_cong(3) [OF nt(3)])
  then have "meas_inv (m\<lparr>meas_nt := nt\<rparr>)" using I nt(2) by (simp add: meas_inv_def)
  with that nt at show thesis by blast
qed

lemma meas_get_refines:
  fixes n :: name
  assumes "meas_inv m"
  defines "p \<equiv> take (min (length n) getMaxDepth) n"
  shows "\<exists>m'. meas_get now n m = Inr m' \<and> meas_inv m' \<and>
     meas_at (meas_nt m') = (meas_at (meas_nt m))(p \<mapsto> get_or_initial now p (meas_at (meas_nt m) p))"
proof -
  have "min (length n) getMaxDepth \<le> length n" "min (length n) getMaxDepth \<le> getMaxDepth" by auto
  then obtain nt where nt: "nt_lookup n (min (length n) getMaxDepth) (meas_nt m) = Inr nt" "meas_inv (m\<lparr>meas_nt := nt\<rparr>)"
    "meas_at nt = meas_at (meas_nt m)" "map_of nt p \<noteq> None"
    using meas_inv_lookup [OF assms(1)] unfolding p_def by metis
  with meas_get_nte_refines [OF nt(2), of p now] show ?thesis by (simp add: meas_get_def Let_def p_def)
qed

lemma cleanup_refines:
  assumes "meas_inv m" "meas_at (meas_nt m) n \<noteq> None"
  shows "\<exists>m'. cleanup n m = Inr m' \<and> meas_inv m' \<and> meas_at (meas_nt m') = (meas_at (meas_nt m))(n := None)"
proof -
  note I = assms(1) [unfolded meas_inv_def]
  define nt where "nt = fst (eraseIfEmpty n True (setMeasurementsEntry None n (meas_nt m)))"
  have ex: "map_of (meas_nt m) n \<noteq> None" using assms(2) by (cases "map_of (meas_nt m) n") auto
  have nt: "meas_at nt = (meas_at (meas_nt m))(n := None)" "nt_inv nt"
    using meas_table.erase_at [OF _ ex, of nt "snd (eraseIfEmpty n True (setMeasurementsEntry None n (meas_nt m)))"] I
    by (simp_all add: nt_def)
  have "n \<in> dom (meas_at (meas_nt m))" using assms(2) by auto
  then have "card (dom (meas_at (meas_nt m))) = Suc (card (dom (meas_at (meas_nt m)) - {n}))"
    by (rule card.remove [OF finite_meas_dom])
  then have "meas_nItems m - 1 = word_of_nat (card (dom (meas_at nt)))" using I nt(1) by simp
  with nt I assms(2) show ?thesis by (auto simp: cleanup_def meas_inv_def nt_def [symmetric])
qed

lemma extendLifetime_refines:
  assumes "meas_inv m" "meas_at (meas_nt m) n = Some e" "0 \<le> lifetime"
  shows "\<exists>m' e'. extendLifetime now n lifetime m = Inr m' \<and> meas_inv m' \<and>
     meas_at (meas_nt m') = (meas_at (meas_nt m))(n \<mapsto> e') \<and> me_expiry e' = max (me_expiry e) (now + lifetime) \<and>
     (me_cleanup e = Some (me_expiry e) \<longrightarrow> me_cleanup e' = Some (me_expiry e'))"
proof -
  note I = assms(1) [unfolded meas_inv_def]
  have ex: "map_of (meas_nt m) n \<noteq> None" using assms(2) by (cases "map_of (meas_nt m) n") auto
  show ?thesis
  proof (cases "now + lifetime \<le> me_expiry e")
    case True
    then show ?thesis using assms by (intro exI [of _ m] exI [of _ e]) (auto simp: extendLifetime_def)
  next
    case False
    define e' where "e' = e\<lparr>me_expiry := now + lifetime, me_cleanup := Some (now + max 0 lifetime)\<rparr>"
    define m' where "m' = m\<lparr>meas_nt := setMeasurementsEntry (Some e') n (meas_nt m)\<rparr>"
    have at: "meas_at (meas_nt m') = (meas_at (meas_nt m))(n \<mapsto> e')" using ex by (simp add: m'_def nt_simps)
    have "dom (meas_at (meas_nt m')) = dom (meas_at (meas_nt m))" using assms(2) by (auto simp: at)
    then have "meas_inv m'" using I assms(2) at by (auto simp: meas_inv_def m'_def e'_def nt_inv_set)
    then show ?thesis using False assms at
      by (intro exI [of _ m'] exI [of _ e']) (auto simp: extendLifetime_def Let_def m'_def e'_def)
  qed
qed

section \<open>Properties\<close>

text \<open>
  Extending the lifetime of a measurements entry moves its expiry to the later of the old expiry
  and now plus the lifetime, never earlier, keeps its cleanup at the expiry, and touches no other entry.
\<close>

theorem measurements_lifetime:
  assumes "meas_inv m" "meas_at (meas_nt m) n = Some e" "0 \<le> lifetime"
  shows "\<exists>m' e'. extendLifetime now n lifetime m = Inr m' \<and> meas_inv m' \<and>
     meas_at (meas_nt m') = (meas_at (meas_nt m))(n \<mapsto> e') \<and> me_expiry e' = max (me_expiry e) (now + lifetime) \<and>
     (me_cleanup e = Some (me_expiry e) \<longrightarrow> me_cleanup e' = Some (me_expiry e'))"
  using extendLifetime_refines [OF assms] .

theorem measurements_lifetime_witness:
  "\<exists>m m' e. meas_get 0 [] (\<lparr>meas_nt = [], meas_nItems = 0\<rparr> :: (nat, nat) measurements) = Inr m \<and>
     extendLifetime 5 [] (9 * 10 ^ 9) m = Inr m' \<and> meas_at (meas_nt m') [] = Some e \<and> me_expiry e = 9000000005"
proof -
  let ?m0 = "\<lparr>meas_nt = [], meas_nItems = 0\<rparr> :: (nat, nat) measurements"
  have none: "meas_at (meas_nt ?m0) = Map.empty" by (simp add: fun_eq_iff)
  then have "meas_inv ?m0" by (simp add: meas_inv_def nt_inv_empty)
  from meas_get_refines [OF this, of 0 "[]"] none obtain m where m: "meas_get 0 [] ?m0 = Inr m" "meas_inv m"
      "meas_at (meas_nt m) [] = Some (get_or_initial 0 [] None)" by auto
  from measurements_lifetime [OF m(2,3), of "9 * 10 ^ 9" 5] m(1) show ?thesis
    by (auto simp: get_or_initial_def getInitialLifetime_def initial_entry_def)
qed

end
