(* ===== verification/Fw_Algorithm.thy ===== *)
theory Fw_Algorithm
  imports Pit
begin

text \<open>
  Decisions of the forwarding plane that read a PIT entry, a face or a name and change nothing
  but suppression state: \<open>fw/algorithm.cpp\<close>, \<open>fw/scope-prefix.hpp\<close>,
  \<open>table/network-region-table.cpp\<close>, \<open>fw/unsolicited-data-policy.cpp\<close>,
  \<open>fw/retx-suppression-exponential.cpp\<close> and \<open>fw/retx-suppression-fixed.cpp\<close>.
\<close>

section \<open>Faces and scope\<close>

datatype FaceScope = NON_LOCAL | LOCAL
datatype LinkType = POINT_TO_POINT | MULTI_ACCESS | AD_HOC

text \<open>
  A \<open>Face\<close> object; \<open>f_inTable\<close> says that the face table holds it, and its \<open>getId()\<close> is the
  invalid identifier otherwise.
\<close>

record face =
  f_scope :: FaceScope
  f_linkType :: LinkType
  f_inTable :: bool
  f_nInHopLimitZero :: nat
  f_nOutHopLimitZero :: nat

type_synonym faces = "face_id \<Rightarrow> face"

definition LOCALHOST :: name where "LOCALHOST = [Component GenericNameComponent (ascii ''localhost'')]"
definition LOCALHOP :: name where "LOCALHOP = [Component GenericNameComponent (ascii ''localhop'')]"

definition wouldViolateScope :: "face \<Rightarrow> interest \<Rightarrow> face \<Rightarrow> bool" where
  "wouldViolateScope inFace i outFace =
     (if f_scope outFace = LOCAL then False
      else if isPrefixOf LOCALHOST (i_name i) then True
      else if isPrefixOf LOCALHOP (i_name i) then f_scope inFace \<noteq> LOCAL
      else False)"

definition isInProducerRegion :: "name list \<Rightarrow> name list \<Rightarrow> bool" where
  "isInProducerRegion regions forwardingHint =
     list_ex (\<lambda>regionName. list_ex (\<lambda>delegation. isPrefixOf delegation regionName) forwardingHint) regions"

datatype UnsolicitedDataPolicy = DropAll | AdmitLocal | AdmitNetwork | AdmitAll
datatype UnsolicitedDataDecision = DROP | CACHE

fun decide :: "UnsolicitedDataPolicy \<Rightarrow> face \<Rightarrow> UnsolicitedDataDecision" where
  "decide DropAll inFace = DROP"
| "decide AdmitLocal inFace = (if f_scope inFace = LOCAL then CACHE else DROP)"
| "decide AdmitNetwork inFace = (if f_scope inFace = NON_LOCAL then CACHE else DROP)"
| "decide AdmitAll inFace = CACHE"

section \<open>PIT entries\<close>

definition DUPLICATE_NONCE_NONE :: int where "DUPLICATE_NONCE_NONE = 0"
definition DUPLICATE_NONCE_IN_SAME :: int where "DUPLICATE_NONCE_IN_SAME = 1"
definition DUPLICATE_NONCE_IN_OTHER :: int where "DUPLICATE_NONCE_IN_OTHER = 2"
definition DUPLICATE_NONCE_OUT_SAME :: int where "DUPLICATE_NONCE_OUT_SAME = 4"
definition DUPLICATE_NONCE_OUT_OTHER :: int where "DUPLICATE_NONCE_OUT_OTHER = 8"

definition findDuplicateNonce :: "pit_entry \<Rightarrow> 32 word \<Rightarrow> face_id \<Rightarrow> int" where
  "findDuplicateNonce e nonce face =
     (let dnw = foldl (\<lambda>dnw rec. if ir_lastNonce rec = nonce
                         then dnw OR (if ir_face rec = face then DUPLICATE_NONCE_IN_SAME else DUPLICATE_NONCE_IN_OTHER)
                         else dnw) DUPLICATE_NONCE_NONE (pe_in e)
      in foldl (\<lambda>dnw rec. if or_lastNonce rec = nonce
                  then dnw OR (if or_face rec = face then DUPLICATE_NONCE_OUT_SAME else DUPLICATE_NONCE_OUT_OTHER)
                  else dnw) dnw (pe_out e))"

definition hasPendingOutRecords :: "time \<Rightarrow> pit_entry \<Rightarrow> bool" where
  "hasPendingOutRecords now e = list_ex (\<lambda>r. now \<le> or_expiry r \<and> or_incomingNack r = None) (pe_out e)"

text \<open>\<open>std::max_element\<close>: the first element no later one exceeds.\<close>

fun max_element :: "('a \<Rightarrow> int) \<Rightarrow> 'a \<Rightarrow> 'a list \<Rightarrow> 'a" where
  "max_element k best [] = best"
| "max_element k best (x # xs) = max_element k (if k best < k x then x else best) xs"

definition getLastOutgoing :: "pit_entry \<Rightarrow> time res" where
  "getLastOutgoing e =
     (case pe_out e of [] \<Rightarrow> Inl AssertionFailed
      | r # rs \<Rightarrow> Inr (or_lastRenewed (max_element or_lastRenewed r rs)))"

definition isNextHopEligible ::
    "faces \<Rightarrow> face_id \<Rightarrow> interest \<Rightarrow> next_hop \<Rightarrow> pit_entry \<Rightarrow> bool \<Rightarrow> time \<Rightarrow> bool" where
  "isNextHopEligible faces inFace i nexthop e wantUnused now =
     (let outFace = nh_face nexthop in
      if (outFace = inFace \<and> f_linkType (faces outFace) \<noteq> AD_HOC) \<or>
         wouldViolateScope (faces inFace) i (faces outFace) then False
      else if wantUnused \<and> (case getOutRecord e outFace of Some r \<Rightarrow> now < or_expiry r | None \<Rightarrow> False) then False
      else True)"

text \<open>The default arguments of \<open>isNextHopEligible\<close>.\<close>

definition eligible :: "faces \<Rightarrow> face_id \<Rightarrow> interest \<Rightarrow> pit_entry \<Rightarrow> next_hop \<Rightarrow> bool" where
  "eligible faces inFace i e nexthop = isNextHopEligible faces inFace i nexthop e False (- (2 ^ 63))"

definition earliest_step ::
    "faces \<Rightarrow> face_id \<Rightarrow> interest \<Rightarrow> pit_entry \<Rightarrow> next_hop \<Rightarrow> next_hop option \<times> time \<Rightarrow> (next_hop option \<times> time) res" where
  "earliest_step faces inFace i e nh = (\<lambda>(found, earliestRenewed).
     if \<not> eligible faces inFace i e nh then Inr (found, earliestRenewed)
     else case getOutRecord e (nh_face nh) of
            None \<Rightarrow> Inl AssertionFailed
          | Some r \<Rightarrow> if or_lastRenewed r < earliestRenewed then Inr (Some nh, or_lastRenewed r)
                      else Inr (found, earliestRenewed))"

definition findEligibleNextHopWithEarliestOutRecord ::
    "faces \<Rightarrow> face_id \<Rightarrow> interest \<Rightarrow> next_hop list \<Rightarrow> pit_entry \<Rightarrow> next_hop option res" where
  "findEligibleNextHopWithEarliestOutRecord faces inFace i nexthops e =
     bind_res (fold_res (earliest_step faces inFace i e) nexthops (None, 2 ^ 63 - 1)) (\<lambda>(found, _). Inr found)"

section \<open>Retransmission suppression\<close>

datatype RetxSuppressionResult = NEW | FORWARD | SUPPRESS

text \<open>
  Intervals are milliseconds.  The multiplier is a float in the code; integral multipliers are
  represented, on which the products below \<open>2\<^sup>2\<^sup>4\<close> are exact.
\<close>

record retx_params =
  rp_initialInterval :: int
  rp_maxInterval :: int
  rp_multiplier :: int

definition DEFAULT_INITIAL_INTERVAL :: int where "DEFAULT_INITIAL_INTERVAL = 10"
definition DEFAULT_MAX_INTERVAL :: int where "DEFAULT_MAX_INTERVAL = 250"
definition DEFAULT_MULTIPLIER :: int where "DEFAULT_MULTIPLIER = 2"

definition default_retx :: retx_params where
  "default_retx = \<lparr>rp_initialInterval = DEFAULT_INITIAL_INTERVAL, rp_maxInterval = DEFAULT_MAX_INTERVAL,
     rp_multiplier = DEFAULT_MULTIPLIER\<rparr>"

definition make_retx :: "int \<Rightarrow> int \<Rightarrow> int \<Rightarrow> retx_params res" where
  "make_retx initialInterval maxInterval multiplier =
     (if initialInterval \<le> 0 then Inl InvalidArgument
      else if maxInterval < initialInterval then Inl InvalidArgument
      else if multiplier < 1 then Inl InvalidArgument
      else Inr \<lparr>rp_initialInterval = initialInterval, rp_maxInterval = maxInterval, rp_multiplier = multiplier\<rparr>)"

definition insertStrategyInfo :: "int \<Rightarrow> int option \<Rightarrow> int" where
  "insertStrategyInfo initial item = (case item of Some v \<Rightarrow> v | None \<Rightarrow> initial)"

definition next_interval :: "retx_params \<Rightarrow> int \<Rightarrow> int" where
  "next_interval rp interval = min (rp_maxInterval rp) (interval * rp_multiplier rp)"

definition decidePerPitEntry :: "retx_params \<Rightarrow> time \<Rightarrow> pit_entry \<Rightarrow> (RetxSuppressionResult \<times> pit_entry) res" where
  "decidePerPitEntry rp now e =
     (if \<not> hasPendingOutRecords now e then Inr (NEW, e)
      else bind_res (getLastOutgoing e) (\<lambda>lastOutgoing.
           let sinceLastOutgoing = now - lastOutgoing;
               interval = insertStrategyInfo (rp_initialInterval rp) (pe_suppression e)
           in if sinceLastOutgoing < interval * 1000000 then Inr (SUPPRESS, e\<lparr>pe_suppression := Some interval\<rparr>)
              else Inr (FORWARD, e\<lparr>pe_suppression := Some (next_interval rp interval)\<rparr>)))"

definition set_out_suppression :: "face_id \<Rightarrow> int \<Rightarrow> pit_entry \<Rightarrow> pit_entry" where
  "set_out_suppression face v e =
     e\<lparr>pe_out := update_first (\<lambda>r. or_face r = face) (\<lambda>r. r\<lparr>or_suppression := Some v\<rparr>) (pe_out e)\<rparr>"

definition decidePerUpstream :: "retx_params \<Rightarrow> time \<Rightarrow> face_id \<Rightarrow> pit_entry \<Rightarrow> RetxSuppressionResult \<times> pit_entry" where
  "decidePerUpstream rp now outFace e =
     (case getOutRecord e outFace of
        None \<Rightarrow> (NEW, e)
      | Some r \<Rightarrow>
          let sinceLastOutgoing = now - or_lastRenewed r;
              interval = insertStrategyInfo (rp_initialInterval rp) (or_suppression r);
              e' = set_out_suppression outFace interval e
          in if sinceLastOutgoing < interval * 1000000 then (SUPPRESS, e') else (FORWARD, e'))"

definition incrementIntervalForOutRecord :: "retx_params \<Rightarrow> face_id \<Rightarrow> pit_entry \<Rightarrow> pit_entry" where
  "incrementIntervalForOutRecord rp face e =
     (case getOutRecord e face of
        None \<Rightarrow> e
      | Some r \<Rightarrow> set_out_suppression face
                    (next_interval rp (insertStrategyInfo (rp_initialInterval rp) (or_suppression r))) e)"

definition fixed_decidePerPitEntry :: "int \<Rightarrow> time \<Rightarrow> pit_entry \<Rightarrow> RetxSuppressionResult res" where
  "fixed_decidePerPitEntry minRetxInterval now e =
     (if \<not> hasPendingOutRecords now e then Inr NEW
      else bind_res (getLastOutgoing e) (\<lambda>lastOutgoing.
           Inr (if now - lastOutgoing < minRetxInterval * 1000000 then SUPPRESS else FORWARD)))"

definition retx_ok :: "retx_params \<Rightarrow> bool" where
  "retx_ok rp \<longleftrightarrow> 0 < rp_initialInterval rp \<and> rp_initialInterval rp \<le> rp_maxInterval rp \<and> 1 \<le> rp_multiplier rp"

section \<open>Duplicate nonces\<close>

lemma foldl_or_bit:
  "bit (foldl (\<lambda>(w :: int) r. if P r then w OR f r else w) a xs) n \<longleftrightarrow> bit a n \<or> (\<exists>r \<in> set xs. P r \<and> bit (f r) n)"
  by (induction xs arbitrary: a) (auto simp: bit_or_iff)

lemma bit_flags:
  "bit (1 :: int) n \<longleftrightarrow> n = 0" "bit (2 :: int) n \<longleftrightarrow> n = 1" "bit (4 :: int) n \<longleftrightarrow> n = 2" "bit (8 :: int) n \<longleftrightarrow> n = 3"
proof -
  have "bit ((2 :: int) ^ m) n \<longleftrightarrow> n = m" for m by (simp add: bit_exp_iff)
  from this [of 0] this [of 1] this [of 2] this [of 3]
  show "bit (1 :: int) n \<longleftrightarrow> n = 0" "bit (2 :: int) n \<longleftrightarrow> n = 1" "bit (4 :: int) n \<longleftrightarrow> n = 2" "bit (8 :: int) n \<longleftrightarrow> n = 3"
    by simp_all
qed

lemma findDuplicateNonce_bit:
  "bit (findDuplicateNonce e nonce face) n \<longleftrightarrow>
     (\<exists>r \<in> set (pe_in e). ir_lastNonce r = nonce \<and> n = (if ir_face r = face then 0 else 1)) \<or>
     (\<exists>r \<in> set (pe_out e). or_lastNonce r = nonce \<and> n = (if or_face r = face then 2 else 3))"
  by (auto simp: findDuplicateNonce_def Let_def foldl_or_bit DUPLICATE_NONCE_NONE_def DUPLICATE_NONCE_IN_SAME_def
      DUPLICATE_NONCE_IN_OTHER_def DUPLICATE_NONCE_OUT_SAME_def DUPLICATE_NONCE_OUT_OTHER_def bit_flags)

lemma int_zero_bits: "(x :: int) = 0 \<longleftrightarrow> (\<forall>n. \<not> bit x n)"
  by (simp add: bit_eq_iff)

lemma no_flag:
  "(\<forall>n. \<not> ((\<exists>r \<in> A. P r \<and> n = f r) \<or> (\<exists>r \<in> B. Q r \<and> n = g r))) \<longleftrightarrow> (\<forall>r \<in> A. \<not> P r) \<and> (\<forall>r \<in> B. \<not> Q r)"
  by blast

lemma findDuplicateNonce_none:
  "findDuplicateNonce e nonce face = DUPLICATE_NONCE_NONE \<longleftrightarrow>
     (\<forall>r \<in> set (pe_in e). ir_lastNonce r \<noteq> nonce) \<and> (\<forall>r \<in> set (pe_out e). or_lastNonce r \<noteq> nonce)"
  unfolding DUPLICATE_NONCE_NONE_def int_zero_bits findDuplicateNonce_bit by (rule no_flag)

lemma findDuplicateNonce_in_same:
  "findDuplicateNonce e nonce face AND DUPLICATE_NONCE_IN_SAME \<noteq> 0 \<longleftrightarrow>
     (\<exists>r \<in> set (pe_in e). ir_lastNonce r = nonce \<and> ir_face r = face)"
proof -
  have "findDuplicateNonce e nonce face AND 1 \<noteq> 0 \<longleftrightarrow> bit (findDuplicateNonce e nonce face) 0"
    unfolding int_zero_bits bit_and_iff bit_flags by blast
  then show ?thesis unfolding DUPLICATE_NONCE_IN_SAME_def findDuplicateNonce_bit by auto
qed

section \<open>Records\<close>

lemma max_element_max: "x = best \<or> x \<in> set xs \<Longrightarrow> k x \<le> k (max_element k best xs)"
proof (induction xs arbitrary: best x)
  case (Cons y ys)
  have m: "k z \<le> k (max_element k b ys)" if "z = b" for z b using Cons.IH [of z b] that by simp
  show ?case
  proof (cases "x \<in> set ys")
    case True
    then show ?thesis using Cons.IH by simp
  next
    case False
    then have "k x \<le> k (if k best < k y then y else best)" using Cons.prems by auto
    then show ?thesis using m [OF refl, of "if k best < k y then y else best"] by simp
  qed
qed simp

lemma max_element_in: "max_element k best xs = best \<or> max_element k best xs \<in> set xs"
  by (induction xs arbitrary: best) auto

lemma getLastOutgoing_latest:
  assumes "getLastOutgoing e = Inr t"
  shows "\<exists>r \<in> set (pe_out e). or_lastRenewed r = t" "\<forall>r \<in> set (pe_out e). or_lastRenewed r \<le> t"
proof -
  obtain r rs where e: "pe_out e = r # rs" "t = or_lastRenewed (max_element or_lastRenewed r rs)"
    using assms by (auto simp: getLastOutgoing_def split: list.splits)
  then show "\<exists>r \<in> set (pe_out e). or_lastRenewed r = t" using max_element_in [of or_lastRenewed r rs] by auto
  show "\<forall>r \<in> set (pe_out e). or_lastRenewed r \<le> t"
    using e max_element_max [where k = or_lastRenewed and best = r and xs = rs] by auto
qed

lemma decidePerPitEntry_total: "\<exists>r. decidePerPitEntry rp now e = Inr r"
  by (auto simp: decidePerPitEntry_def hasPendingOutRecords_def getLastOutgoing_def Let_def split: list.splits)

lemma decidePerPitEntry_keeps:
  assumes "decidePerPitEntry rp now e = Inr (res, e')"
  shows "pe_interest e' = pe_interest e" "pe_in e' = pe_in e" "pe_out e' = pe_out e" "pe_nte e' = pe_nte e"
    "pe_expiryTimer e' = pe_expiryTimer e" "pe_isSatisfied e' = pe_isSatisfied e"
    "pe_dataFreshnessPeriod e' = pe_dataFreshnessPeriod e"
  using assms by (auto simp: decidePerPitEntry_def Let_def res_simps split: if_splits)

lemma next_interval_ok:
  assumes "retx_ok rp" "rp_initialInterval rp \<le> v" "v \<le> rp_maxInterval rp"
  shows "v \<le> next_interval rp v" "next_interval rp v \<le> rp_maxInterval rp"
    "v < next_interval rp v \<longleftrightarrow> v < rp_maxInterval rp \<and> 1 < rp_multiplier rp"
proof -
  have v: "0 < v" "1 \<le> rp_multiplier rp" using assms by (auto simp: retx_ok_def)
  have "v * 1 \<le> v * rp_multiplier rp" using v by (intro mult_left_mono) auto
  moreover have "v * 1 < v * rp_multiplier rp \<longleftrightarrow> 1 < rp_multiplier rp"
    using v by (simp add: mult_less_cancel_left_pos)
  ultimately show "v \<le> next_interval rp v" "next_interval rp v \<le> rp_maxInterval rp"
    "v < next_interval rp v \<longleftrightarrow> v < rp_maxInterval rp \<and> 1 < rp_multiplier rp"
    using assms(3) by (auto simp: next_interval_def)
qed

section \<open>Next hop selection\<close>

lemma eligible_unused:
  assumes "eligible faces inFace i e nh" "\<not> isNextHopEligible faces inFace i nh e True now"
  shows "\<exists>r. getOutRecord e (nh_face nh) = Some r"
  using assms by (cases "getOutRecord e (nh_face nh)") (auto simp: eligible_def isNextHopEligible_def Let_def split: if_splits)

lemma earliest_step_ok:
  assumes "eligible faces inFace i e nh \<Longrightarrow> \<exists>r. getOutRecord e (nh_face nh) = Some r"
  obtains f' t' where "earliest_step faces inFace i e nh (f, t) = Inr (f', t')"
    "f' = f \<or> f' = Some nh \<and> eligible faces inFace i e nh"
proof (cases "eligible faces inFace i e nh")
  case True
  with assms obtain r where "getOutRecord e (nh_face nh) = Some r" by blast
  with True that show ?thesis by (cases "or_lastRenewed r < t") (simp_all add: earliest_step_def)
next
  case False
  with that show ?thesis by (simp add: earliest_step_def)
qed

lemma earliest_total:
  assumes "\<And>nh. nh \<in> set nhs \<Longrightarrow> eligible faces inFace i e nh \<Longrightarrow> \<exists>r. getOutRecord e (nh_face nh) = Some r"
  shows "\<exists>found t'. fold_res (earliest_step faces inFace i e) nhs (f, t) = Inr (found, t') \<and>
    (found = f \<or> (\<exists>nh \<in> set nhs. found = Some nh \<and> eligible faces inFace i e nh))"
  using assms
proof (induction nhs arbitrary: f t)
  case (Cons nh nhs)
  obtain f' t' where s: "earliest_step faces inFace i e nh (f, t) = Inr (f', t')"
      "f' = f \<or> f' = Some nh \<and> eligible faces inFace i e nh"
    using earliest_step_ok [of faces inFace i e nh f t] Cons.prems [of nh] by auto
  obtain g u where "fold_res (earliest_step faces inFace i e) nhs (f', t') = Inr (g, u)"
      "g = f' \<or> (\<exists>nh \<in> set nhs. g = Some nh \<and> eligible faces inFace i e nh)"
    using Cons.IH [of f' t'] Cons.prems by auto
  with s show ?case by auto
qed simp

text \<open>
  The assumption of the search for the earliest out-record, that every eligible next hop has
  one, is what the search for an unused next hop leaves behind.
\<close>

lemma earliest_after_unused:
  assumes "find (\<lambda>nh. isNextHopEligible faces inFace i nh e True now) nhs = None"
  shows "\<exists>found. findEligibleNextHopWithEarliestOutRecord faces inFace i nhs e = Inr found \<and>
    (\<forall>nh. found = Some nh \<longrightarrow> nh \<in> set nhs \<and> eligible faces inFace i e nh)"
proof -
  have "\<exists>r. getOutRecord e (nh_face nh) = Some r" if "nh \<in> set nhs" "eligible faces inFace i e nh" for nh
    using eligible_unused [OF that(2)] assms that(1) by (auto simp: find_None_iff)
  then obtain found t where "fold_res (earliest_step faces inFace i e) nhs (None, 2 ^ 63 - 1) = Inr (found, t)"
      "found = None \<or> (\<exists>nh \<in> set nhs. found = Some nh \<and> eligible faces inFace i e nh)"
    using earliest_total [of nhs faces inFace i e None "2 ^ 63 - 1"] by blast
  then show ?thesis unfolding findEligibleNextHopWithEarliestOutRecord_def by auto
qed

lemma eligible_not_ingress:
  assumes "eligible faces inFace i e nh"
  shows "nh_face nh \<noteq> inFace \<or> f_linkType (faces inFace) = AD_HOC"
    "\<not> wouldViolateScope (faces inFace) i (faces (nh_face nh))"
  using assms by (auto simp: eligible_def isNextHopEligible_def Let_def split: if_splits)

lemma eligible_unused_imp: "isNextHopEligible faces inFace i nh e True now \<Longrightarrow> eligible faces inFace i e nh"
  by (auto simp: eligible_def isNextHopEligible_def Let_def split: if_splits)

section \<open>Properties\<close>

text \<open>
  The duplicate-nonce flags of a PIT entry: a flag is set exactly when an in-record (bits 0 and 1)
  or an out-record (bits 2 and 3) has the nonce, the even bits for the same face, the odd ones for
  another; no flag is set iff no record has the nonce.
\<close>

theorem duplicate_nonce_flags:
  "(bit (findDuplicateNonce e nonce face) n \<longleftrightarrow>
     (\<exists>r \<in> set (pe_in e). ir_lastNonce r = nonce \<and> n = (if ir_face r = face then 0 else 1)) \<or>
     (\<exists>r \<in> set (pe_out e). or_lastNonce r = nonce \<and> n = (if or_face r = face then 2 else 3))) \<and>
   (findDuplicateNonce e nonce face = DUPLICATE_NONCE_NONE \<longleftrightarrow>
     nonce \<notin> ir_lastNonce ` set (pe_in e) \<and> nonce \<notin> or_lastNonce ` set (pe_out e))"
  using findDuplicateNonce_bit [of e nonce face n] findDuplicateNonce_none [of e nonce face] by auto



end
