(* ===== verification/Strategy_Choice.thy ===== *)
theory Strategy_Choice
  imports Measurements Fw_Algorithm
begin

text \<open>
  The strategy choice table (\<open>daemon/table/strategy-choice.cpp\<close>): which strategy governs which
  prefix.  The strategy that \<open>Strategy::create\<close> built (or why it built none) is an argument of
  \<open>insert\<close>.  A change of strategy type clears the strategy information under the prefix, down to
  prefixes with a choice of their own.
\<close>

datatype StrategyType = BestRouteStrategy | MulticastStrategy

record strategy =
  st_instanceName :: name
  st_type :: StrategyType
  st_retx :: retx_params

type_synonym fw_pit = "(fib_entry, measurements_entry, strategy) pit"
type_synonym fw_tree = "(fib_entry, measurements_entry, strategy) name_tree"

record strategy_choice =
  sc_pit :: fw_pit
  sc_nItems :: "64 word"

definition sc_nt :: "strategy_choice \<Rightarrow> fw_tree" where "sc_nt sc = pit_nt (sc_pit sc)"

definition sc_set_nt :: "fw_tree \<Rightarrow> strategy_choice \<Rightarrow> strategy_choice" where
  "sc_set_nt nt sc = sc\<lparr>sc_pit := (sc_pit sc)\<lparr>pit_nt := nt\<rparr>\<rparr>"

definition setDefaultStrategy :: "strategy \<Rightarrow> strategy_choice \<Rightarrow> strategy_choice res" where
  "setDefaultStrategy st sc =
     bind_res (nt_lookup [] 0 (sc_nt sc)) (\<lambda>nt.
     Inr (sc_set_nt (setStrategyChoiceEntry (Some st) [] nt) sc\<lparr>sc_nItems := sc_nItems sc + 1\<rparr>))"

definition strategy_at :: "fw_tree \<Rightarrow> name option \<Rightarrow> strategy res" where
  "strategy_at nt found =
     (case found of
        None \<Rightarrow> Inl AssertionFailed
      | Some p \<Rightarrow> (case sc_at nt p of Some st \<Rightarrow> Inr st | None \<Rightarrow> Inl UndefinedBehavior))"

definition findEffectiveStrategy :: "name \<Rightarrow> fw_tree \<Rightarrow> strategy res" where
  "findEffectiveStrategy n nt =
     strategy_at nt (findLongestPrefixMatch n (\<lambda>_ e. nteHasStrategyChoiceEntry e) nt)"

definition findEffectiveStrategy_pit :: "name \<Rightarrow> name option \<Rightarrow> fw_tree \<Rightarrow> strategy res" where
  "findEffectiveStrategy_pit pitName pitNte nt =
     (case pitNte of
        None \<Rightarrow> Inl AssertionFailed
      | Some nte \<Rightarrow> strategy_at nt (findLongestPrefixMatch_pit pitName nte (\<lambda>_ e. nteHasStrategyChoiceEntry e) nt))"

definition clear_entry_info :: "pit_entry \<Rightarrow> pit_entry" where
  "clear_entry_info e = e\<lparr>pe_suppression := None, pe_out := map (\<lambda>r. r\<lparr>or_suppression := None\<rparr>) (pe_out e)\<rparr>"

definition clearStrategyInfo :: "name \<Rightarrow> fw_pit \<Rightarrow> fw_pit" where
  "clearStrategyInfo nte p =
     (let p = fold (\<lambda>r. pit_modify r clear_entry_info) (pit_at (pit_nt p) nte) p
      in case meas_at (pit_nt p) nte of
           None \<Rightarrow> p
         | Some m \<Rightarrow> p\<lparr>pit_nt := setMeasurementsEntry (Some (m\<lparr>me_info := []\<rparr>)) nte (pit_nt p)\<rparr>)"

definition changed_pred :: "name \<Rightarrow> name \<Rightarrow> ('f, 'm, 's) nte \<Rightarrow> bool \<times> bool" where
  "changed_pred root n nte =
     (if n = root then (True, True) else if nte_sc nte \<noteq> None then (False, False) else (True, True))"

definition changeStrategy :: "name \<Rightarrow> strategy \<Rightarrow> strategy \<Rightarrow> fw_pit \<Rightarrow> fw_pit" where
  "changeStrategy pfx oldStrategy newStrategy p =
     (if st_type oldStrategy = st_type newStrategy then p
      else fold clearStrategyInfo (partialEnumerate pfx (changed_pred pfx) (pit_nt p)) p)"

datatype InsertResult = OK | NOT_REGISTERED | EXCEPTION | DEPTH_EXCEEDED

definition sc_insert :: "name \<Rightarrow> strategy option res \<Rightarrow> strategy_choice \<Rightarrow> (InsertResult \<times> strategy_choice) res" where
  "sc_insert pfx created sc =
     (if getMaxDepth < length pfx then Inr (DEPTH_EXCEEDED, sc)
      else case created of
        Inl _ \<Rightarrow> Inr (EXCEPTION, sc)
      | Inr None \<Rightarrow> Inr (NOT_REGISTERED, sc)
      | Inr (Some st) \<Rightarrow>
          bind_res (nt_lookup pfx (length pfx) (sc_nt sc)) (\<lambda>nt.
          let sc = sc_set_nt nt sc in
          case sc_at nt pfx of
            Some old \<Rightarrow>
              if st_instanceName old = st_instanceName st then Inr (OK, sc)
              else let sc = sc\<lparr>sc_pit := changeStrategy pfx old st (sc_pit sc)\<rparr>
                   in Inr (OK, sc_set_nt (setStrategyChoiceEntry (Some st) pfx (sc_nt sc)) sc)
          | None \<Rightarrow>
              bind_res (findEffectiveStrategy pfx nt) (\<lambda>old.
              let sc = sc_set_nt (setStrategyChoiceEntry (Some st) pfx nt) sc\<lparr>sc_nItems := sc_nItems sc + 1\<rparr>;
                  sc = sc\<lparr>sc_pit := changeStrategy pfx old st (sc_pit sc)\<rparr>
              in Inr (OK, sc_set_nt (setStrategyChoiceEntry (Some st) pfx (sc_nt sc)) sc))))"

definition sc_erase :: "name \<Rightarrow> strategy_choice \<Rightarrow> strategy_choice res" where
  "sc_erase pfx sc =
     assert_res (0 < length pfx)
       (case findExactMatch pfx (length pfx) (sc_nt sc) of
          None \<Rightarrow> Inr sc
        | Some nte \<Rightarrow>
            (case sc_at (sc_nt sc) nte of
               None \<Rightarrow> Inr sc
             | Some old \<Rightarrow>
                 bind_res (findEffectiveStrategy (getPrefix pfx (-1)) (sc_nt sc)) (\<lambda>parentStrategy.
                 let sc = sc\<lparr>sc_pit := changeStrategy pfx old parentStrategy (sc_pit sc)\<rparr>;
                     nt = fst (eraseIfEmpty nte True (setStrategyChoiceEntry None nte (sc_nt sc)))
                 in Inr (sc_set_nt nt sc\<lparr>sc_nItems := sc_nItems sc - 1\<rparr>))))"

definition sc_get :: "name \<Rightarrow> strategy_choice \<Rightarrow> bool \<times> name" where
  "sc_get pfx sc =
     (case findExactMatch pfx (length pfx) (sc_nt sc) of
        None \<Rightarrow> (False, [])
      | Some nte \<Rightarrow> (case sc_at (sc_nt sc) nte of None \<Rightarrow> (False, []) | Some st \<Rightarrow> (True, st_instanceName st)))"

text \<open>The effective strategy of a name in the abstract: that of the longest prefix that has one.\<close>

definition effective :: "(name \<Rightarrow> strategy option) \<Rightarrow> name \<Rightarrow> strategy option" where
  "effective choice n = Option.bind (find (\<lambda>p. choice p \<noteq> None) (candidates n)) choice"

section \<open>The effective strategy\<close>

lemma strategy_at_find:
  assumes "sc_at nt [] \<noteq> None"
  shows "\<exists>st. strategy_at nt (find (\<lambda>p. sc_at nt p \<noteq> None) (candidates n)) = Inr st \<and> effective (sc_at nt) n = Some st"
proof -
  obtain p e where "find (\<lambda>p. sc_at nt p \<noteq> None) (candidates n) = Some p" "sc_at nt p = Some e"
    using sc_table.lpm_at_root [OF assms, of n] sc_table.lpm_at [of n nt] by auto
  then show ?thesis by (simp add: strategy_at_def effective_def)
qed

lemma findEffectiveStrategy_effective:
  assumes "sc_at nt [] \<noteq> None"
  shows "\<exists>st. findEffectiveStrategy n nt = Inr st \<and> effective (sc_at nt) n = Some st"
  using strategy_at_find [OF assms, of n] by (simp add: findEffectiveStrategy_def sc_table.lpm_at)

lemma findEffectiveStrategy_pit_effective:
  assumes "nt_inv nt" "sc_at nt [] \<noteq> None" "map_of nt pn \<noteq> None" "prefix pn n"
  shows "\<exists>st. findEffectiveStrategy_pit n (Some pn) nt = Inr st \<and> effective (sc_at nt) n = Some st"
  using strategy_at_find [OF assms(2), of n] sc_table.lpm_pit_at [OF assms(1,3,4)]
  by (simp add: findEffectiveStrategy_pit_def)

section \<open>Properties\<close>

text \<open>
  Once the root has a strategy, every name has one: that of the longest prefix in the strategy
  choice table, and the search that starts at a PIT entry finds the same.
\<close>

theorem effective_strategy_longest:
  assumes "nt_inv nt" "sc_at nt [] \<noteq> None" "map_of nt pn \<noteq> None" "prefix pn n"
  shows "\<exists>p st. findEffectiveStrategy n nt = Inr st \<and> findEffectiveStrategy_pit n (Some pn) nt = Inr st \<and> prefix p n \<and> sc_at nt p = Some st \<and>
    (\<forall>q. prefix q n \<and> length p < length q \<and> length q \<le> getMaxDepth \<longrightarrow> sc_at nt q = None)"
proof -
  obtain st where st: "findEffectiveStrategy n nt = Inr st" "effective (sc_at nt) n = Some st"
    using findEffectiveStrategy_effective [OF assms(2)] by blast
  then obtain p where p: "find (\<lambda>p. sc_at nt p \<noteq> None) (candidates n) = Some p" "sc_at nt p = Some st"
    by (auto simp: effective_def bind_eq_Some_conv)
  from candidates_longest [OF p(1)] st p(2) findEffectiveStrategy_pit_effective [OF assms] show ?thesis by auto
qed

theorem effective_strategy_longest_witness:
  "\<exists>st. findEffectiveStrategy [Component 8 [1]] [([], new_nte\<lparr>nte_sc := Some \<lparr>st_instanceName = [], st_type = BestRouteStrategy, st_retx = default_retx\<rparr>\<rparr>)] = Inr st
     \<and> st_type st = BestRouteStrategy"
proof -
  let ?st = "\<lparr>st_instanceName = [], st_type = BestRouteStrategy, st_retx = default_retx\<rparr>"
  let ?nt = "[([], new_nte\<lparr>nte_sc := Some ?st\<rparr>)] :: fw_tree"
  have "nt_inv ?nt" by (auto simp: nt_inv_def new_nte_def getMaxDepth_def)
  moreover have "sc_at ?nt p = (if p = [] then Some ?st else None)" for p by (simp add: sc_at_def nt_content_def nte_content_def)
  ultimately show ?thesis using effective_strategy_longest [of ?nt "[]" "[Component 8 [1]]"] by (auto split: if_splits)
qed

end
