(* ===== verification/City_Hash.thy ===== *)
theory City_Hash
  imports Names
begin

text \<open>
  CityHash64 (\<open>daemon/common/city-hash.cpp\<close>), the hash under the name tree and the dead
  nonce list, on a little-endian host. A load takes an offset from the start of the buffer and
  is undefined behaviour when it leaves the buffer, so that a result of the hash also says that
  no byte outside of it was read.
\<close>

definition k0 :: "64 word" where "k0 = 0xc3a5c85c97cb3127"
definition k1 :: "64 word" where "k1 = 0xb492b66fbe98f273"
definition k2 :: "64 word" where "k2 = 0x9ae16a3b2f90404f"

definition Fetch64 :: "bytes \<Rightarrow> int \<Rightarrow> 64 word res" where
  "Fetch64 s p =
     (if 0 \<le> p \<and> p + 8 \<le> int (length s) then Inr (word_of_nat (be_nat (rev (take 8 (drop (nat p) s)))))
      else Inl UndefinedBehavior)"

definition Fetch32 :: "bytes \<Rightarrow> int \<Rightarrow> 32 word res" where
  "Fetch32 s p =
     (if 0 \<le> p \<and> p + 4 \<le> int (length s) then Inr (word_of_nat (be_nat (rev (take 4 (drop (nat p) s)))))
      else Inl UndefinedBehavior)"

definition char_at :: "bytes \<Rightarrow> nat \<Rightarrow> byte res" where
  "char_at s p = (if p < length s then Inr (s ! p) else Inl UndefinedBehavior)"

definition bswap_64 :: "64 word \<Rightarrow> 64 word" where
  "bswap_64 w = word_of_nat (be_nat (rev (be_bytes 8 (unat w))))"

definition Rotate :: "64 word \<Rightarrow> nat \<Rightarrow> 64 word" where
  "Rotate val shift = (if shift = 0 then val else drop_bit shift val OR push_bit (64 - shift) val)"

definition ShiftMix :: "64 word \<Rightarrow> 64 word" where
  "ShiftMix val = val XOR drop_bit 47 val"

definition HashLen16_mul :: "64 word \<Rightarrow> 64 word \<Rightarrow> 64 word \<Rightarrow> 64 word" where
  "HashLen16_mul u v mul =
     (let a = (u XOR v) * mul;
          a = a XOR drop_bit 47 a;
          b = (v XOR a) * mul;
          b = b XOR drop_bit 47 b
      in b * mul)"

definition Hash128to64 :: "64 word \<times> 64 word \<Rightarrow> 64 word" where
  "Hash128to64 x =
     (let kMul = 0x9ddfea08eb382d69;
          a = (fst x XOR snd x) * kMul;
          a = a XOR drop_bit 47 a;
          b = (snd x XOR a) * kMul;
          b = b XOR drop_bit 47 b
      in b * kMul)"

definition HashLen16 :: "64 word \<Rightarrow> 64 word \<Rightarrow> 64 word" where
  "HashLen16 u v = Hash128to64 (u, v)"

definition HashLen0to16 :: "bytes \<Rightarrow> 64 word res" where
  "HashLen0to16 s =
     (let len = length s; n = int len in
      if 8 \<le> len then
        let mul = k2 + word_of_nat len * 2 in
        bind_res (Fetch64 s 0) (\<lambda>f0.
        let a = f0 + k2 in
        bind_res (Fetch64 s (n - 8)) (\<lambda>b.
        let c = Rotate b 37 * mul + a;
            d = (Rotate a 25 + b) * mul
        in Inr (HashLen16_mul c d mul)))
      else if 4 \<le> len then
        let mul = k2 + word_of_nat len * 2 in
        bind_res (Fetch32 s 0) (\<lambda>a.
        bind_res (Fetch32 s (n - 4)) (\<lambda>b.
        Inr (HashLen16_mul (word_of_nat len + push_bit 3 (ucast a)) (ucast b) mul)))
      else if 0 < len then
        bind_res (char_at s 0) (\<lambda>a.
        bind_res (char_at s (len div 2)) (\<lambda>b.
        bind_res (char_at s (len - 1)) (\<lambda>c.
        let y = ucast a + push_bit 8 (ucast b) :: 32 word;
            z = word_of_nat len + push_bit 2 (ucast c) :: 32 word
        in Inr (ShiftMix (ucast y * k2 XOR ucast z * k0) * k2))))
      else Inr k2)"

definition HashLen17to32 :: "bytes \<Rightarrow> 64 word res" where
  "HashLen17to32 s =
     (let n = int (length s); mul = k2 + word_of_nat (length s) * 2 in
      bind_res (Fetch64 s 0) (\<lambda>f0.
      bind_res (Fetch64 s 8) (\<lambda>b.
      bind_res (Fetch64 s (n - 8)) (\<lambda>f2.
      bind_res (Fetch64 s (n - 16)) (\<lambda>f3.
      let a = f0 * k1; c = f2 * mul; d = f3 * k2
      in Inr (HashLen16_mul (Rotate (a + b) 43 + Rotate c 30 + d) (a + Rotate (b + k2) 18 + c) mul))))))"

definition WeakHashLen32_words ::
  "64 word \<Rightarrow> 64 word \<Rightarrow> 64 word \<Rightarrow> 64 word \<Rightarrow> 64 word \<Rightarrow> 64 word \<Rightarrow> 64 word \<times> 64 word" where
  "WeakHashLen32_words w x y z a b =
     (let a = a + w;
          b = Rotate (b + a + z) 21;
          c = a;
          a = a + x;
          a = a + y;
          b = b + Rotate a 44
      in (a + z, b + c))"

definition WeakHashLen32WithSeeds :: "bytes \<Rightarrow> int \<Rightarrow> 64 word \<Rightarrow> 64 word \<Rightarrow> (64 word \<times> 64 word) res" where
  "WeakHashLen32WithSeeds s p a b =
     bind_res (Fetch64 s p) (\<lambda>w.
     bind_res (Fetch64 s (p + 8)) (\<lambda>x.
     bind_res (Fetch64 s (p + 16)) (\<lambda>y.
     bind_res (Fetch64 s (p + 24)) (\<lambda>z.
     Inr (WeakHashLen32_words w x y z a b)))))"

definition HashLen33to64 :: "bytes \<Rightarrow> 64 word res" where
  "HashLen33to64 s =
     (let n = int (length s); mul = k2 + word_of_nat (length s) * 2 in
      bind_res (Fetch64 s 0) (\<lambda>f0.
      bind_res (Fetch64 s 8) (\<lambda>b.
      bind_res (Fetch64 s (n - 24)) (\<lambda>c.
      bind_res (Fetch64 s (n - 32)) (\<lambda>d.
      bind_res (Fetch64 s 16) (\<lambda>f4.
      bind_res (Fetch64 s 24) (\<lambda>f5.
      bind_res (Fetch64 s (n - 8)) (\<lambda>g.
      bind_res (Fetch64 s (n - 16)) (\<lambda>f7.
      let a = f0 * k2; e = f4 * k2; f = f5 * 9; h = f7 * mul;
          u = Rotate (a + g) 43 + (Rotate b 30 + c) * 9;
          v = ((a + g) XOR d) + f + 1;
          w = bswap_64 ((u + v) * mul) + h;
          x = Rotate (e + f) 42 + c;
          y = (bswap_64 ((v + w) * mul) + g) * mul;
          z = e + f + c;
          a = bswap_64 ((x + z) * mul + y) + b;
          b = ShiftMix ((z + a) * mul + d + h) * mul
      in Inr (b + x))))))))))"

record city_state =
  ch_x :: "64 word"
  ch_y :: "64 word"
  ch_z :: "64 word"
  ch_v :: "64 word \<times> 64 word"
  ch_w :: "64 word \<times> 64 word"

definition city64_body :: "bytes \<Rightarrow> int \<Rightarrow> city_state \<Rightarrow> city_state res" where
  "city64_body s p st =
     (let y = ch_y st; z = ch_z st; v = ch_v st; w = ch_w st in
      bind_res (Fetch64 s (p + 8)) (\<lambda>f8.
      bind_res (Fetch64 s (p + 48)) (\<lambda>f48.
      bind_res (Fetch64 s (p + 40)) (\<lambda>f40.
      let x = Rotate (ch_x st + y + fst v + f8) 37 * k1;
          y = Rotate (y + snd v + f48) 42 * k1;
          x = x XOR snd w;
          y = y + fst v + f40;
          z = Rotate (z + fst w) 33 * k1
      in bind_res (WeakHashLen32WithSeeds s p (snd v * k1) (x + fst w)) (\<lambda>v'.
         bind_res (Fetch64 s (p + 16)) (\<lambda>f16.
         bind_res (WeakHashLen32WithSeeds s (p + 32) (z + snd w) (y + f16)) (\<lambda>w'.
         Inr \<lparr>ch_x = z, ch_y = y, ch_z = x, ch_v = v', ch_w = w'\<rparr>)))))))"

text \<open>The chunk loop, with the number of 64-byte chunks still to be read.\<close>

primrec city64_loop :: "bytes \<Rightarrow> nat \<Rightarrow> int \<Rightarrow> city_state \<Rightarrow> city_state res" where
  "city64_loop s 0 p st = Inr st"
| "city64_loop s (Suc k) p st = bind_res (city64_body s p st) (city64_loop s k (p + 64))"

definition CityHash64_long :: "bytes \<Rightarrow> 64 word res" where
  "CityHash64_long s =
     (let n = int (length s); len = word_of_nat (length s) in
      bind_res (Fetch64 s (n - 40)) (\<lambda>x.
      bind_res (Fetch64 s (n - 16)) (\<lambda>f16.
      bind_res (Fetch64 s (n - 56)) (\<lambda>f56.
      bind_res (Fetch64 s (n - 48)) (\<lambda>f48.
      bind_res (Fetch64 s (n - 24)) (\<lambda>f24.
      let y = f16 + f56; z = HashLen16 (f48 + len) f24 in
      bind_res (WeakHashLen32WithSeeds s (n - 64) len z) (\<lambda>v.
      bind_res (WeakHashLen32WithSeeds s (n - 32) (y + k1) x) (\<lambda>w.
      bind_res (Fetch64 s 0) (\<lambda>f0.
      bind_res (city64_loop s ((length s - 1) div 64) 0
                  \<lparr>ch_x = x * k1 + f0, ch_y = y, ch_z = z, ch_v = v, ch_w = w\<rparr>) (\<lambda>st.
      Inr (HashLen16 (HashLen16 (fst (ch_v st)) (fst (ch_w st)) + ShiftMix (ch_y st) * k1 + ch_z st)
             (HashLen16 (snd (ch_v st)) (snd (ch_w st)) + ch_x st))))))))))))"

definition CityHash64 :: "bytes \<Rightarrow> 64 word res" where
  "CityHash64 s =
     (if length s \<le> 32 then if length s \<le> 16 then HashLen0to16 s else HashLen17to32 s
      else if length s \<le> 64 then HashLen33to64 s
      else CityHash64_long s)"

definition CityHash64WithSeeds :: "bytes \<Rightarrow> 64 word \<Rightarrow> 64 word \<Rightarrow> 64 word res" where
  "CityHash64WithSeeds s seed0 seed1 =
     bind_res (CityHash64 s) (\<lambda>h. Inr (HashLen16 (h - seed0) seed1))"

definition CityHash64WithSeed :: "bytes \<Rightarrow> 64 word \<Rightarrow> 64 word res" where
  "CityHash64WithSeed s seed = CityHash64WithSeeds s k2 seed"

section \<open>No read leaves the buffer\<close>

lemma Fetch64_ok: "0 \<le> p \<Longrightarrow> p + 8 \<le> int (length s) \<Longrightarrow> \<exists>x. Fetch64 s p = Inr x"
  by (simp add: Fetch64_def)

lemma Fetch32_ok: "0 \<le> p \<Longrightarrow> p + 4 \<le> int (length s) \<Longrightarrow> \<exists>x. Fetch32 s p = Inr x"
  by (simp add: Fetch32_def)

lemma bind_total: "\<exists>x. m = Inr x \<Longrightarrow> (\<And>x. \<exists>y. f x = Inr y) \<Longrightarrow> \<exists>y. bind_res m f = Inr y"
  by auto

lemma WeakHashLen32_ok: "0 \<le> p \<Longrightarrow> p + 32 \<le> int (length s) \<Longrightarrow> \<exists>x. WeakHashLen32WithSeeds s p a b = Inr x"
  unfolding WeakHashLen32WithSeeds_def by (intro bind_total Fetch64_ok) auto

lemma city64_body_ok: "0 \<le> p \<Longrightarrow> p + 64 \<le> int (length s) \<Longrightarrow> \<exists>x. city64_body s p st = Inr x"
  unfolding city64_body_def Let_def by (intro bind_total Fetch64_ok WeakHashLen32_ok) auto

lemma city64_loop_ok: "0 \<le> p \<Longrightarrow> p + 64 * int k \<le> int (length s) \<Longrightarrow> \<exists>x. city64_loop s k p st = Inr x"
proof (induction k arbitrary: p st)
  case (Suc k)
  then have "\<exists>x. city64_body s p st = Inr x" by (intro city64_body_ok) auto
  with Suc.prems Suc.IH [of "p + 64"] show ?case by auto
qed simp

lemma HashLen0to16_ok: "\<exists>h. HashLen0to16 s = Inr h"
proof -
  have "0 < length s \<Longrightarrow> length s div 2 < length s" by arith
  then show ?thesis by (auto simp: HashLen0to16_def Let_def char_at_def Fetch64_def Fetch32_def)
qed

lemma HashLen17to32_ok: "17 \<le> length s \<Longrightarrow> \<exists>h. HashLen17to32 s = Inr h"
  unfolding HashLen17to32_def Let_def by (intro bind_total Fetch64_ok) auto

lemma HashLen33to64_ok: "33 \<le> length s \<Longrightarrow> \<exists>h. HashLen33to64 s = Inr h"
  unfolding HashLen33to64_def Let_def by (intro bind_total Fetch64_ok) auto

lemma CityHash64_long_ok: "64 < length s \<Longrightarrow> \<exists>h. CityHash64_long s = Inr h"
  unfolding CityHash64_long_def Let_def
  by (intro bind_total Fetch64_ok WeakHashLen32_ok city64_loop_ok) auto

lemma CityHash64_ok: "\<exists>h. CityHash64 s = Inr h"
  using HashLen0to16_ok [of s] HashLen17to32_ok [of s] HashLen33to64_ok [of s] CityHash64_long_ok [of s]
  by (auto simp: CityHash64_def)

lemma CityHash64WithSeed_ok: "\<exists>h. CityHash64WithSeed s seed = Inr h"
  using CityHash64_ok [of s] by (auto simp: CityHash64WithSeed_def CityHash64WithSeeds_def)

section \<open>Properties\<close>

text \<open>The hash function reads only inside its buffer, for input of any length.\<close>

theorem hash_in_bounds: "\<exists>h. CityHash64WithSeed s seed = Inr h"
  by (rule CityHash64WithSeed_ok)

end
