(* ===== verification/Dead_Nonce_List.thy ===== *)
theory Dead_Nonce_List
  imports City_Hash
begin

text \<open>
  The dead nonce list (\<open>daemon/table/dead-nonce-list.cpp\<close>): a queue of 64-bit hashes of
  name and nonce, in which MARK entries measure how long an entry stays. The hashed index of the
  container holds the same elements as the queue and is not represented separately.
\<close>

type_synonym nonce = "32 word"
type_synonym dnl_entry = "64 word"

record dnl =
  dnl_queue :: "dnl_entry list"
  dnl_capacity :: nat
  dnl_actualMarkCounts :: "nat list"

definition INITIAL_CAPACITY :: nat where "INITIAL_CAPACITY = 2 ^ 14"
definition MIN_CAPACITY :: nat where "MIN_CAPACITY = 2 ^ 10"
definition MAX_CAPACITY :: nat where "MAX_CAPACITY = 2 ^ 24"
definition EVICT_LIMIT :: nat where "EVICT_LIMIT = 64"
definition EXPECTED_MARK_COUNT :: nat where "EXPECTED_MARK_COUNT = 5"
definition MARK :: dnl_entry where "MARK = 0"

definition new_dnl :: dnl where
  "new_dnl = \<lparr>dnl_queue = replicate EXPECTED_MARK_COUNT MARK, dnl_capacity = INITIAL_CAPACITY,
     dnl_actualMarkCounts = []\<rparr>"

text \<open>
  The seed is the four nonce bytes read as a native (little-endian) 32-bit integer; a nonce is
  represented by its big-endian value.
\<close>

definition makeEntry :: "name \<Rightarrow> nonce \<Rightarrow> dnl_entry res" where
  "makeEntry n nonce =
     CityHash64WithSeed (name_wireEncode n) (word_of_nat (be_nat (rev (be_bytes 4 (unat nonce)))))"

definition countMarks :: "dnl \<Rightarrow> nat" where
  "countMarks d = length (filter (\<lambda>e. e = MARK) (dnl_queue d))"

definition dnl_size :: "dnl \<Rightarrow> nat" where
  "dnl_size d = length (dnl_queue d) - countMarks d"

definition dnl_has :: "name \<Rightarrow> nonce \<Rightarrow> dnl \<Rightarrow> bool res" where
  "dnl_has n nonce d = bind_res (makeEntry n nonce) (\<lambda>e. Inr (e \<in> set (dnl_queue d)))"

definition evictEntries :: "dnl \<Rightarrow> dnl res" where
  "evictEntries d =
     (if length (dnl_queue d) \<le> dnl_capacity d then Inr d
      else let nEvict = min (length (dnl_queue d) - dnl_capacity d) EVICT_LIMIT;
               d' = d\<lparr>dnl_queue := drop nEvict (dnl_queue d)\<rparr>
           in assert_res (dnl_capacity d' \<le> length (dnl_queue d')) (Inr d'))"

definition dnl_add :: "name \<Rightarrow> nonce \<Rightarrow> dnl \<Rightarrow> dnl res" where
  "dnl_add n nonce d =
     bind_res (makeEntry n nonce) (\<lambda>e.
     if e \<in> set (dnl_queue d) then Inr (d\<lparr>dnl_queue := remove1 e (dnl_queue d) @ [e]\<rparr>)
     else evictEntries (d\<lparr>dnl_queue := dnl_queue d @ [e]\<rparr>))"

definition mark :: "dnl \<Rightarrow> dnl" where
  "mark d =
     (let d = d\<lparr>dnl_queue := dnl_queue d @ [MARK]\<rparr>
      in d\<lparr>dnl_actualMarkCounts := dnl_actualMarkCounts d @ [countMarks d]\<rparr>)"

text \<open>
  The factors 0.9 and 1.2 are doubles within a relative error of \<open>2\<^sup>-\<^sup>5\<^sup>4\<close> of the decimal value, so on
  capacities up to \<open>2\<^sup>2\<^sup>4\<close> the rounded product truncates to the exact quotient.
\<close>

definition adjustCapacity :: "dnl \<Rightarrow> dnl res" where
  "adjustCapacity d =
     (let capacity =
        (if \<forall>c \<in> set (dnl_actualMarkCounts d). EXPECTED_MARK_COUNT < c
         then max MIN_CAPACITY (dnl_capacity d * 9 div 10)
         else if \<forall>c \<in> set (dnl_actualMarkCounts d). c < EXPECTED_MARK_COUNT
         then min MAX_CAPACITY (dnl_capacity d * 12 div 10)
         else dnl_capacity d)
      in evictEntries (d\<lparr>dnl_capacity := capacity, dnl_actualMarkCounts := []\<rparr>))"

datatype dnl_op = Add name nonce | Mark | AdjustCapacity

fun dnl_run :: "dnl_op \<Rightarrow> dnl \<Rightarrow> dnl res" where
  "dnl_run (Add n nonce) d = dnl_add n nonce d"
| "dnl_run Mark d = Inr (mark d)"
| "dnl_run AdjustCapacity d = adjustCapacity d"

definition dnl_inv :: "dnl \<Rightarrow> bool" where
  "dnl_inv d \<longleftrightarrow> distinct (filter (\<lambda>e. e \<noteq> MARK) (dnl_queue d)) \<and>
     MIN_CAPACITY \<le> dnl_capacity d \<and> dnl_capacity d \<le> MAX_CAPACITY"

text \<open>An entry with at most \<open>k\<close> entries behind it in the queue.\<close>

definition near_back :: "nat \<Rightarrow> dnl_entry \<Rightarrow> dnl \<Rightarrow> bool" where
  "near_back k e d \<longleftrightarrow> (\<exists>ys zs. dnl_queue d = ys @ e # zs \<and> length zs \<le> k)"

section \<open>Invariant\<close>

lemma makeEntry_ok: "\<exists>e. makeEntry n nonce = Inr e"
  unfolding makeEntry_def by (rule CityHash64WithSeed_ok)

lemma evictEntries_ok:
  "evictEntries d = Inr (d\<lparr>dnl_queue := drop (min (length (dnl_queue d) - dnl_capacity d) EVICT_LIMIT) (dnl_queue d)\<rparr>)"
  by (auto simp: evictEntries_def Let_def assert_res_def)

lemma dnl_inv_new: "dnl_inv new_dnl"
  by (simp add: dnl_inv_def new_dnl_def MARK_def INITIAL_CAPACITY_def MIN_CAPACITY_def MAX_CAPACITY_def)

lemma distinct_filter_drop: "distinct (filter P xs) \<Longrightarrow> distinct (filter P (drop k xs))"
  by (metis append_take_drop_id distinct_append filter_append)

lemma dnl_inv_evict: "dnl_inv d \<Longrightarrow> evictEntries d = Inr d' \<Longrightarrow> dnl_inv d'"
  by (auto simp: evictEntries_ok dnl_inv_def distinct_filter_drop)

lemma filter_remove1_distinct:
  "distinct (filter P xs) \<Longrightarrow> distinct (filter P (remove1 e xs @ [e]))"
proof (induction xs)
  case (Cons a xs)
  have "P e \<Longrightarrow> distinct (filter P xs) \<Longrightarrow> e \<notin> set (remove1 e xs)"
    by (induction xs) (auto split: if_splits)
  with Cons show ?case by (auto dest: notin_set_remove1)
qed simp

lemma dnl_inv_add:
  assumes "dnl_inv d" "dnl_add n nonce d = Inr d'"
  shows "dnl_inv d'"
proof -
  obtain e where e: "makeEntry n nonce = Inr e" using makeEntry_ok by blast
  show ?thesis
  proof (cases "e \<in> set (dnl_queue d)")
    case True
    with assms e filter_remove1_distinct [of "\<lambda>e. e \<noteq> MARK" "dnl_queue d" e] show ?thesis
      by (auto simp: dnl_add_def dnl_inv_def simp del: filter_append)
  next
    case False
    then have "dnl_inv (d\<lparr>dnl_queue := dnl_queue d @ [e]\<rparr>)" using assms by (simp add: dnl_inv_def)
    then show ?thesis by (rule dnl_inv_evict) (use False assms e in \<open>simp add: dnl_add_def\<close>)
  qed
qed

lemma dnl_inv_mark: "dnl_inv d \<Longrightarrow> dnl_inv (mark d)"
  by (simp add: dnl_inv_def mark_def Let_def)

lemma dnl_inv_adjust: "dnl_inv d \<Longrightarrow> adjustCapacity d = Inr d' \<Longrightarrow> dnl_inv d'"
  unfolding adjustCapacity_def Let_def
  by (erule dnl_inv_evict [rotated]) (auto simp: dnl_inv_def MIN_CAPACITY_def MAX_CAPACITY_def)

lemma dnl_run_inv: "dnl_inv d \<Longrightarrow> dnl_run op d = Inr d' \<Longrightarrow> dnl_inv d'"
  by (cases op) (auto intro: dnl_inv_add dnl_inv_mark dnl_inv_adjust)

lemma dnl_run_total: "\<exists>d'. dnl_run op d = Inr d'"
proof (cases op)
  case (Add n nonce)
  then show ?thesis using makeEntry_ok [of n nonce] by (auto simp: dnl_add_def evictEntries_ok)
qed (simp_all add: evictEntries_ok adjustCapacity_def Let_def)

section \<open>How long an entry stays\<close>

lemma near_back_has: "makeEntry n nonce = Inr e \<Longrightarrow> near_back k e d \<Longrightarrow> dnl_has n nonce d = Inr True"
  by (auto simp: dnl_has_def near_back_def)

lemma near_back_mono: "near_back j e d \<Longrightarrow> j \<le> k \<Longrightarrow> near_back k e d"
  by (fastforce simp: near_back_def)

lemma near_back_push: "near_back k e d \<Longrightarrow> near_back (Suc k) e (d\<lparr>dnl_queue := dnl_queue d @ [x]\<rparr>)"
  by (fastforce simp: near_back_def)

lemma near_back_relocate:
  assumes "near_back k e d"
  shows "near_back (Suc k) e (d\<lparr>dnl_queue := remove1 x (dnl_queue d) @ [x]\<rparr>)"
proof -
  obtain ys zs where q: "dnl_queue d = ys @ e # zs" "length zs \<le> k"
    using assms by (auto simp: near_back_def)
  consider "x \<in> set ys" | "x \<notin> set ys" "x = e" | "x \<notin> set ys" "x \<noteq> e" by blast
  then show ?thesis
  proof cases
    case 1
    then show ?thesis using q unfolding near_back_def
      by (intro exI [of _ "remove1 x ys"] exI [of _ "zs @ [x]"]) (simp add: remove1_append)
  next
    case 2
    then show ?thesis using q unfolding near_back_def
      by (intro exI [of _ "ys @ zs"] exI [of _ "[]"]) (simp add: remove1_append)
  next
    case 3
    then show ?thesis using q length_remove1 [of x zs] unfolding near_back_def
      by (intro exI [of _ ys] exI [of _ "remove1 x zs @ [x]"]) (auto simp: remove1_append)
  qed
qed

lemma near_back_evict:
  assumes "near_back k e d" "k < dnl_capacity d" "evictEntries d = Inr d'"
  shows "near_back k e d'"
proof -
  obtain ys zs where q: "dnl_queue d = ys @ e # zs" "length zs \<le> k"
    using assms by (auto simp: near_back_def)
  define m where "m = min (length (dnl_queue d) - dnl_capacity d) EVICT_LIMIT"
  have "m \<le> length ys" using q assms(2) by (auto simp: m_def)
  then have "dnl_queue d' = drop m ys @ e # zs" using q assms(3) by (auto simp: evictEntries_ok m_def)
  with q show ?thesis by (auto simp: near_back_def)
qed

lemma near_back_run:
  assumes "dnl_inv d" "near_back k e d" "Suc k < MIN_CAPACITY" "dnl_run op d = Inr d'"
  shows "near_back (Suc k) e d'"
proof (cases op)
  case (Add n nonce)
  then obtain x where "makeEntry n nonce = Inr x" using makeEntry_ok by blast
  with assms Add show ?thesis
    using near_back_relocate [OF assms(2)] near_back_evict [OF near_back_push [OF assms(2)]]
    by (auto simp: dnl_add_def dnl_inv_def split: if_splits)
next
  case Mark
  have "near_back (Suc k) e (d\<lparr>dnl_queue := dnl_queue d @ [MARK]\<rparr>)" by (rule near_back_push [OF assms(2)])
  moreover have "dnl_queue d' = dnl_queue d @ [MARK]" using assms(4) Mark by (auto simp: mark_def Let_def)
  ultimately show ?thesis by (simp add: near_back_def)
next
  case AdjustCapacity
  define c where "c = (if \<forall>c \<in> set (dnl_actualMarkCounts d). EXPECTED_MARK_COUNT < c
         then max MIN_CAPACITY (dnl_capacity d * 9 div 10)
         else if \<forall>c \<in> set (dnl_actualMarkCounts d). c < EXPECTED_MARK_COUNT
         then min MAX_CAPACITY (dnl_capacity d * 12 div 10)
         else dnl_capacity d)"
  have "MIN_CAPACITY \<le> c" using assms(1) by (auto simp: c_def dnl_inv_def MIN_CAPACITY_def MAX_CAPACITY_def)
  moreover have "near_back (Suc k) e (d\<lparr>dnl_capacity := c, dnl_actualMarkCounts := []\<rparr>)"
    using near_back_mono [OF assms(2), of "Suc k"] by (simp add: near_back_def)
  ultimately show ?thesis
    using near_back_evict [of "Suc k" e "d\<lparr>dnl_capacity := c, dnl_actualMarkCounts := []\<rparr>" d'] assms AdjustCapacity
    by (simp add: adjustCapacity_def c_def Let_def)
qed

lemma near_back_runs:
  "dnl_inv d \<Longrightarrow> near_back k e d \<Longrightarrow> k + length ops < MIN_CAPACITY \<Longrightarrow> fold_res dnl_run ops d = Inr d' \<Longrightarrow>
     near_back (k + length ops) e d'"
proof (induction ops arbitrary: d k)
  case (Cons op ops)
  then obtain d1 where d1: "dnl_run op d = Inr d1" "fold_res dnl_run ops d1 = Inr d'" by (auto simp: res_simps)
  have "near_back (Suc k) e d1" using near_back_run [OF Cons.prems(1,2)] Cons.prems(3) d1 by simp
  then show ?case using Cons.IH [of d1 "Suc k"] dnl_run_inv [OF Cons.prems(1) d1(1)] Cons.prems d1 by simp
qed simp

lemma dnl_add_near_back:
  assumes "dnl_inv d" "makeEntry n nonce = Inr e" "dnl_add n nonce d = Inr d'"
  shows "near_back 0 e d'"
proof -
  have nb: "near_back 0 e (d\<lparr>dnl_queue := q @ [e]\<rparr>)" for q by (auto simp: near_back_def)
  have "0 < dnl_capacity d" using assms(1) by (auto simp: dnl_inv_def MIN_CAPACITY_def)
  with assms nb near_back_evict [OF nb] show ?thesis
    by (auto simp: dnl_add_def split: if_splits)
qed

lemma dnl_runs_total: "\<exists>d'. fold_res dnl_run ops d = Inr d'"
proof (induction ops arbitrary: d)
  case (Cons op ops)
  obtain d1 where "dnl_run op d = Inr d1" using dnl_run_total by blast
  with Cons.IH [of d1] show ?case by simp
qed simp

section \<open>Properties\<close>

text \<open>
  C21: A name and nonce added to the dead nonce list are still there after any sequence of fewer than
  1024 further additions, marks and capacity adjustments, in any order; none of them fails.
\<close>

theorem dead_nonce_retained:
  assumes "dnl_inv d" "length ops < MIN_CAPACITY"
  shows "\<exists>d1 d2. dnl_add n nonce d = Inr d1 \<and> fold_res dnl_run ops d1 = Inr d2 \<and> dnl_has n nonce d2 = Inr True"
proof -
  obtain e where e: "makeEntry n nonce = Inr e" using makeEntry_ok by blast
  obtain d1 where d1: "dnl_add n nonce d = Inr d1" using dnl_run_total [of "Add n nonce" d] by auto
  obtain d2 where d2: "fold_res dnl_run ops d1 = Inr d2" using dnl_runs_total by blast
  have "near_back (length ops) e d2"
    using near_back_runs [OF dnl_inv_add [OF assms(1) d1] dnl_add_near_back [OF assms(1) e d1] _ d2] assms(2) by simp
  from near_back_has [OF e this] d1 d2 show ?thesis by blast
qed

theorem dead_nonce_retained_witness:
  "\<exists>d1 d2. dnl_add [Component 8 [1]] 7 new_dnl = Inr d1 \<and> fold_res dnl_run [Mark, Add [Component 8 [2]] 7, AdjustCapacity] d1 = Inr d2 \<and>
     dnl_has [Component 8 [1]] 7 d2 = Inr True"
  by (rule dead_nonce_retained [OF dnl_inv_new]) (simp add: MIN_CAPACITY_def)

end
