(* ===== verification/Cs_Policy.thy ===== *)
theory Cs_Policy
  imports Packets
begin

text \<open>
  Entries, table and replacement policies of the Content Store (\<open>daemon/table/cs-entry.cpp\<close>,
  \<open>cs-policy.cpp\<close>, \<open>cs-policy-lru.cpp\<close>, \<open>cs-policy-priority-fifo.cpp\<close>).  The table is a
  \<open>std::set\<close> ordered by \<open>operator<\<close> on entries: a list in that order.  An iterator into the
  table (\<open>EntryRef\<close>) is the full name of the Data it points to.  The locale \<open>cs_policy\<close> is
  the contract of a policy: it tracks the entries of the table, and can always name a victim.
\<close>

section \<open>Entries\<close>

record cs_entry =
  ce_data :: data
  ce_isUnsolicited :: bool
  ce_freshUntil :: time

type_synonym entry_ref = name
type_synonym cs_table = "cs_entry list"

definition ref_of :: "cs_entry \<Rightarrow> entry_ref" where "ref_of e = getFullName (ce_data e)"

definition isFresh :: "time \<Rightarrow> cs_entry \<Rightarrow> bool" where
  "isFresh now e = (now \<le> ce_freshUntil e)"

definition updateFreshUntil :: "time \<Rightarrow> cs_entry \<Rightarrow> cs_entry" where
  "updateFreshUntil now e = e\<lparr>ce_freshUntil := now + d_freshnessPeriod (ce_data e) * 10 ^ 6\<rparr>"

definition new_cs_entry :: "time \<Rightarrow> data \<Rightarrow> bool \<Rightarrow> cs_entry" where
  "new_cs_entry now d isUnsolicited =
     updateFreshUntil now \<lparr>ce_data = d, ce_isUnsolicited = isUnsolicited, ce_freshUntil = 0\<rparr>"

definition canSatisfy :: "time \<Rightarrow> interest \<Rightarrow> cs_entry \<Rightarrow> bool" where
  "canSatisfy now i e =
     (if \<not> matchesData i (ce_data e) then False
      else if i_mustBeFresh i \<and> \<not> isFresh now e then False
      else True)"

definition compareQueryWithData :: "name \<Rightarrow> data \<Rightarrow> int" where
  "compareQueryWithData queryName d =
     (let queryIsFullName = (queryName \<noteq> [] \<and> isImplicitSha256Digest (last queryName));
          cmp = (if queryIsFullName
                 then name_compare_range queryName 0 (length queryName - 1) (d_name d) 0 (length (d_name d))
                 else name_compare queryName (d_name d))
      in if cmp \<noteq> 0 then cmp
         else if queryIsFullName then compare_value (last queryName) (last (getFullName d))
         else -1)"

definition compareDataWithData :: "data \<Rightarrow> data \<Rightarrow> int" where
  "compareDataWithData lhs rhs =
     (let cmp = name_compare (d_name lhs) (d_name rhs)
      in if cmp \<noteq> 0 then cmp else compare_value (last (getFullName lhs)) (last (getFullName rhs)))"

definition entry_before_query :: "cs_entry \<Rightarrow> name \<Rightarrow> bool" where
  "entry_before_query e queryName = (compareQueryWithData queryName (ce_data e) > 0)"

definition entry_less :: "cs_entry \<Rightarrow> cs_entry \<Rightarrow> bool" where
  "entry_less lhs rhs = (compareDataWithData (ce_data lhs) (ce_data rhs) < 0)"

section \<open>The table\<close>

text \<open>\<open>emplace\<close> returns the element equivalent to the new one when there is one.\<close>

fun table_emplace :: "cs_entry \<Rightarrow> cs_table \<Rightarrow> cs_table \<times> cs_entry \<times> bool" where
  "table_emplace e [] = ([e], e, True)"
| "table_emplace e (x # xs) =
     (if entry_less e x then (e # x # xs, e, True)
      else if entry_less x e then (let (tbl, f, isNew) = table_emplace e xs in (x # tbl, f, isNew))
      else (x # xs, x, False))"

definition table_replace :: "cs_entry \<Rightarrow> cs_table \<Rightarrow> cs_table" where
  "table_replace e = map (\<lambda>x. if ref_of x = ref_of e then e else x)"

definition table_erase :: "entry_ref \<Rightarrow> cs_table \<Rightarrow> cs_table" where
  "table_erase i = filter (\<lambda>x. ref_of x \<noteq> i)"

definition table_lower_bound :: "name \<Rightarrow> cs_table \<Rightarrow> cs_table" where
  "table_lower_bound queryName = dropWhile (\<lambda>e. entry_before_query e queryName)"

section \<open>The eviction loop\<close>

text \<open>
  Both policies evict while the store is larger than the limit: they choose a victim, forget it,
  and emit \<open>beforeEvict\<close>, on which the store erases it from the table.  Erasing through an
  iterator that is not in the table is undefined.
\<close>

function evict_while ::
  "('p \<Rightarrow> (entry_ref \<times> 'p) res) \<Rightarrow> nat \<Rightarrow> cs_table \<Rightarrow> 'p \<Rightarrow> (cs_table \<times> 'p) res" where
  "evict_while victim limit tbl p =
     (if length tbl \<le> limit then Inr (tbl, p)
      else bind_res (victim p) (\<lambda>ip.
             if fst ip \<in> set (map ref_of tbl) then evict_while victim limit (table_erase (fst ip) tbl) (snd ip)
             else Inl UndefinedBehavior))"
  by auto
termination
proof (relation "measure (\<lambda>(_, _, tbl, _). length tbl)", goal_cases)
  case (2 victim limit tbl p ip)
  then obtain x where "x \<in> set tbl" "ref_of x = fst ip" by auto
  then show ?case by (auto simp: table_erase_def intro!: length_filter_less)
qed simp

declare evict_while.simps [simp del]

section \<open>Least recently used\<close>

type_synonym lru = "entry_ref list"

definition lru_insertToQueue :: "entry_ref \<Rightarrow> bool \<Rightarrow> lru \<Rightarrow> lru res" where
  "lru_insertToQueue i isNewEntry q =
     (let isNew = (i \<notin> set q); q' = (if isNew then q @ [i] else q)
      in assert_res (isNew = isNewEntry) (Inr (if \<not> isNewEntry then remove1 i q' @ [i] else q')))"

definition lru_victim :: "lru \<Rightarrow> (entry_ref \<times> lru) res" where
  "lru_victim q = assert_res (q \<noteq> []) (Inr (hd q, tl q))"

definition lru_afterInsert :: "cs_entry \<Rightarrow> lru \<Rightarrow> lru res" where
  "lru_afterInsert e q = lru_insertToQueue (ref_of e) True q"

definition lru_afterRefresh :: "cs_entry \<Rightarrow> lru \<Rightarrow> lru res" where
  "lru_afterRefresh e q = lru_insertToQueue (ref_of e) False q"

definition lru_beforeErase :: "entry_ref \<Rightarrow> lru \<Rightarrow> lru res" where
  "lru_beforeErase i q = Inr (remove1 i q)"

definition lru_beforeUse :: "entry_ref \<Rightarrow> lru \<Rightarrow> lru res" where
  "lru_beforeUse i q = lru_insertToQueue i False q"

section \<open>Priority first-in-first-out\<close>

datatype QueueType = QUEUE_UNSOLICITED | QUEUE_STALE | QUEUE_FIFO

text \<open>
  \<open>pf_info\<close> is \<open>m_entryInfoMap\<close>: the queue an entry is in, and when its move to the stale queue
  is scheduled.  The position in the queue (\<open>queueIt\<close>) is that of the reference itself.
\<close>

record pfifo =
  pf_queues :: "QueueType \<Rightarrow> entry_ref list"
  pf_info :: "entry_ref \<Rightarrow> (QueueType \<times> time option) option"

definition new_pfifo :: pfifo where "new_pfifo = \<lparr>pf_queues = (\<lambda>_. []), pf_info = (\<lambda>_. None)\<rparr>"

definition attachQueue :: "time \<Rightarrow> cs_entry \<Rightarrow> pfifo \<Rightarrow> pfifo res" where
  "attachQueue now e p =
     (let i = ref_of e in
      assert_res (pf_info p i = None)
        (let info =
           (if ce_isUnsolicited e then (QUEUE_UNSOLICITED, None)
            else if \<not> isFresh now e then (QUEUE_STALE, None)
            else (QUEUE_FIFO, Some (now + d_freshnessPeriod (ce_data e) * 10 ^ 6)))
         in Inr (p\<lparr>pf_queues := (pf_queues p)(fst info := pf_queues p (fst info) @ [i]),
                   pf_info := (pf_info p)(i \<mapsto> info)\<rparr>)))"

definition detachQueue :: "entry_ref \<Rightarrow> pfifo \<Rightarrow> pfifo res" where
  "detachQueue i p =
     (case pf_info p i of
        None \<Rightarrow> Inl AssertionFailed
      | Some (q, _) \<Rightarrow> Inr (p\<lparr>pf_queues := (pf_queues p)(q := remove1 i (pf_queues p q)),
                              pf_info := (pf_info p)(i := None)\<rparr>))"

definition moveToStaleQueue :: "entry_ref \<Rightarrow> pfifo \<Rightarrow> pfifo res" where
  "moveToStaleQueue i p =
     (case pf_info p i of
        None \<Rightarrow> Inl AssertionFailed
      | Some (q, ev) \<Rightarrow>
          assert_res (q = QUEUE_FIFO)
            (let queues = (pf_queues p)(QUEUE_FIFO := remove1 i (pf_queues p QUEUE_FIFO))
             in Inr (p\<lparr>pf_queues := queues(QUEUE_STALE := queues QUEUE_STALE @ [i]),
                       pf_info := (pf_info p)(i \<mapsto> (QUEUE_STALE, None))\<rparr>)))"

definition evictOne :: "pfifo \<Rightarrow> (entry_ref \<times> pfifo) res" where
  "evictOne p =
     assert_res (pf_queues p QUEUE_UNSOLICITED \<noteq> [] \<or> pf_queues p QUEUE_STALE \<noteq> [] \<or> pf_queues p QUEUE_FIFO \<noteq> [])
       (let i = (if pf_queues p QUEUE_UNSOLICITED \<noteq> [] then hd (pf_queues p QUEUE_UNSOLICITED)
                 else if pf_queues p QUEUE_STALE \<noteq> [] then hd (pf_queues p QUEUE_STALE)
                 else hd (pf_queues p QUEUE_FIFO))
        in bind_res (detachQueue i p) (\<lambda>p'. Inr (i, p')))"

definition pfifo_afterRefresh :: "time \<Rightarrow> cs_entry \<Rightarrow> pfifo \<Rightarrow> pfifo res" where
  "pfifo_afterRefresh now e p = bind_res (detachQueue (ref_of e) p) (attachQueue now e)"

definition pfifo_beforeUse :: "entry_ref \<Rightarrow> pfifo \<Rightarrow> pfifo res" where
  "pfifo_beforeUse i p = assert_res (pf_info p i \<noteq> None) (Inr p)"

section \<open>The policy in use\<close>

datatype policy = LruPolicy lru | PriorityFifoPolicy pfifo

definition map_lru :: "lru res \<Rightarrow> policy res" where
  "map_lru m = bind_res m (\<lambda>q. Inr (LruPolicy q))"

definition map_pfifo :: "pfifo res \<Rightarrow> policy res" where
  "map_pfifo m = bind_res m (\<lambda>p. Inr (PriorityFifoPolicy p))"

fun policy_afterInsert :: "time \<Rightarrow> cs_entry \<Rightarrow> policy \<Rightarrow> policy res" where
  "policy_afterInsert now e (LruPolicy q) = map_lru (lru_afterInsert e q)"
| "policy_afterInsert now e (PriorityFifoPolicy p) = map_pfifo (attachQueue now e p)"

fun policy_afterRefresh :: "time \<Rightarrow> cs_entry \<Rightarrow> policy \<Rightarrow> policy res" where
  "policy_afterRefresh now e (LruPolicy q) = map_lru (lru_afterRefresh e q)"
| "policy_afterRefresh now e (PriorityFifoPolicy p) = map_pfifo (pfifo_afterRefresh now e p)"

fun policy_beforeErase :: "entry_ref \<Rightarrow> policy \<Rightarrow> policy res" where
  "policy_beforeErase i (LruPolicy q) = map_lru (lru_beforeErase i q)"
| "policy_beforeErase i (PriorityFifoPolicy p) = map_pfifo (detachQueue i p)"

fun policy_beforeUse :: "entry_ref \<Rightarrow> policy \<Rightarrow> policy res" where
  "policy_beforeUse i (LruPolicy q) = map_lru (lru_beforeUse i q)"
| "policy_beforeUse i (PriorityFifoPolicy p) = map_pfifo (pfifo_beforeUse i p)"

fun policy_victim :: "policy \<Rightarrow> (entry_ref \<times> policy) res" where
  "policy_victim (LruPolicy q) = bind_res (lru_victim q) (\<lambda>(i, q'). Inr (i, LruPolicy q'))"
| "policy_victim (PriorityFifoPolicy p) = bind_res (evictOne p) (\<lambda>(i, p'). Inr (i, PriorityFifoPolicy p'))"

text \<open>What a policy tracks, and its own consistency.\<close>

definition lru_tracks :: "lru \<Rightarrow> entry_ref set \<Rightarrow> bool" where
  "lru_tracks q S \<longleftrightarrow> distinct q \<and> set q = S"

definition pfifo_tracks :: "pfifo \<Rightarrow> entry_ref set \<Rightarrow> bool" where
  "pfifo_tracks p S \<longleftrightarrow> dom (pf_info p) = S \<and>
     (\<forall>q. distinct (pf_queues p q) \<and> set (pf_queues p q) = {i. \<exists>ev. pf_info p i = Some (q, ev)})"

fun policy_tracks :: "policy \<Rightarrow> entry_ref set \<Rightarrow> bool" where
  "policy_tracks (LruPolicy q) S = lru_tracks q S"
| "policy_tracks (PriorityFifoPolicy p) S = pfifo_tracks p S"

section \<open>The contract of a policy\<close>

locale cs_policy =
  fixes attach :: "time \<Rightarrow> cs_entry \<Rightarrow> 'p \<Rightarrow> 'p res"
    and refresh :: "time \<Rightarrow> cs_entry \<Rightarrow> 'p \<Rightarrow> 'p res"
    and detach :: "entry_ref \<Rightarrow> 'p \<Rightarrow> 'p res"
    and touch :: "entry_ref \<Rightarrow> 'p \<Rightarrow> 'p res"
    and victim :: "'p \<Rightarrow> (entry_ref \<times> 'p) res"
    and tracks :: "'p \<Rightarrow> entry_ref set \<Rightarrow> bool"
  assumes attach_tracks: "tracks p S \<Longrightarrow> ref_of e \<notin> S \<Longrightarrow> \<exists>p'. attach now e p = Inr p' \<and> tracks p' (insert (ref_of e) S)"
    and refresh_tracks: "tracks p S \<Longrightarrow> ref_of e \<in> S \<Longrightarrow> \<exists>p'. refresh now e p = Inr p' \<and> tracks p' S"
    and detach_tracks: "tracks p S \<Longrightarrow> i \<in> S \<Longrightarrow> \<exists>p'. detach i p = Inr p' \<and> tracks p' (S - {i})"
    and touch_tracks: "tracks p S \<Longrightarrow> i \<in> S \<Longrightarrow> \<exists>p'. touch i p = Inr p' \<and> tracks p' S"
    and victim_tracks: "tracks p S \<Longrightarrow> S \<noteq> {} \<Longrightarrow> \<exists>i p'. victim p = Inr (i, p') \<and> i \<in> S \<and> tracks p' (S - {i})"
begin

lemma refs_erase: "set (map ref_of (table_erase i tbl)) = set (map ref_of tbl) - {i}"
  by (auto simp: table_erase_def)

lemma evict_ok:
  "tracks p (set (map ref_of tbl)) \<Longrightarrow> sorted_wrt R tbl \<Longrightarrow>
     \<exists>tbl' p'. evict_while victim limit tbl p = Inr (tbl', p') \<and> tracks p' (set (map ref_of tbl')) \<and>
       length tbl' \<le> limit \<and> set tbl' \<subseteq> set tbl \<and> sorted_wrt R tbl' \<and> (length tbl \<le> limit \<longrightarrow> tbl' = tbl \<and> p' = p)"
proof (induction "length tbl" arbitrary: tbl p rule: less_induct)
  case less
  show ?case
  proof (cases "length tbl \<le> limit")
    case True
    then show ?thesis using less.prems by (simp add: evict_while.simps)
  next
    case False
    then obtain i p' where v: "victim p = Inr (i, p')" "i \<in> set (map ref_of tbl)"
        "tracks p' (set (map ref_of tbl) - {i})"
      using victim_tracks [OF less.prems(1)] by (cases tbl) auto
    then obtain x where "x \<in> set tbl" "ref_of x = i" by auto
    then have "length (table_erase i tbl) < length tbl"
      by (auto simp: table_erase_def intro!: length_filter_less)
    moreover have "sorted_wrt R (table_erase i tbl)" "set (table_erase i tbl) \<subseteq> set tbl"
      using less.prems(2) by (auto simp: table_erase_def sorted_wrt_filter)
    moreover have "evict_while victim limit tbl p = evict_while victim limit (table_erase i tbl) p'"
      using False v by (subst evict_while.simps) simp
    ultimately show ?thesis
      using less.hyps [of "table_erase i tbl" p'] v(3) False unfolding refs_erase by auto
  qed
qed

lemma evict_one_over:
  assumes "tracks p (set (map ref_of tbl))" "length tbl = Suc limit" "distinct (map ref_of tbl)"
    and "victim p = Inr (i, p')"
  shows "evict_while victim limit tbl p = Inr (table_erase i tbl, p')"
proof -
  have "i \<in> set (map ref_of tbl)" using victim_tracks [OF assms(1)] assms(2,4) by (cases tbl) auto
  then obtain xs x ys where tbl: "tbl = xs @ x # ys" "ref_of x = i" by (auto simp: in_set_conv_decomp)
  have "filter (\<lambda>x. ref_of x \<noteq> i) xs = xs" "filter (\<lambda>x. ref_of x \<noteq> i) ys = ys"
    using assms(3) tbl by (auto simp: image_iff filter_id_conv)
  then have "table_erase i tbl = xs @ ys" using tbl by (simp add: table_erase_def)
  with tbl assms(2,4) show ?thesis
    by (subst evict_while.simps, simp) (subst evict_while.simps, simp)
qed

end

lemma distinct_relocate [simp]: "distinct q \<Longrightarrow> distinct (remove1 i q @ [i])"
  by simp

interpretation lru_policy: cs_policy "\<lambda>_. lru_afterInsert" "\<lambda>_. lru_afterRefresh" lru_beforeErase lru_beforeUse lru_victim lru_tracks
proof (unfold_locales, goal_cases)
  case (5 q S)
  then show ?case by (cases q) (auto simp: lru_tracks_def lru_victim_def)
qed (auto simp: lru_tracks_def lru_afterInsert_def lru_afterRefresh_def lru_beforeErase_def lru_beforeUse_def
    lru_insertToQueue_def Let_def assert_res_def)

lemma pfifo_detach:
  assumes "pfifo_tracks p S" "i \<in> S"
  shows "\<exists>p'. detachQueue i p = Inr p' \<and> pfifo_tracks p' (S - {i}) \<and> pf_info p' i = None"
proof -
  obtain q ev where "pf_info p i = Some (q, ev)" using assms by (force simp: pfifo_tracks_def)
  with assms show ?thesis by (auto simp: detachQueue_def pfifo_tracks_def)
qed

lemma pfifo_attach:
  assumes "pfifo_tracks p S" "ref_of e \<notin> S"
  shows "\<exists>p'. attachQueue now e p = Inr p' \<and> pfifo_tracks p' (insert (ref_of e) S)"
proof -
  have n: "pf_info p (ref_of e) = None" using assms by (auto simp: pfifo_tracks_def)
  then have "\<And>q. ref_of e \<notin> set (pf_queues p q)" using assms by (auto simp: pfifo_tracks_def)
  with n assms show ?thesis by (auto simp: attachQueue_def pfifo_tracks_def Let_def)
qed

lemma pfifo_refresh:
  assumes "pfifo_tracks p S" "ref_of e \<in> S"
  shows "\<exists>p'. pfifo_afterRefresh now e p = Inr p' \<and> pfifo_tracks p' S"
proof -
  obtain p1 where p1: "detachQueue (ref_of e) p = Inr p1" "pfifo_tracks p1 (S - {ref_of e})"
    using pfifo_detach [OF assms] by blast
  then show ?thesis using pfifo_attach [OF p1(2), of e now] assms(2)
    by (auto simp: pfifo_afterRefresh_def insert_absorb)
qed

lemma pfifo_victim:
  assumes "pfifo_tracks p S" "S \<noteq> {}"
  shows "\<exists>i p'. evictOne p = Inr (i, p') \<and> i \<in> S \<and> pfifo_tracks p' (S - {i})"
proof -
  have ne: "pf_queues p QUEUE_UNSOLICITED \<noteq> [] \<or> pf_queues p QUEUE_STALE \<noteq> [] \<or> pf_queues p QUEUE_FIFO \<noteq> []"
  proof -
    obtain i q ev where "pf_info p i = Some (q, ev)" using assms by (force simp: pfifo_tracks_def)
    then have "i \<in> set (pf_queues p q)" using assms(1) by (auto simp: pfifo_tracks_def)
    then show ?thesis by (cases q) auto
  qed
  define i where "i = (if pf_queues p QUEUE_UNSOLICITED \<noteq> [] then hd (pf_queues p QUEUE_UNSOLICITED)
      else if pf_queues p QUEUE_STALE \<noteq> [] then hd (pf_queues p QUEUE_STALE) else hd (pf_queues p QUEUE_FIFO))"
  have "i \<in> set (pf_queues p QUEUE_UNSOLICITED) \<or> i \<in> set (pf_queues p QUEUE_STALE) \<or> i \<in> set (pf_queues p QUEUE_FIFO)"
    using ne by (auto simp: i_def)
  then have "i \<in> S" using assms(1) by (auto simp: pfifo_tracks_def)
  with pfifo_detach [OF assms(1) this] ne show ?thesis
    by (auto simp: evictOne_def i_def [symmetric])
qed

interpretation pfifo_policy: cs_policy attachQueue pfifo_afterRefresh detachQueue pfifo_beforeUse evictOne pfifo_tracks
  using pfifo_attach pfifo_refresh pfifo_detach pfifo_victim
  by unfold_locales (blast | auto simp: pfifo_beforeUse_def pfifo_tracks_def)+

interpretation any_policy: cs_policy policy_afterInsert policy_afterRefresh policy_beforeErase policy_beforeUse policy_victim policy_tracks
proof (unfold_locales, goal_cases)
  case (1 p S e now)
  then show ?case
    using lru_policy.attach_tracks [of _ S e] pfifo_policy.attach_tracks [of _ S e now]
    by (cases p) (fastforce simp: map_lru_def map_pfifo_def)+
next
  case (2 p S e now)
  then show ?case
    using lru_policy.refresh_tracks [of _ S e] pfifo_policy.refresh_tracks [of _ S e now]
    by (cases p) (fastforce simp: map_lru_def map_pfifo_def)+
next
  case (3 p S i)
  then show ?case
    using lru_policy.detach_tracks [of _ S i] pfifo_policy.detach_tracks [of _ S i]
    by (cases p) (fastforce simp: map_lru_def map_pfifo_def)+
next
  case (4 p S i)
  then show ?case
    using lru_policy.touch_tracks [of _ S i] pfifo_policy.touch_tracks [of _ S i]
    by (cases p) (fastforce simp: map_lru_def map_pfifo_def)+
next
  case (5 p S)
  then show ?case
    using lru_policy.victim_tracks [of _ S] pfifo_policy.victim_tracks [of _ S]
    by (cases p) (fastforce simp: map_lru_def map_pfifo_def)+
qed

lemma moveToStaleQueue_tracks:
  assumes "pfifo_tracks p S" "pf_info p i = Some (QUEUE_FIFO, ev)"
  shows "\<exists>p'. moveToStaleQueue i p = Inr p' \<and> pfifo_tracks p' S"
proof -
  have "i \<notin> set (pf_queues p QUEUE_STALE)" "i \<in> S" using assms by (auto simp: pfifo_tracks_def)
  with assms show ?thesis by (auto simp: moveToStaleQueue_def pfifo_tracks_def Let_def)
qed

end
