(* ===== verification/Cs.thy ===== *)
theory Cs
  imports Cs_Policy
begin

text \<open>
  The Content Store (\<open>daemon/table/cs.cpp\<close>): insertion with admission control, lookup in the
  range of names under a prefix, erasure under a prefix, and configuration.
\<close>

record cs =
  cs_table :: cs_table
  cs_policy_state :: policy
  cs_limit :: nat
  cs_shouldAdmit :: bool
  cs_shouldServe :: bool

definition policy_evictEntries :: "nat \<Rightarrow> cs \<Rightarrow> cs res" where
  "policy_evictEntries limit cs =
     bind_res (evict_while policy_victim limit (cs_table cs) (cs_policy_state cs)) (\<lambda>(tbl, p).
     Inr (cs\<lparr>cs_table := tbl, cs_policy_state := p\<rparr>))"

definition policy_setLimit :: "nat \<Rightarrow> cs \<Rightarrow> cs res" where
  "policy_setLimit nMaxEntries cs = policy_evictEntries nMaxEntries (cs\<lparr>cs_limit := nMaxEntries\<rparr>)"

definition new_cs :: "nat \<Rightarrow> cs" where
  "new_cs nMaxPackets =
     \<lparr>cs_table = [], cs_policy_state = LruPolicy [], cs_limit = nMaxPackets,
      cs_shouldAdmit = True, cs_shouldServe = True\<rparr>"

definition cs_insert :: "time \<Rightarrow> data \<Rightarrow> bool \<Rightarrow> cs \<Rightarrow> cs res" where
  "cs_insert now d isUnsolicited cs =
     (if \<not> cs_shouldAdmit cs \<or> cs_limit cs = 0 then Inr cs
      else if d_cachePolicy d = Some NO_CACHE then Inr cs
      else let (tbl, it, isNewEntry) = table_emplace (new_cs_entry now d isUnsolicited) (cs_table cs);
               e = updateFreshUntil now it
           in if \<not> isNewEntry then
                let e = (if ce_isUnsolicited e \<and> \<not> isUnsolicited then e\<lparr>ce_isUnsolicited := False\<rparr> else e)
                in bind_res (policy_afterRefresh now e (cs_policy_state cs)) (\<lambda>p.
                   Inr (cs\<lparr>cs_table := table_replace e tbl, cs_policy_state := p\<rparr>))
              else bind_res (policy_afterInsert now e (cs_policy_state cs)) (\<lambda>p.
                   policy_evictEntries (cs_limit cs) (cs\<lparr>cs_table := table_replace e tbl, cs_policy_state := p\<rparr>)))"

text \<open>The entries from \<open>first\<close> to \<open>last\<close>; a range whose end comes first has no meaning.\<close>

definition findPrefixRange :: "name \<Rightarrow> cs_table \<Rightarrow> cs_table res" where
  "findPrefixRange pfx tbl =
     bind_res (if pfx \<noteq> [] then bind_res (name_getSuccessor pfx) (\<lambda>s. Inr (table_lower_bound s tbl)) else Inr [])
       (\<lambda>last.
        let first = table_lower_bound pfx tbl
        in if length last \<le> length first then Inr (take (length first - length last) first)
           else Inl UndefinedBehavior)"

definition eraseImpl_step :: "cs_entry \<Rightarrow> nat \<times> cs \<Rightarrow> (nat \<times> cs) res" where
  "eraseImpl_step e = (\<lambda>(nErased, cs).
     bind_res (policy_beforeErase (ref_of e) (cs_policy_state cs)) (\<lambda>p.
     Inr (Suc nErased, cs\<lparr>cs_table := table_erase (ref_of e) (cs_table cs), cs_policy_state := p\<rparr>)))"

definition cs_eraseImpl :: "name \<Rightarrow> nat \<Rightarrow> cs \<Rightarrow> (nat \<times> cs) res" where
  "cs_eraseImpl pfx limit cs =
     bind_res (findPrefixRange pfx (cs_table cs)) (\<lambda>range.
     fold_res eraseImpl_step (take limit range) (0, cs))"

definition cs_findImpl :: "time \<Rightarrow> interest \<Rightarrow> cs \<Rightarrow> (cs_entry option \<times> cs) res" where
  "cs_findImpl now i cs =
     (if \<not> cs_shouldServe cs \<or> cs_limit cs = 0 then Inr (None, cs)
      else bind_res (findPrefixRange (i_name i) (cs_table cs)) (\<lambda>range.
           case List.find (canSatisfy now i) range of
             None \<Rightarrow> Inr (None, cs)
           | Some match \<Rightarrow>
               bind_res (policy_beforeUse (ref_of match) (cs_policy_state cs)) (\<lambda>p.
               Inr (Some match, cs\<lparr>cs_policy_state := p\<rparr>))))"

definition cs_setPolicy :: "policy \<Rightarrow> cs \<Rightarrow> cs res" where
  "cs_setPolicy policy cs = policy_setLimit (cs_limit cs) (cs\<lparr>cs_policy_state := policy\<rparr>)"

definition enableAdmit :: "bool \<Rightarrow> cs \<Rightarrow> cs" where
  "enableAdmit shouldAdmit cs = (if cs_shouldAdmit cs = shouldAdmit then cs else cs\<lparr>cs_shouldAdmit := shouldAdmit\<rparr>)"

definition enableServe :: "bool \<Rightarrow> cs \<Rightarrow> cs" where
  "enableServe shouldServe cs = (if cs_shouldServe cs = shouldServe then cs else cs\<lparr>cs_shouldServe := shouldServe\<rparr>)"

definition cs_inv :: "cs \<Rightarrow> bool" where
  "cs_inv cs \<longleftrightarrow> sorted_wrt entry_less (cs_table cs) \<and>
     policy_tracks (cs_policy_state cs) (set (map ref_of (cs_table cs))) \<and>
     length (cs_table cs) \<le> cs_limit cs"

text \<open>
  Names the range search is exact for: valid components and no implicit digest inside; a query
  may end in one.
\<close>

definition plain_name :: "name \<Rightarrow> bool" where
  "plain_name n \<longleftrightarrow> valid_name n \<and> list_all (\<lambda>c. \<not> isImplicitSha256Digest c) n"

definition query_name :: "name \<Rightarrow> bool" where
  "query_name n \<longleftrightarrow> valid_name n \<and> list_all (\<lambda>c. \<not> isImplicitSha256Digest c) (butlast n)"

definition cacheable :: "data \<Rightarrow> bool" where
  "cacheable d \<longleftrightarrow> plain_name (d_name d) \<and> length (d_digest d) = DIGEST_SIZE"

definition query_ok :: "name \<Rightarrow> bool" where
  "query_ok q \<longleftrightarrow> (\<forall>c \<in> set (butlast q). 1 < comp_type c) \<and>
     (q \<noteq> [] \<longrightarrow> isImplicitSha256Digest (last q) \<or> 1 < comp_type (last q))"

definition ref_less :: "entry_ref \<Rightarrow> entry_ref \<Rightarrow> bool" where
  "ref_less m n \<longleftrightarrow> butlast m < butlast n \<or> (butlast m = butlast n \<and> last m < last n)"

section \<open>The order of the table\<close>

lemma entry_less_iff:
  "entry_less a b \<longleftrightarrow> d_name (ce_data a) < d_name (ce_data b) \<or>
     (d_name (ce_data a) = d_name (ce_data b) \<and>
      Component ImplicitSha256DigestComponent (d_digest (ce_data a)) < Component ImplicitSha256DigestComponent (d_digest (ce_data b)))"
  by (auto simp: entry_less_def compareDataWithData_def Let_def compare_loop_less compare_loop_eq_0 getFullName_def
      less_component_def)

lemma ref_of_eq_iff: "ref_of a = ref_of b \<longleftrightarrow>
    d_name (ce_data a) = d_name (ce_data b) \<and> d_digest (ce_data a) = d_digest (ce_data b)"
  by (simp add: ref_of_def getFullName_def)

lemma entry_less_trans: "entry_less a b \<Longrightarrow> entry_less b c \<Longrightarrow> entry_less a c"
  unfolding entry_less_iff using less_trans by (metis (no_types, lifting))

lemma entry_less_asym: "entry_less a b \<Longrightarrow> \<not> entry_less b a"
  unfolding entry_less_iff by (metis less_asym less_irrefl)

lemma entry_less_total: "\<not> entry_less a b \<Longrightarrow> \<not> entry_less b a \<longleftrightarrow> ref_of a = ref_of b"
  unfolding entry_less_iff ref_of_eq_iff by (metis component.inject less_irrefl linorder_neqE)

lemma entry_less_ref: "ref_of a = ref_of a' \<Longrightarrow> entry_less a b \<longleftrightarrow> entry_less a' b"
  "ref_of b = ref_of b' \<Longrightarrow> entry_less a b \<longleftrightarrow> entry_less a b'"
  by (auto simp: entry_less_iff ref_of_eq_iff)

lemma entry_less_irrefl: "ref_of a = ref_of b \<Longrightarrow> \<not> entry_less a b"
  by (auto simp: entry_less_iff ref_of_eq_iff)

lemma sorted_distinct_refs: "sorted_wrt entry_less tbl \<Longrightarrow> distinct (map ref_of tbl)"
  by (induction tbl) (auto simp: image_iff dest: entry_less_irrefl)

lemma table_emplace_spec:
  assumes "table_emplace e tbl = (tbl', f, isNew)" "sorted_wrt entry_less tbl"
  shows "sorted_wrt entry_less tbl'" "isNew \<longleftrightarrow> ref_of e \<notin> set (map ref_of tbl)"
    "ref_of f = ref_of e" "f \<in> set tbl'" "isNew \<Longrightarrow> f = e \<and> set tbl' = insert e (set tbl) \<and> length tbl' = Suc (length tbl)"
    "\<not> isNew \<Longrightarrow> tbl' = tbl"
proof -
  have "sorted_wrt entry_less tbl' \<and> (isNew \<longleftrightarrow> ref_of e \<notin> ref_of ` set tbl) \<and> ref_of f = ref_of e \<and> f \<in> set tbl' \<and>
      (isNew \<longrightarrow> f = e \<and> set tbl' = insert e (set tbl) \<and> length tbl' = Suc (length tbl)) \<and> (\<not> isNew \<longrightarrow> tbl' = tbl)"
    using assms
  proof (induction tbl arbitrary: tbl')
    case (Cons x xs)
    consider "entry_less e x" | "\<not> entry_less e x" "entry_less x e" | "ref_of e = ref_of x"
      using entry_less_total by blast
    then show ?case
    proof cases
      case 1
      have "\<forall>y\<in>set (x # xs). entry_less e y" using 1 Cons.prems(2) entry_less_trans [OF 1] by auto
      with 1 Cons.prems show ?thesis by (auto dest: entry_less_irrefl entry_less_irrefl [OF sym])
    next
      case 2
      obtain t where t: "table_emplace e xs = (t, f, isNew)" "tbl' = x # t"
        using Cons.prems(1) 2 by (auto split: prod.splits)
      with Cons.IH [OF t(1)] Cons.prems(2) 2 show ?thesis by (cases isNew) (auto dest: entry_less_irrefl entry_less_irrefl [OF sym])
    next
      case 3
      then show ?thesis using Cons.prems entry_less_irrefl [OF 3] entry_less_irrefl [OF 3 [symmetric]] by auto
    qed
  qed auto
  then show "sorted_wrt entry_less tbl'" "isNew \<longleftrightarrow> ref_of e \<notin> set (map ref_of tbl)"
    "ref_of f = ref_of e" "f \<in> set tbl'" "isNew \<Longrightarrow> f = e \<and> set tbl' = insert e (set tbl) \<and> length tbl' = Suc (length tbl)"
    "\<not> isNew \<Longrightarrow> tbl' = tbl" by auto
qed

lemma entry_less_ref_less: "entry_less a b \<longleftrightarrow> ref_less (ref_of a) (ref_of b)"
  by (simp add: entry_less_iff ref_less_def ref_of_def getFullName_def)

lemma sorted_wrt_refs: "map ref_of tbl = map ref_of tbl' \<Longrightarrow> sorted_wrt entry_less tbl \<longleftrightarrow> sorted_wrt entry_less tbl'"
  unfolding entry_less_ref_less by (metis sorted_wrt_map)

lemma table_replace_refs [simp]: "map ref_of (table_replace e tbl) = map ref_of tbl"
  by (induction tbl) (auto simp: table_replace_def)

section \<open>The store keeps its invariant\<close>

lemma cs_inv_new: "cs_inv (new_cs n)"
  by (simp add: cs_inv_def new_cs_def lru_tracks_def)

lemma policy_evictEntries_ok:
  assumes "sorted_wrt entry_less (cs_table cs)" "policy_tracks (cs_policy_state cs) (set (map ref_of (cs_table cs)))"
  shows "\<exists>cs'. policy_evictEntries limit cs = Inr cs' \<and> sorted_wrt entry_less (cs_table cs') \<and>
     policy_tracks (cs_policy_state cs') (set (map ref_of (cs_table cs'))) \<and> length (cs_table cs') \<le> limit \<and>
     set (cs_table cs') \<subseteq> set (cs_table cs) \<and> cs_limit cs' = cs_limit cs \<and>
     (length (cs_table cs) \<le> limit \<longrightarrow> cs' = cs)"
proof -
  obtain tbl' p' where "evict_while policy_victim limit (cs_table cs) (cs_policy_state cs) = Inr (tbl', p')"
      "policy_tracks p' (set (map ref_of tbl'))" "length tbl' \<le> limit" "set tbl' \<subseteq> set (cs_table cs)"
      "sorted_wrt entry_less tbl'" "length (cs_table cs) \<le> limit \<longrightarrow> tbl' = cs_table cs \<and> p' = cs_policy_state cs"
    using any_policy.evict_ok [OF assms(2,1), of limit] by blast
  then show ?thesis by (simp add: policy_evictEntries_def)
qed

lemma policy_setLimit_inv:
  assumes "cs_inv cs"
  shows "\<exists>cs'. policy_setLimit n cs = Inr cs' \<and> cs_inv cs' \<and> cs_limit cs' = n \<and> set (cs_table cs') \<subseteq> set (cs_table cs)"
  using policy_evictEntries_ok [of "cs\<lparr>cs_limit := n\<rparr>" n] assms unfolding policy_setLimit_def cs_inv_def by fastforce

lemma ref_of_simps [simp]:
  "ref_of (updateFreshUntil now e) = ref_of e" "ref_of (e\<lparr>ce_isUnsolicited := u\<rparr>) = ref_of e"
  "ref_of (new_cs_entry now d u) = getFullName d" "updateFreshUntil now (new_cs_entry now d u) = new_cs_entry now d u"
  by (simp_all add: ref_of_def updateFreshUntil_def new_cs_entry_def)

lemma table_replace_set: "set (table_replace e tbl) \<subseteq> insert e (set tbl)"
  by (auto simp: table_replace_def)

lemma table_replace_same: "distinct (map ref_of tbl) \<Longrightarrow> e \<in> set tbl \<Longrightarrow> table_replace e tbl = tbl"
  unfolding table_replace_def by (rule map_idI) (metis distinct_map inj_on_def)

lemma cs_insert_new:
  assumes "cs_inv cs" "cs_shouldAdmit cs" "0 < cs_limit cs" "d_cachePolicy d \<noteq> Some NO_CACHE"
    and "getFullName d \<notin> set (map ref_of (cs_table cs))"
  obtains tbl p where "policy_afterInsert now (new_cs_entry now d u) (cs_policy_state cs) = Inr p"
    "sorted_wrt entry_less tbl" "set tbl = insert (new_cs_entry now d u) (set (cs_table cs))"
    "length tbl = Suc (length (cs_table cs))" "policy_tracks p (set (map ref_of tbl))"
    "cs_insert now d u cs = policy_evictEntries (cs_limit cs) (cs\<lparr>cs_table := tbl, cs_policy_state := p\<rparr>)"
proof -
  note I = assms(1) [unfolded cs_inv_def]
  obtain tbl f isNew where e: "table_emplace (new_cs_entry now d u) (cs_table cs) = (tbl, f, isNew)"
    by (metis prod_cases3)
  note S = table_emplace_spec [OF e I [THEN conjunct1]]
  have new: isNew "f = new_cs_entry now d u" "set tbl = insert f (set (cs_table cs))" "length tbl = Suc (length (cs_table cs))"
    using S assms(5) by auto
  obtain p where p: "policy_afterInsert now f (cs_policy_state cs) = Inr p"
      "policy_tracks p (insert (ref_of f) (set (map ref_of (cs_table cs))))"
    using any_policy.attach_tracks [of "cs_policy_state cs" _ f now] I assms(5) new(2) by force
  have "table_replace f tbl = tbl" using table_replace_same sorted_distinct_refs S by blast
  with that p new S e assms show thesis by (simp add: cs_insert_def)
qed

lemma cs_insert_old:
  assumes "cs_inv cs" "cs_shouldAdmit cs" "0 < cs_limit cs" "d_cachePolicy d \<noteq> Some NO_CACHE"
    and "getFullName d \<in> set (map ref_of (cs_table cs))"
  obtains e p where "e \<in> set (cs_table cs)" "ref_of e = getFullName d"
    "policy_tracks p (set (map ref_of (cs_table cs)))"
    "cs_insert now d u cs = Inr (cs\<lparr>cs_table := table_replace
        ((updateFreshUntil now e)\<lparr>ce_isUnsolicited := ce_isUnsolicited e \<and> u\<rparr>) (cs_table cs), cs_policy_state := p\<rparr>)"
proof -
  note I = assms(1) [unfolded cs_inv_def]
  obtain tbl f isNew where e: "table_emplace (new_cs_entry now d u) (cs_table cs) = (tbl, f, isNew)"
    by (metis prod_cases3)
  note S = table_emplace_spec [OF e I [THEN conjunct1]]
  have old: "\<not> isNew" "tbl = cs_table cs" "ref_of f = getFullName d" "f \<in> set (cs_table cs)" using S assms(5) by auto
  define f' where "f' = (updateFreshUntil now f)\<lparr>ce_isUnsolicited := ce_isUnsolicited f \<and> u\<rparr>"
  have f': "(if ce_isUnsolicited (updateFreshUntil now f) \<and> \<not> u then (updateFreshUntil now f)\<lparr>ce_isUnsolicited := False\<rparr>
      else updateFreshUntil now f) = f'"
    by (auto simp: f'_def updateFreshUntil_def)
  have "ref_of f' = getFullName d" using old(3) by (simp add: f'_def)
  then have "ref_of f' \<in> set (map ref_of (cs_table cs))" using assms(5) by simp
  then obtain p where p: "policy_afterRefresh now f' (cs_policy_state cs) = Inr p"
      "policy_tracks p (set (map ref_of (cs_table cs)))"
    using any_policy.refresh_tracks [of "cs_policy_state cs"] I by blast
  show thesis
    by (rule that [OF old(4,3) p(2)]) (use old p e assms f' in \<open>simp add: cs_insert_def f'_def [symmetric]\<close>)
qed

lemma cs_insert_inv:
  assumes "cs_inv cs"
  shows "\<exists>cs'. cs_insert now d u cs = Inr cs' \<and> cs_inv cs' \<and> cs_limit cs' = cs_limit cs"
proof -
  consider "\<not> cs_shouldAdmit cs \<or> cs_limit cs = 0 \<or> d_cachePolicy d = Some NO_CACHE"
    | "cs_shouldAdmit cs" "0 < cs_limit cs" "d_cachePolicy d \<noteq> Some NO_CACHE" "getFullName d \<notin> set (map ref_of (cs_table cs))"
    | "cs_shouldAdmit cs" "0 < cs_limit cs" "d_cachePolicy d \<noteq> Some NO_CACHE" "getFullName d \<in> set (map ref_of (cs_table cs))"
    by blast
  then show ?thesis
  proof cases
    case 1
    then show ?thesis using assms by (auto simp: cs_insert_def)
  next
    case 2
    obtain tbl p where t: "sorted_wrt entry_less tbl" "policy_tracks p (set (map ref_of tbl))"
      "cs_insert now d u cs = policy_evictEntries (cs_limit cs) (cs\<lparr>cs_table := tbl, cs_policy_state := p\<rparr>)"
      using cs_insert_new [OF assms 2] by metis
    then show ?thesis
      using policy_evictEntries_ok [of "cs\<lparr>cs_table := tbl, cs_policy_state := p\<rparr>" "cs_limit cs"]
      by (auto simp: cs_inv_def)
  next
    case 3
    obtain e p where t: "policy_tracks p (set (map ref_of (cs_table cs)))"
      "cs_insert now d u cs = Inr (cs\<lparr>cs_table := table_replace
        ((updateFreshUntil now e)\<lparr>ce_isUnsolicited := ce_isUnsolicited e \<and> u\<rparr>) (cs_table cs), cs_policy_state := p\<rparr>)"
      using cs_insert_old [OF assms 3] by metis
    define tbl where "tbl = table_replace
        ((updateFreshUntil now e)\<lparr>ce_isUnsolicited := ce_isUnsolicited e \<and> u\<rparr>) (cs_table cs)"
    have m: "map ref_of tbl = map ref_of (cs_table cs)" by (simp add: tbl_def)
    have "policy_tracks p (set (map ref_of tbl))" unfolding m by (rule t(1))
    with t(2) assms sorted_wrt_refs [OF m] map_eq_imp_length_eq [OF m] show ?thesis
      by (simp add: cs_inv_def tbl_def [symmetric])
  qed
qed

text \<open>An insertion brings at most the inserted Data into the store.\<close>

lemma cs_insert_data:
  assumes "cs_inv cs" "cs_insert now d u cs = Inr cs'"
  shows "ce_data ` set (cs_table cs') \<subseteq> insert d (ce_data ` set (cs_table cs))"
proof -
  consider "\<not> cs_shouldAdmit cs \<or> cs_limit cs = 0 \<or> d_cachePolicy d = Some NO_CACHE"
    | "cs_shouldAdmit cs" "0 < cs_limit cs" "d_cachePolicy d \<noteq> Some NO_CACHE" "getFullName d \<notin> set (map ref_of (cs_table cs))"
    | "cs_shouldAdmit cs" "0 < cs_limit cs" "d_cachePolicy d \<noteq> Some NO_CACHE" "getFullName d \<in> set (map ref_of (cs_table cs))"
    by blast
  then show ?thesis
  proof cases
    case 1
    then have "cs_insert now d u cs = Inr cs" by (auto simp: cs_insert_def)
    then show ?thesis using assms(2) by auto
  next
    case 2
    obtain tbl p where t: "sorted_wrt entry_less tbl" "policy_tracks p (set (map ref_of tbl))"
      "set tbl = insert (new_cs_entry now d u) (set (cs_table cs))"
      "cs_insert now d u cs = policy_evictEntries (cs_limit cs) (cs\<lparr>cs_table := tbl, cs_policy_state := p\<rparr>)"
      using cs_insert_new [OF assms(1) 2] by metis
    have "set (cs_table cs') \<subseteq> set tbl"
      using policy_evictEntries_ok [of "cs\<lparr>cs_table := tbl, cs_policy_state := p\<rparr>" "cs_limit cs"] t assms(2) by auto
    then show ?thesis using t(3) by (auto simp: new_cs_entry_def updateFreshUntil_def)
  next
    case 3
    obtain e p where t: "e \<in> set (cs_table cs)" "cs_insert now d u cs = Inr (cs\<lparr>cs_table := table_replace
        ((updateFreshUntil now e)\<lparr>ce_isUnsolicited := ce_isUnsolicited e \<and> u\<rparr>) (cs_table cs), cs_policy_state := p\<rparr>)"
      using cs_insert_old [OF assms(1) 3] by metis
    then have "cs_table cs' = table_replace ((updateFreshUntil now e)\<lparr>ce_isUnsolicited := ce_isUnsolicited e \<and> u\<rparr>) (cs_table cs)"
      using assms(2) by auto
    then show ?thesis using table_replace_set t(1) by (fastforce simp: updateFreshUntil_def)
  qed
qed

section \<open>The range under a prefix\<close>

lemma append_digest_less:
  assumes "\<forall>c \<in> set n \<union> set m. d < c \<and> e < c"
  shows "(n @ [d :: component]) < m @ [e] \<longleftrightarrow> n < m \<or> (n = m \<and> d < e)"
  using assms
proof (induction n arbitrary: m)
  case Nil
  then show ?case by (cases m) auto
next
  case (Cons c n)
  then show ?case by (cases m) auto
qed

lemma append_digest_less_plain:
  "\<forall>c \<in> set m. d < c \<Longrightarrow> (n @ [d :: component]) < m \<longleftrightarrow> n < m"
proof (induction n arbitrary: m)
  case Nil
  then show ?case by (cases m) auto
next
  case (Cons c n)
  then show ?case by (cases m) auto
qed

lemma digest_less: "Suc 0 < comp_type c \<Longrightarrow> Component (Suc 0) v < c"
  by (simp add: less_component_iff)

lemma valid_plain_type: "valid_component c \<Longrightarrow> \<not> isImplicitSha256Digest c \<Longrightarrow> 1 < comp_type c"
  using valid_component_bounds [of c] valid_component_digest [of c]
  by (cases "comp_type c = 1") (auto simp: isImplicitSha256Digest_def isDigestType_def)

lemma plain_types: "plain_name n \<Longrightarrow> c \<in> set n \<Longrightarrow> 1 < comp_type c"
  using valid_plain_type by (auto simp: plain_name_def valid_name_def list_all_iff)

lemma query_name_ok: "query_name q \<Longrightarrow> query_ok q"
  unfolding query_name_def query_ok_def valid_name_def list_all_iff
  by (metis in_set_butlastD last_in_set valid_plain_type)

lemma successor_query_ok:
  assumes "query_name q" "q \<noteq> []" "name_getSuccessor q = Inr s"
  shows "query_ok s"
proof -
  obtain p c where q: "q = p @ [c]" using assms(2) by (meson rev_exhaust)
  obtain c' where c': "comp_getSuccessor c = Inr c'" "s = p @ [c']"
    using assms(3) q by (auto simp: name_getSuccessor_snoc res_simps)
  have v: "valid_component c" using assms(1) q by (simp add: query_name_def valid_name_def)
  have "isImplicitSha256Digest c' \<or> 1 < comp_type c'"
    using c'(1) v valid_component_bounds [OF v] valid_component_digest [OF v]
    by (cases rule: comp_getSuccessor_cases [OF c'(1)], cases "comp_type c = 1")
      (auto simp: isImplicitSha256Digest_def isDigestType_def)
  then show ?thesis using query_name_ok [OF assms(1)] q c' by (simp add: query_ok_def)
qed

lemma entry_before_query_iff:
  assumes "query_ok q" "cacheable (ce_data e)"
  shows "entry_before_query e q \<longleftrightarrow> ref_of e < q"
proof -
  define n where "n = d_name (ce_data e)"
  define d where "d = Component ImplicitSha256DigestComponent (d_digest (ce_data e))"
  have ref: "ref_of e = n @ [d]" by (simp add: ref_of_def getFullName_def n_def d_def)
  have n: "\<forall>c \<in> set n. 1 < comp_type c" using assms(2) plain_types by (auto simp: cacheable_def n_def)
  have gt: "0 < compare_loop x y \<longleftrightarrow> y < x" for x y using compare_loop_less [of y x] compare_loop_swap [of y x] by simp
  have gtc: "0 < compare_value x y \<longleftrightarrow> y < x" for x y
    using compare_value_swap [of y x] by (simp add: less_component_def)
  show ?thesis
  proof (cases "q \<noteq> [] \<and> isImplicitSha256Digest (last q)")
    case True
    define m where "m = butlast q"
    define c where "c = last q"
    have q: "q = m @ [c]" using True by (simp add: m_def c_def)
    obtain v where c: "c = Component ImplicitSha256DigestComponent v"
      using True by (cases c) (auto simp: c_def [symmetric] isImplicitSha256Digest_def)
    have "\<forall>x \<in> set n \<union> set m. d < x \<and> c < x"
      using n assms(1) q by (auto simp: query_ok_def d_def c intro!: digest_less)
    from append_digest_less [OF this] have "ref_of e < q \<longleftrightarrow> n < m \<or> (n = m \<and> d < c)" unfolding ref q .
    moreover have "entry_before_query e q \<longleftrightarrow> n < m \<or> (n = m \<and> d < c)"
      using True by (auto simp: entry_before_query_def compareQueryWithData_def Let_def name_compare_range_def
          q gt gtc compare_loop_eq_0 n_def [symmetric] getFullName_def d_def)
    ultimately show ?thesis by blast
  next
    case False
    then have "\<forall>x \<in> set q. d < x"
      using assms(1) by (cases q rule: rev_cases) (auto simp: query_ok_def d_def intro!: digest_less)
    from append_digest_less_plain [OF this, of n] False show ?thesis
      by (auto simp: entry_before_query_def compareQueryWithData_def Let_def ref gt compare_loop_eq_0 n_def [symmetric])
  qed
qed

lemma sorted_refs:
  assumes "sorted_wrt entry_less tbl" "\<forall>e \<in> set tbl. cacheable (ce_data e)"
  shows "sorted_wrt (\<lambda>a b. ref_of a < ref_of b) tbl"
proof (rule sorted_wrt_mono_rel [OF _ assms(1)])
  fix a b assume ab: "a \<in> set tbl" "b \<in> set tbl" "entry_less a b"
  have "\<forall>c \<in> set (d_name (ce_data a)) \<union> set (d_name (ce_data b)).
      Component ImplicitSha256DigestComponent (d_digest (ce_data a)) < c \<and>
      Component ImplicitSha256DigestComponent (d_digest (ce_data b)) < c"
    using assms(2) ab plain_types by (auto simp: cacheable_def intro!: digest_less)
  from append_digest_less [OF this] ab(3) show "ref_of a < ref_of b"
    by (simp add: entry_less_iff ref_of_def getFullName_def)
qed

lemma dropWhile_sorted:
  "sorted_wrt (\<lambda>a b. f a < f b) xs \<Longrightarrow> dropWhile (\<lambda>x. f x < (q :: 'b :: linorder)) xs = filter (\<lambda>x. q \<le> f x) xs"
proof (induction xs)
  case (Cons x xs)
  show ?case
  proof (cases "f x < q")
    case True
    with Cons show ?thesis by (simp add: leD)
  next
    case False
    then have "\<forall>y \<in> set xs. q \<le> f y" using Cons.prems by fastforce
    with False show ?thesis by (simp add: not_less)
  qed
qed simp

lemma filter_range_sorted:
  assumes "sorted_wrt (\<lambda>a b. f a < f b) xs" "p \<le> (s :: 'b :: linorder)"
  shows "filter (\<lambda>x. p \<le> f x) xs = filter (\<lambda>x. p \<le> f x \<and> f x < s) xs @ filter (\<lambda>x. s \<le> f x) xs"
  using assms(1)
proof (induction xs)
  case (Cons x xs)
  then have "s \<le> f x \<Longrightarrow> \<forall>y \<in> set xs. \<not> f y < s" by fastforce
  with Cons assms(2) show ?case by (cases "s \<le> f x") (auto simp: filter_empty_conv not_le)
qed simp

lemma table_lower_bound_filter:
  assumes "sorted_wrt entry_less tbl" "\<forall>e \<in> set tbl. cacheable (ce_data e)" "query_ok q"
  shows "table_lower_bound q tbl = filter (\<lambda>e. q \<le> ref_of e) tbl"
proof -
  have "table_lower_bound q tbl = dropWhile (\<lambda>e. ref_of e < q) tbl"
    unfolding table_lower_bound_def using assms by (intro dropWhile_cong) (auto simp: entry_before_query_iff)
  then show ?thesis using dropWhile_sorted [OF sorted_refs [OF assms(1,2)]] by simp
qed

lemma cacheable_valid_ref: "cacheable (ce_data e) \<Longrightarrow> valid_name (ref_of e)"
  by (auto simp: cacheable_def plain_name_def ref_of_def getFullName_def valid_name_def valid_component_def ensureValid_def)

lemma findPrefixRange_prefix:
  assumes "sorted_wrt entry_less tbl" "\<forall>e \<in> set tbl. cacheable (ce_data e)" "query_name pfx"
  shows "findPrefixRange pfx tbl = Inr (filter (\<lambda>e. prefix pfx (ref_of e)) tbl)"
proof (cases "pfx = []")
  case True
  have "table_lower_bound [] tbl = tbl" using table_lower_bound_filter [OF assms(1,2), of "[]"] by (simp add: query_ok_def)
  with True show ?thesis by (simp add: findPrefixRange_def)
next
  case False
  have v: "valid_name pfx" using assms(3) by (simp add: query_name_def)
  obtain s where s: "name_getSuccessor pfx = Inr s" using name_getSuccessor_total [OF v] by blast
  have "pfx \<le> s" using prefix_less_successor [OF _ s False, of pfx] by simp
  note split = filter_range_sorted [OF sorted_refs [OF assms(1,2)] this]
  have "prefix pfx (ref_of e) \<longleftrightarrow> pfx \<le> ref_of e \<and> ref_of e < s" if "e \<in> set tbl" for e
    using prefix_le prefix_less_successor [OF _ s False] that assms(2) cacheable_valid_ref
      between_successor_prefix [OF v _ False s, of "ref_of e"] by blast
  then have "filter (\<lambda>e. prefix pfx (ref_of e)) tbl = filter (\<lambda>e. pfx \<le> ref_of e \<and> ref_of e < s) tbl"
    by (intro filter_cong) auto
  then show ?thesis
    using False s split table_lower_bound_filter [OF assms(1,2) query_name_ok [OF assms(3)]]
      table_lower_bound_filter [OF assms(1,2) successor_query_ok [OF assms(3) False s]]
    by (simp add: findPrefixRange_def)
qed

section \<open>Lookup and erasure\<close>

lemma canSatisfy_prefix: "canSatisfy now i e \<Longrightarrow> prefix (i_name i) (ref_of e)"
  using matchesData_prefix [of i "ce_data e"]
  by (auto simp: canSatisfy_def ref_of_def getFullName_def prefix_def split: if_splits)

lemma find_filter: "(\<And>x. x \<in> set xs \<Longrightarrow> P x \<Longrightarrow> Q x) \<Longrightarrow> List.find P (filter Q xs) = List.find P xs"
  by (induction xs) auto

lemma cs_findImpl_first:
  assumes "cs_inv cs" "\<forall>e \<in> set (cs_table cs). cacheable (ce_data e)" "query_name (i_name i)"
    and "cs_shouldServe cs" "0 < cs_limit cs"
  shows "\<exists>cs'. cs_findImpl now i cs = Inr (List.find (canSatisfy now i) (cs_table cs), cs') \<and>
     cs_inv cs' \<and> cs_table cs' = cs_table cs \<and> cs_limit cs' = cs_limit cs"
proof -
  note I = assms(1) [unfolded cs_inv_def]
  have range: "findPrefixRange (i_name i) (cs_table cs) = Inr (filter (\<lambda>e. prefix (i_name i) (ref_of e)) (cs_table cs))"
    using findPrefixRange_prefix [OF _ assms(2,3)] I by blast
  have find: "List.find (canSatisfy now i) (filter (\<lambda>e. prefix (i_name i) (ref_of e)) (cs_table cs)) =
      List.find (canSatisfy now i) (cs_table cs)"
    by (rule find_filter) (rule canSatisfy_prefix)
  show ?thesis
  proof (cases "List.find (canSatisfy now i) (cs_table cs)")
    case None
    with assms range find show ?thesis by (simp add: cs_findImpl_def)
  next
    case (Some e)
    then have "ref_of e \<in> set (map ref_of (cs_table cs))" by (auto simp: find_Some_iff)
    then obtain p where "policy_beforeUse (ref_of e) (cs_policy_state cs) = Inr p"
        "policy_tracks p (set (map ref_of (cs_table cs)))"
      using any_policy.touch_tracks I by blast
    with assms range find Some show ?thesis by (simp add: cs_findImpl_def cs_inv_def)
  qed
qed

lemma eraseImpl_steps:
  assumes "cs_inv cs" "set es \<subseteq> set (cs_table cs)" "distinct (map ref_of es)"
  shows "\<exists>cs'. fold_res eraseImpl_step es (k, cs) = Inr (k + length es, cs') \<and> cs_inv cs' \<and>
     cs_table cs' = filter (\<lambda>e. e \<notin> set es) (cs_table cs)"
  using assms
proof (induction es arbitrary: k cs)
  case (Cons e es)
  note I = Cons.prems(1) [unfolded cs_inv_def]
  have "ref_of e \<in> set (map ref_of (cs_table cs))" using Cons.prems(2) by simp
  then obtain p where p: "policy_beforeErase (ref_of e) (cs_policy_state cs) = Inr p"
      "policy_tracks p (set (map ref_of (cs_table cs)) - {ref_of e})"
    using any_policy.detach_tracks I by blast
  define cs1 where "cs1 = cs\<lparr>cs_table := table_erase (ref_of e) (cs_table cs), cs_policy_state := p\<rparr>"
  have d: "distinct (map ref_of (cs_table cs))" using sorted_distinct_refs I by blast
  then have t1: "cs_table cs1 = filter (\<lambda>x. x \<noteq> e) (cs_table cs)"
    using Cons.prems(2) unfolding cs1_def table_erase_def by (auto intro!: filter_cong simp: distinct_map inj_on_def)
  have sub: "set es \<subseteq> set (cs_table cs1)" using Cons.prems(2,3) by (auto simp: t1)
  have "cs_inv cs1"
    using I p(2) any_policy.refs_erase [of "ref_of e" "cs_table cs"]
      length_filter_le [of "\<lambda>x. ref_of x \<noteq> ref_of e" "cs_table cs"]
    by (auto simp: cs_inv_def cs1_def table_erase_def sorted_wrt_filter simp del: length_filter_le)
  from Cons.IH [OF this sub, of "Suc k"] Cons.prems(3) p(1) show ?case
    by (auto simp: eraseImpl_step_def cs1_def [symmetric] t1 intro!: filter_cong)
qed simp

lemma cs_eraseImpl_spec:
  assumes "cs_inv cs" "\<forall>e \<in> set (cs_table cs). cacheable (ce_data e)" "query_name pfx"
  defines "hits \<equiv> filter (\<lambda>e. prefix pfx (ref_of e)) (cs_table cs)"
  shows "\<exists>cs'. cs_eraseImpl pfx limit cs = Inr (min limit (length hits), cs') \<and> cs_inv cs' \<and>
     cs_table cs' = filter (\<lambda>e. e \<notin> set (take limit hits)) (cs_table cs)"
proof -
  note I = assms(1) [unfolded cs_inv_def]
  have r: "findPrefixRange pfx (cs_table cs) = Inr hits"
    using findPrefixRange_prefix [OF _ assms(2,3)] I by (auto simp: hits_def)
  have "set (take limit hits) \<subseteq> set (cs_table cs)" by (auto simp: hits_def dest: in_set_takeD)
  moreover have "distinct (map ref_of (take limit hits))"
    using I sorted_distinct_refs [of "cs_table cs"] distinct_take [of "map ref_of hits" limit]
      distinct_map_filter [of ref_of "cs_table cs" "\<lambda>e. prefix pfx (ref_of e)"]
    by (simp add: hits_def take_map)
  ultimately show ?thesis
    using eraseImpl_steps [OF assms(1), of "take limit hits" 0] r by (auto simp: cs_eraseImpl_def min.commute)
qed

section \<open>What is evicted\<close>

lemma cs_insert_evicts_victim:
  assumes "cs_inv cs" "cs_shouldAdmit cs" "0 < cs_limit cs" "d_cachePolicy d \<noteq> Some NO_CACHE"
    and "getFullName d \<notin> set (map ref_of (cs_table cs))" "length (cs_table cs) = cs_limit cs"
    and "\<And>p. policy_afterInsert now (new_cs_entry now d u) (cs_policy_state cs) = Inr p \<Longrightarrow>
          \<exists>p'. policy_victim p = Inr (v, p')"
  shows "\<exists>cs'. cs_insert now d u cs = Inr cs' \<and>
     set (cs_table cs') = {e \<in> insert (new_cs_entry now d u) (set (cs_table cs)). ref_of e \<noteq> v}"
proof -
  obtain tbl p where t: "policy_afterInsert now (new_cs_entry now d u) (cs_policy_state cs) = Inr p"
    "sorted_wrt entry_less tbl" "set tbl = insert (new_cs_entry now d u) (set (cs_table cs))"
    "length tbl = Suc (length (cs_table cs))" "policy_tracks p (set (map ref_of tbl))"
    "cs_insert now d u cs = policy_evictEntries (cs_limit cs) (cs\<lparr>cs_table := tbl, cs_policy_state := p\<rparr>)"
    using cs_insert_new [OF assms(1-5)] by metis
  obtain p' where p': "policy_victim p = Inr (v, p')" using assms(7) [OF t(1)] by blast
  have "evict_while policy_victim (cs_limit cs) tbl p = Inr (table_erase v tbl, p')"
    using any_policy.evict_one_over [OF t(5) _ sorted_distinct_refs [OF t(2)] p'] t(4) assms(6) by simp
  with t show ?thesis by (auto simp: policy_evictEntries_def table_erase_def)
qed

definition one_data :: data where
  "one_data = \<lparr>d_name = [Component 8 [1]], d_freshnessPeriod = 1000, d_digest = replicate 32 0, d_incomingFaceId = None,
     d_pitToken = None, d_cachePolicy = None\<rparr>"

definition one_cs :: cs where
  "one_cs = \<lparr>cs_table = [new_cs_entry 0 one_data False], cs_policy_state = LruPolicy [getFullName one_data], cs_limit = 1,
     cs_shouldAdmit = True, cs_shouldServe = True\<rparr>"

lemma one_cs_ok: "cs_inv one_cs" "cacheable (ce_data e) \<or> e \<notin> set (cs_table one_cs)" "plain_name [Component 8 [1]]"
  by (auto simp: cs_inv_def one_cs_def lru_tracks_def cacheable_def new_cs_entry_def updateFreshUntil_def one_data_def plain_name_def
      valid_name_def valid_component_def ensureValid_def isImplicitSha256Digest_def isParametersSha256Digest_def ref_of_def)

section \<open>Properties\<close>

text \<open>
  C16: Inserting Data keeps the content store's invariant under either replacement policy: the table
  stays ordered without duplicates, the policy's queues hold exactly the entries of the table, and the
  table never exceeds its limit; nothing but the inserted Data is added.
\<close>

theorem cs_insert_bounded:
  assumes "cs_inv cs"
  shows "\<exists>cs'. cs_insert now d u cs = Inr cs' \<and> cs_inv cs' \<and> length (cs_table cs') \<le> cs_limit cs \<and>
    ce_data ` set (cs_table cs') \<subseteq> insert d (ce_data ` set (cs_table cs))"
proof -
  obtain cs' where "cs_insert now d u cs = Inr cs'" "cs_inv cs'" "cs_limit cs' = cs_limit cs"
    using cs_insert_inv [OF assms] by blast
  then show ?thesis using cs_insert_data [OF assms] by (auto simp: cs_inv_def)
qed

theorem cs_insert_bounded_witness:
  "\<exists>cs'. cs_insert 5 (one_data\<lparr>d_name := [Component 8 [2]]\<rparr>) False one_cs = Inr cs' \<and> length (cs_table cs') \<le> 1"
  using cs_insert_bounded [OF one_cs_ok(1), of 5 "one_data\<lparr>d_name := [Component 8 [2]]\<rparr>" False] by (auto simp: one_cs_def)

text \<open>
  C17: A lookup returns the first entry of the whole table, in its order, that can satisfy the Interest,
  and nothing only if no entry can: searching the range of names below the Interest's name misses none.
\<close>

theorem cs_find_complete:
  assumes "cs_inv cs" "\<forall>e \<in> set (cs_table cs). cacheable (ce_data e)" "query_name (i_name i)" "cs_shouldServe cs" "0 < cs_limit cs"
  shows "\<exists>cs'. cs_findImpl now i cs = Inr (List.find (canSatisfy now i) (cs_table cs), cs') \<and>
     cs_inv cs' \<and> cs_table cs' = cs_table cs \<and> cs_limit cs' = cs_limit cs"
  using cs_findImpl_first [OF assms] .

theorem cs_find_complete_witness:
  "\<exists>cs'. cs_findImpl 10 \<lparr>i_name = [Component 8 [1]], i_canBePrefix = True, i_mustBeFresh = True, i_forwardingHint = [], i_nonce = None,
       i_lifetime = 4000, i_hopLimit = None, i_incomingFaceId = None, i_nextHopFaceId = None, i_pitToken = None\<rparr> one_cs =
     Inr (Some (new_cs_entry 0 one_data False), cs')"
  (is "\<exists>cs'. cs_findImpl 10 ?i one_cs = _")
proof -
  have "query_name (i_name ?i)" using one_cs_ok(3) by (simp add: query_name_def plain_name_def)
  moreover have "\<forall>e \<in> set (cs_table one_cs). cacheable (ce_data e)" using one_cs_ok(2) by blast
  moreover have "cs_shouldServe one_cs" "0 < cs_limit one_cs" by (simp_all add: one_cs_def)
  moreover have "canSatisfy 10 ?i (new_cs_entry 0 one_data False)"
    by (simp add: canSatisfy_def new_cs_entry_def updateFreshUntil_def isFresh_def one_data_def matchesData_def isPrefixOf_prefix)
  then have "List.find (canSatisfy 10 ?i) (cs_table one_cs) = Some (new_cs_entry 0 one_data False)" by (simp add: one_cs_def)
  ultimately show ?thesis using cs_find_complete [OF one_cs_ok(1), of ?i 10] by auto
qed

text \<open>
  C18: Erasing below a prefix removes the first entries under that prefix, up to the limit, reports how
  many, and leaves every other entry.
\<close>

theorem cs_erase_exact:
  assumes "cs_inv cs" "\<forall>e \<in> set (cs_table cs). cacheable (ce_data e)" "query_name pfx"
  shows "\<exists>cs'. cs_eraseImpl pfx limit cs = Inr (min limit (length (filter (\<lambda>e. prefix pfx (ref_of e)) (cs_table cs))), cs') \<and> cs_inv cs' \<and>
     cs_table cs' = filter (\<lambda>e. e \<notin> set (take limit (filter (\<lambda>e. prefix pfx (ref_of e)) (cs_table cs)))) (cs_table cs)"
  using cs_eraseImpl_spec [OF assms] .

theorem cs_erase_exact_witness: "\<exists>cs'. cs_eraseImpl [Component 8 [1]] 10 one_cs = Inr (1, cs') \<and> cs_table cs' = []"
proof -
  have "query_name [Component 8 [1]]" using one_cs_ok(3) by (simp add: query_name_def plain_name_def)
  moreover have "\<forall>e \<in> set (cs_table one_cs). cacheable (ce_data e)" using one_cs_ok(2) by blast
  moreover have "filter (\<lambda>e. prefix [Component 8 [1]] (ref_of e)) (cs_table one_cs) = cs_table one_cs" "length (cs_table one_cs) = 1"
    by (simp_all add: one_cs_def one_data_def getFullName_def)
  ultimately show ?thesis using cs_erase_exact [OF one_cs_ok(1), of "[Component 8 [1]]" 10] by auto
qed

end
