(* ===== verification/Forwarder.thy ===== *)
theory Forwarder
  imports Strategy_Choice Dead_Nonce_List Cs
begin

text \<open>
  The forwarding pipelines (\<open>daemon/fw/forwarder.cpp\<close>) and the strategies they call
  (\<open>fw/strategy.cpp\<close>, \<open>fw/best-route-strategy.cpp\<close>, \<open>fw/multicast-strategy.cpp\<close>,
  \<open>fw/process-nack-traits.cpp\<close>), with the additions for reflexive forwarding.  The state is
  a record; every pipeline maps a state to a new one, or to the failure that ends the process.
  Interests are objects of a store, because in-records, PIT entries and pipelines share them and
  \<open>setTag\<close> on one is seen by all.  What leaves the node is appended to \<open>fw_out\<close>.  The order in
  which a set of faces is walked (by address in the code) is the order of the records.
\<close>

section \<open>State\<close>

datatype fw_event =
    OutInterest face_id interest
  | OutData face_id data
  | OutNack face_id nack

record counters =
  nInInterests :: nat
  nOutInterests :: nat
  nInData :: nat
  nOutData :: nat
  nInNacks :: nat
  nOutNacks :: nat
  nCsHits :: nat
  nCsMisses :: nat
  nSatisfiedInterests :: nat
  nUnsatisfiedInterests :: nat
  nUnsolicitedData :: nat

record fw =
  fw_now :: time
  fw_faces :: faces
  fw_interests :: interest_store
  fw_nextInterest :: iref
  fw_pit :: fw_pit
  fw_fibItems :: "64 word"
  fw_random :: random_source
  fw_drawn :: nat
  fw_assist :: pit_assist
  fw_cs :: cs
  fw_dnl :: dnl
  fw_dnlLifetime :: int
  fw_regions :: "name list"
  fw_defaultHopLimit :: "8 word"
  fw_unsolicited :: UnsolicitedDataPolicy
  fw_counters :: counters
  fw_out :: "fw_event list"

definition FACEID_CONTENT_STORE :: face_id where "FACEID_CONTENT_STORE = 254"

definition interest_of :: "fw \<Rightarrow> iref \<Rightarrow> interest" where "interest_of s r = fw_interests s r"
definition entry_of :: "fw \<Rightarrow> pit_ref \<Rightarrow> pit_entry" where "entry_of s e = pit_entries (fw_pit s) e"
definition face_of :: "fw \<Rightarrow> face_id \<Rightarrow> face" where "face_of s f = fw_faces s f"

definition pit_interest :: "fw \<Rightarrow> pit_ref \<Rightarrow> interest" where
  "pit_interest s e = interest_of s (pe_interest (entry_of s e))"

definition modify_interest :: "iref \<Rightarrow> (interest \<Rightarrow> interest) \<Rightarrow> fw \<Rightarrow> fw" where
  "modify_interest r f s = s\<lparr>fw_interests := (fw_interests s)(r := f (fw_interests s r))\<rparr>"

definition new_interest :: "interest \<Rightarrow> fw \<Rightarrow> iref \<times> fw" where
  "new_interest i s =
     (fw_nextInterest s,
      s\<lparr>fw_interests := (fw_interests s)(fw_nextInterest s := i), fw_nextInterest := Suc (fw_nextInterest s)\<rparr>)"

definition modify_entry :: "pit_ref \<Rightarrow> (pit_entry \<Rightarrow> pit_entry) \<Rightarrow> fw \<Rightarrow> fw" where
  "modify_entry e f s = s\<lparr>fw_pit := pit_modify e f (fw_pit s)\<rparr>"

definition modify_entry_res :: "pit_ref \<Rightarrow> (pit_entry \<Rightarrow> pit_entry res) \<Rightarrow> fw \<Rightarrow> fw res" where
  "modify_entry_res e f s = bind_res (f (entry_of s e)) (\<lambda>x. Inr (modify_entry e (\<lambda>_. x) s))"

definition modify_face :: "face_id \<Rightarrow> (face \<Rightarrow> face) \<Rightarrow> fw \<Rightarrow> fw" where
  "modify_face f g s = s\<lparr>fw_faces := (fw_faces s)(f := g (fw_faces s f))\<rparr>"

definition count :: "(counters \<Rightarrow> counters) \<Rightarrow> fw \<Rightarrow> fw" where
  "count c s = s\<lparr>fw_counters := c (fw_counters s)\<rparr>"

definition emit :: "fw_event \<Rightarrow> fw \<Rightarrow> fw" where
  "emit ev s = s\<lparr>fw_out := fw_out s @ [ev]\<rparr>"

definition INITIAL_COUNTERS :: counters where
  "INITIAL_COUNTERS = \<lparr>nInInterests = 0, nOutInterests = 0, nInData = 0, nOutData = 0, nInNacks = 0,
     nOutNacks = 0, nCsHits = 0, nCsMisses = 0, nSatisfiedInterests = 0, nUnsatisfiedInterests = 0,
     nUnsolicitedData = 0\<rparr>"

section \<open>Timers, Nacks and outgoing packets\<close>

definition setExpiryTimer :: "pit_ref \<Rightarrow> int \<Rightarrow> fw \<Rightarrow> fw" where
  "setExpiryTimer e duration s =
     modify_entry e (\<lambda>x. x\<lparr>pe_expiryTimer := Some (fw_now s + max duration 0 * 10 ^ 6)\<rparr>) s"

definition send_nack :: "face_id \<Rightarrow> interest \<Rightarrow> nack_reason \<Rightarrow> fw \<Rightarrow> fw" where
  "send_nack face i reason s =
     count (\<lambda>c. c\<lparr>nOutNacks := nOutNacks c + 1\<rparr>) (emit (OutNack face \<lparr>n_interest = i, n_reason = reason\<rparr>) s)"

definition onInterestLoop :: "iref \<Rightarrow> face_id \<Rightarrow> fw \<Rightarrow> fw" where
  "onInterestLoop r ingress s =
     (if f_linkType (face_of s ingress) \<noteq> POINT_TO_POINT then s
      else send_nack ingress (interest_of s r) DUPLICATE s)"

definition onOutgoingNack :: "nack_reason \<Rightarrow> face_id \<Rightarrow> pit_ref \<Rightarrow> fw \<Rightarrow> bool \<times> fw" where
  "onOutgoingNack reason egress e s =
     (if \<not> f_inTable (face_of s egress) then (False, s)
      else case getInRecord (entry_of s e) egress of
             None \<Rightarrow> (False, s)
           | Some inRecord \<Rightarrow>
               if f_linkType (face_of s egress) \<noteq> POINT_TO_POINT then (False, s)
               else let i = interest_of s (ir_interest inRecord);
                        s = modify_entry e (deleteInRecord egress) s
                    in (True, send_nack egress i reason s))"

definition onOutgoingData :: "data \<Rightarrow> face_id \<Rightarrow> fw \<Rightarrow> bool \<times> fw" where
  "onOutgoingData d egress s =
     (if \<not> f_inTable (face_of s egress) then (False, s)
      else if f_scope (face_of s egress) = NON_LOCAL \<and> isPrefixOf LOCALHOST (d_name d) then (False, s)
      else (True, count (\<lambda>c. c\<lparr>nOutData := nOutData c + 1\<rparr>) (emit (OutData egress d) s)))"

text \<open>
  The outgoing Interest pipeline returns the out-record it wrote, as the entry and face that hold
  it.  For a reflexive Interest of the producer the out-record goes to the entry of that Interest,
  found by \<open>Pit::find\<close>; the code dereferences the result unconditionally.
\<close>

definition onOutgoingInterest :: "iref \<Rightarrow> face_id \<Rightarrow> pit_ref \<Rightarrow> fw \<Rightarrow> ((pit_ref \<times> face_id) option \<times> fw) res" where
  "onOutgoingInterest r egress e s =
     (if i_hopLimit (interest_of s r) = Some 0 \<and> f_scope (face_of s egress) = NON_LOCAL
      then Inr (None, modify_face egress (\<lambda>f. f\<lparr>f_nOutHopLimitZero := f_nOutHopLimitZero f + 1\<rparr>) s)
      else bind_res (isReflexiveInterestFromProducer (interest_of s r)) (\<lambda>fromProducer.
        if fromProducer then
          let originalInterestname = i_name (pit_interest s e);
              prevToken = fst (nameToPrevToken (fw_assist s) originalInterestname);
              s = modify_interest r (\<lambda>i. i\<lparr>i_pitToken := Some (setPitToken prevToken)\<rparr>) s
          in bind_res (findOrInsert (fw_interests s) r False (fw_pit s)) (\<lambda>(_, found, _).
             case found of
               None \<Rightarrow> Inl UndefinedBehavior
             | Some e2 \<Rightarrow>
                 bind_res (modify_entry_res e2 (insertOrUpdateOutRecord (fw_interests s) (fw_now s) egress r) s) (\<lambda>s.
                 Inr (Some (e2, egress),
                      count (\<lambda>c. c\<lparr>nOutInterests := nOutInterests c + 1\<rparr>) (emit (OutInterest egress (interest_of s r)) s))))
        else
          let s = (if isReflexiveInterest (interest_of s r)
                   then modify_interest r (\<lambda>i. i\<lparr>i_pitToken := Some (setPitToken (fst (nameToToken (fw_assist s) (i_name i))))\<rparr>) s
                   else s)
          in bind_res (modify_entry_res e (insertOrUpdateOutRecord (fw_interests s) (fw_now s) egress r) s) (\<lambda>s.
             Inr (Some (e, egress),
                  count (\<lambda>c. c\<lparr>nOutInterests := nOutInterests c + 1\<rparr>) (emit (OutInterest egress (interest_of s r)) s)))))"

section \<open>Strategy actions\<close>

definition sendInterest :: "iref \<Rightarrow> face_id \<Rightarrow> pit_ref \<Rightarrow> fw \<Rightarrow> ((pit_ref \<times> face_id) option \<times> fw) res" where
  "sendInterest r egress e s =
     (if i_pitToken (interest_of s r) \<noteq> None
      then let (r2, s) = new_interest ((interest_of s r)\<lparr>i_pitToken := None\<rparr>) s in onOutgoingInterest r2 egress e s
      else onOutgoingInterest r egress e s)"

definition sendData :: "data \<Rightarrow> face_id \<Rightarrow> pit_ref \<Rightarrow> fw \<Rightarrow> fw res" where
  "sendData d egress e s =
     assert_res (matchesData (pit_interest s e) d)
       (let pitToken = (case getInRecord (entry_of s e) egress of
                          Some inRecord \<Rightarrow> i_pitToken (interest_of s (ir_interest inRecord))
                        | None \<Rightarrow> None);
            s = modify_entry e (deleteInRecord egress) s
        in Inr (snd (onOutgoingData (case pitToken of Some t \<Rightarrow> d\<lparr>d_pitToken := Some t\<rparr> | None \<Rightarrow> d) egress s)))"

definition sendDataToAll :: "data \<Rightarrow> pit_ref \<Rightarrow> face_id \<Rightarrow> fw \<Rightarrow> fw res" where
  "sendDataToAll d e inFace s =
     (let pendingDownstreams =
        map ir_face (filter (\<lambda>rec. fw_now s < ir_expiry rec \<and>
          \<not> (ir_face rec = inFace \<and> f_linkType (face_of s (ir_face rec)) \<noteq> AD_HOC)) (pe_in (entry_of s e)))
      in fold_res (\<lambda>downstream. sendData d downstream e) pendingDownstreams s)"

definition sendNacks :: "nack_reason \<Rightarrow> pit_ref \<Rightarrow> face_id list \<Rightarrow> fw \<Rightarrow> fw" where
  "sendNacks reason e exceptFaces s =
     (let downstreams = filter (\<lambda>f. f \<notin> set exceptFaces) (map ir_face (pe_in (entry_of s e)))
      in fold (\<lambda>f s. snd (onOutgoingNack reason f e s)) downstreams s)"

definition rejectPendingInterest :: "pit_ref \<Rightarrow> fw \<Rightarrow> fw" where
  "rejectPendingInterest e s = setExpiryTimer e 0 s"

text \<open>The loop over the delegations of a forwarding hint.\<close>

fun lookupFib_loop :: "fw_tree \<Rightarrow> name list \<Rightarrow> fib_entry option \<Rightarrow> fib_entry res" where
  "lookupFib_loop nt [] prev = (case prev of None \<Rightarrow> Inl AssertionFailed | Some fe \<Rightarrow> assert_res (fe_prefix fe = []) (Inr fe))"
| "lookupFib_loop nt (delegation # rest) prev =
     (let fe = fib_findLongestPrefixMatch nt delegation
      in if fe_nextHops fe \<noteq> [] then Inr fe
         else assert_res (fe_prefix fe = []) (lookupFib_loop nt rest (Some fe)))"

definition lookupFib :: "pit_ref \<Rightarrow> fw \<Rightarrow> fib_entry res" where
  "lookupFib e s =
     (let i = pit_interest s e; nt = pit_nt (fw_pit s) in
      if i_forwardingHint i = []
      then (case pe_nte (entry_of s e) of
              None \<Rightarrow> Inl AssertionFailed
            | Some nte \<Rightarrow> Inr (fib_findLongestPrefixMatch_pit nt (i_name i) nte))
      else assert_res (\<not> isInProducerRegion (fw_regions s) (i_forwardingHint i))
             (lookupFib_loop nt (i_forwardingHint i) None))"

section \<open>Strategies\<close>

definition drop_result :: "('a \<times> fw) res \<Rightarrow> fw res" where
  "drop_result m = bind_res m (\<lambda>x. Inr (snd x))"

definition nack_no_route :: "face_id \<Rightarrow> pit_ref \<Rightarrow> fw \<Rightarrow> fw" where
  "nack_no_route ingress e s = rejectPendingInterest e (snd (onOutgoingNack NO_ROUTE ingress e s))"

definition bestRoute_reflexive :: "iref \<Rightarrow> face_id \<Rightarrow> pit_ref \<Rightarrow> fw \<Rightarrow> fw res" where
  "bestRoute_reflexive r ingress e s =
     bind_res (lookupFib e s) (\<lambda>_.
     case pe_in (entry_of s e) of
       [] \<Rightarrow> Inr (nack_no_route ingress e s)
     | it # _ \<Rightarrow> drop_result (sendInterest r (ir_face it) e s))"

definition bestRoute_afterReceiveInterest :: "retx_params \<Rightarrow> iref \<Rightarrow> face_id \<Rightarrow> pit_ref \<Rightarrow> fw \<Rightarrow> fw res" where
  "bestRoute_afterReceiveInterest rp r ingress e s =
     bind_res (isReflexiveInterestFromProducer (interest_of s r)) (\<lambda>fromProducer.
     if fromProducer then bestRoute_reflexive r ingress e s
     else bind_res (decidePerPitEntry rp (fw_now s) (entry_of s e)) (\<lambda>(suppression, x).
       let s = modify_entry e (\<lambda>_. x) s in
       if suppression = SUPPRESS then Inr s
       else bind_res (lookupFib e s) (\<lambda>fibEntry.
         let nexthops = fe_nextHops fibEntry; i = interest_of s r in
         if suppression = NEW then
           (case find (eligible (fw_faces s) ingress i (entry_of s e)) nexthops of
              None \<Rightarrow> Inr (nack_no_route ingress e s)
            | Some nh \<Rightarrow> drop_result (sendInterest r (nh_face nh) e s))
         else
           (case find (\<lambda>nh. isNextHopEligible (fw_faces s) ingress i nh (entry_of s e) True (fw_now s)) nexthops of
              Some nh \<Rightarrow> drop_result (sendInterest r (nh_face nh) e s)
            | None \<Rightarrow>
                bind_res (findEligibleNextHopWithEarliestOutRecord (fw_faces s) ingress i nexthops (entry_of s e)) (\<lambda>found.
                case found of
                  None \<Rightarrow> Inr s
                | Some nh \<Rightarrow> drop_result (sendInterest r (nh_face nh) e s))))))"

definition multicast_step :: "retx_params \<Rightarrow> iref \<Rightarrow> face_id \<Rightarrow> pit_ref \<Rightarrow> next_hop \<Rightarrow> fw \<Rightarrow> fw res" where
  "multicast_step rp r ingress e nh s =
     (let outFace = nh_face nh;
          (suppressResult, x) = decidePerUpstream rp (fw_now s) outFace (entry_of s e);
          s = modify_entry e (\<lambda>_. x) s
      in if suppressResult = SUPPRESS then Inr s
         else if \<not> eligible (fw_faces s) ingress (interest_of s r) (entry_of s e) nh then Inr s
         else bind_res (sendInterest r outFace e s) (\<lambda>(sentOutRecord, s).
              case sentOutRecord of
                Some (e', f) \<Rightarrow>
                  if suppressResult = FORWARD then Inr (modify_entry e' (incrementIntervalForOutRecord rp f) s)
                  else Inr s
              | None \<Rightarrow> Inr s))"

definition multicast_afterReceiveInterest :: "retx_params \<Rightarrow> iref \<Rightarrow> face_id \<Rightarrow> pit_ref \<Rightarrow> fw \<Rightarrow> fw res" where
  "multicast_afterReceiveInterest rp r ingress e s =
     bind_res (lookupFib e s) (\<lambda>fibEntry. fold_res (multicast_step rp r ingress e) (fe_nextHops fibEntry) s)"

definition multicast_afterNewNextHop :: "next_hop \<Rightarrow> pit_ref \<Rightarrow> fw \<Rightarrow> fw res" where
  "multicast_afterNewNextHop nh e s =
     (let r = pe_interest (entry_of s e); i = interest_of s r in
      case find (\<lambda>rec. eligible (fw_faces s) (ir_face rec) i (entry_of s e) nh) (pe_in (entry_of s e)) of
        None \<Rightarrow> Inr s
      | Some _ \<Rightarrow> drop_result (sendInterest r (nh_face nh) e s))"

definition nack_scan :: "out_record \<Rightarrow> nat \<times> face_id option \<times> nack_reason \<Rightarrow> nat \<times> face_id option \<times> nack_reason" where
  "nack_scan outR = (\<lambda>(nOutRecordsNotNacked, lastFaceNotNacked, leastSevereReason).
     case or_incomingNack outR of
       None \<Rightarrow> (Suc nOutRecordsNotNacked, Some (or_face outR), leastSevereReason)
     | Some reason \<Rightarrow> (nOutRecordsNotNacked, lastFaceNotNacked,
                        if isLessSevere reason leastSevereReason then reason else leastSevereReason))"

definition processNack :: "pit_ref \<Rightarrow> fw \<Rightarrow> fw res" where
  "processNack e s =
     (let (nOutRecordsNotNacked, lastFaceNotNacked, leastSevereReason) = fold nack_scan (pe_out (entry_of s e)) (0, None, NONE) in
      if nOutRecordsNotNacked = 1
      then (case lastFaceNotNacked of
              None \<Rightarrow> Inl AssertionFailed
            | Some f \<Rightarrow>
                (case getInRecord (entry_of s e) f of
                   Some _ \<Rightarrow> Inr (snd (onOutgoingNack leastSevereReason f e s))
                 | None \<Rightarrow> Inr s))
      else if 0 < nOutRecordsNotNacked then Inr s
      else Inr (sendNacks leastSevereReason e [] s))"

definition afterReceiveInterest :: "strategy \<Rightarrow> iref \<Rightarrow> face_id \<Rightarrow> pit_ref \<Rightarrow> fw \<Rightarrow> fw res" where
  "afterReceiveInterest st r ingress e s =
     (case st_type st of
        BestRouteStrategy \<Rightarrow> bestRoute_afterReceiveInterest (st_retx st) r ingress e s
      | MulticastStrategy \<Rightarrow> multicast_afterReceiveInterest (st_retx st) r ingress e s)"

definition afterContentStoreHit :: "data \<Rightarrow> face_id \<Rightarrow> pit_ref \<Rightarrow> fw \<Rightarrow> fw res" where
  "afterContentStoreHit d ingress e s = sendData d ingress e s"

definition afterReceiveData :: "data \<Rightarrow> face_id \<Rightarrow> pit_ref \<Rightarrow> fw \<Rightarrow> fw res" where
  "afterReceiveData d ingress e s = sendDataToAll d e ingress s"

definition afterReceiveNack :: "strategy \<Rightarrow> pit_ref \<Rightarrow> fw \<Rightarrow> fw res" where
  "afterReceiveNack st e s =
     (case st_type st of BestRouteStrategy \<Rightarrow> processNack e s | MulticastStrategy \<Rightarrow> Inr s)"

definition afterNewNextHop :: "strategy \<Rightarrow> next_hop \<Rightarrow> pit_ref \<Rightarrow> fw \<Rightarrow> fw res" where
  "afterNewNextHop st nh e s =
     (case st_type st of BestRouteStrategy \<Rightarrow> Inr s | MulticastStrategy \<Rightarrow> multicast_afterNewNextHop nh e s)"

definition effective_strategy :: "pit_ref \<Rightarrow> fw \<Rightarrow> strategy res" where
  "effective_strategy e s =
     findEffectiveStrategy_pit (i_name (pit_interest s e)) (pe_nte (entry_of s e)) (pit_nt (fw_pit s))"

section \<open>Incoming Interests\<close>

text \<open>Update of the in-record and of the expiry timer, shared by both ways into a strategy.\<close>

definition insert_in_record :: "iref \<Rightarrow> face_id \<Rightarrow> pit_ref \<Rightarrow> fw \<Rightarrow> fw res" where
  "insert_in_record r ingress e s =
     (let s = (if 0 < fw_defaultHopLimit s \<and> i_hopLimit (interest_of s r) = None
               then modify_interest r (\<lambda>i. i\<lparr>i_hopLimit := Some (fw_defaultHopLimit s)\<rparr>) s else s)
      in bind_res (modify_entry_res e (insertOrUpdateInRecord (fw_interests s) (fw_now s) ingress r) s) (\<lambda>s.
         case pe_in (entry_of s e) of
           [] \<Rightarrow> Inl UndefinedBehavior
         | rec # recs \<Rightarrow>
             let lastExpiryFromNow = ir_expiry (max_element ir_expiry rec recs) - fw_now s
             in Inr (setExpiryTimer e (lastExpiryFromNow div 10 ^ 6) s)))"

definition onSendingRI :: "iref \<Rightarrow> face_id \<Rightarrow> pit_ref \<Rightarrow> fw \<Rightarrow> fw res" where
  "onSendingRI r ingress e s =
     bind_res (readInterestPitToken (interest_of s r)) (\<lambda>pitToken.
     if pitToken = 0 then Inr (send_nack ingress (interest_of s r) NONE s)
     else let (originalInterestname, known) = tokenToName (fw_assist s) pitToken in
       if \<not> known then Inr (send_nack ingress (interest_of s r) NO_ROUTE s)
       else case findBasedOnName (fw_interests s) originalInterestname (fw_pit s) of
              None \<Rightarrow> Inr s
            | Some e_original \<Rightarrow>
                let (prevPitToken, hasPrev) = nameToPrevToken (fw_assist s) originalInterestname in
                if \<not> hasPrev then Inr s
                else let s = modify_interest r (\<lambda>i. i\<lparr>i_pitToken := Some (setPitToken prevPitToken)\<rparr>) s
                     in bind_res (insert_in_record r ingress e s) (\<lambda>s.
                        bind_res (effective_strategy e s) (\<lambda>st.
                        afterReceiveInterest st r ingress e_original s)))"

definition onContentStoreMiss :: "iref \<Rightarrow> face_id \<Rightarrow> pit_ref \<Rightarrow> fw \<Rightarrow> fw res" where
  "onContentStoreMiss r ingress e s =
     bind_res (insert_in_record r ingress e (count (\<lambda>c. c\<lparr>nCsMisses := nCsMisses c + 1\<rparr>) s)) (\<lambda>s.
     case i_nextHopFaceId (interest_of s r) of
       Some f \<Rightarrow> if f_inTable (face_of s f) then drop_result (onOutgoingInterest r f e s) else Inr s
     | None \<Rightarrow>
         let s = (if isReflexiveInterest (interest_of s r)
                  then modify_interest r (\<lambda>i. i\<lparr>i_pitToken := Some (setPitToken (fst (nameToToken (fw_assist s) (i_name i))))\<rparr>) s
                  else s)
         in bind_res (effective_strategy e s) (\<lambda>st. afterReceiveInterest st r ingress e s))"

text \<open>The tags are set on the Data object the Content Store holds.\<close>

definition onContentStoreHit :: "iref \<Rightarrow> face_id \<Rightarrow> pit_ref \<Rightarrow> cs_entry \<Rightarrow> fw \<Rightarrow> fw res" where
  "onContentStoreHit r ingress e match s =
     (let s = count (\<lambda>c. c\<lparr>nCsHits := nCsHits c + 1\<rparr>) s;
          d = (ce_data match)\<lparr>d_incomingFaceId := Some FACEID_CONTENT_STORE, d_pitToken := i_pitToken (interest_of s r)\<rparr>;
          s = s\<lparr>fw_cs := (fw_cs s)\<lparr>cs_table := table_replace (match\<lparr>ce_data := d\<rparr>) (cs_table (fw_cs s))\<rparr>\<rparr>;
          s = modify_entry e (\<lambda>x. x\<lparr>pe_isSatisfied := True, pe_dataFreshnessPeriod := d_freshnessPeriod d\<rparr>) s;
          s = setExpiryTimer e 0 s
      in bind_res (effective_strategy e s) (\<lambda>_. afterContentStoreHit d ingress e s))"

definition cs_lookup :: "iref \<Rightarrow> face_id \<Rightarrow> pit_ref \<Rightarrow> fw \<Rightarrow> fw res" where
  "cs_lookup r ingress e s =
     bind_res (cs_findImpl (fw_now s) (interest_of s r) (fw_cs s)) (\<lambda>(match, cs).
     let s = s\<lparr>fw_cs := cs\<rparr> in
     case match of
       Some m \<Rightarrow> onContentStoreHit r ingress e m s
     | None \<Rightarrow> onContentStoreMiss r ingress e s)"

definition register_token :: "iref \<Rightarrow> fw \<Rightarrow> fw res" where
  "register_token r s =
     (let i = interest_of s r in
      if isReflexiveInterest i then
        bind_res (readInterestPitToken i) (\<lambda>prevToken.
        if \<not> existName (fw_assist s) (i_name i)
        then bind_res (createName (fw_random s) (fw_assist s) (fw_drawn s) (i_name i) prevToken) (\<lambda>(a, k).
             Inr (s\<lparr>fw_assist := a, fw_drawn := k\<rparr>))
        else Inr s)
      else Inr s)"

definition isInterestLoop :: "32 word \<Rightarrow> face_id \<Rightarrow> pit_ref \<Rightarrow> fw \<Rightarrow> bool" where
  "isInterestLoop nonce ingress e s =
     (let dnw = findDuplicateNonce (entry_of s e) nonce ingress;
          hasDuplicateNonceInPit = (dnw \<noteq> DUPLICATE_NONCE_NONE)
      in if f_linkType (face_of s ingress) = POINT_TO_POINT
         then hasDuplicateNonceInPit \<and> \<not> (dnw AND DUPLICATE_NONCE_IN_SAME \<noteq> 0)
         else hasDuplicateNonceInPit)"

text \<open>The part of the pipeline after the dead nonce list, on the Interest object.\<close>

definition process_interest :: "iref \<Rightarrow> 32 word \<Rightarrow> face_id \<Rightarrow> fw \<Rightarrow> fw res" where
  "process_interest r nonce ingress s =
     (let i = interest_of s r;
          s = (if i_forwardingHint i \<noteq> [] \<and> isInProducerRegion (fw_regions s) (i_forwardingHint i)
               then modify_interest r (\<lambda>i. i\<lparr>i_forwardingHint := []\<rparr>) s else s)
      in bind_res (findOrInsert (fw_interests s) r True (fw_pit s)) (\<lambda>(p, found, _).
         case found of
           None \<Rightarrow> Inl UndefinedBehavior
         | Some e \<Rightarrow>
             let s = s\<lparr>fw_pit := p\<rparr> in
             bind_res (isReflexiveInterestFromProducer (interest_of s r)) (\<lambda>fromProducer.
             if fromProducer then onSendingRI r ingress e s
             else bind_res (register_token r s) (\<lambda>s.
               if isInterestLoop nonce ingress e s then Inr (onInterestLoop r ingress s)
               else if pe_in (entry_of s e) = [] then cs_lookup r ingress e s
               else onContentStoreMiss r ingress e s))))"

definition onIncomingInterest :: "interest \<Rightarrow> face_id \<Rightarrow> fw \<Rightarrow> fw res" where
  "onIncomingInterest i ingress s =
     (let i = i\<lparr>i_incomingFaceId := Some ingress\<rparr>;
          s = count (\<lambda>c. c\<lparr>nInInterests := nInInterests c + 1\<rparr>) s;
          (nonce, i, k) = getNonce (fw_random s) (fw_drawn s) i;
          s = s\<lparr>fw_drawn := k\<rparr>
      in if i_hopLimit i = Some 0
         then Inr (modify_face ingress (\<lambda>f. f\<lparr>f_nInHopLimitZero := f_nInHopLimitZero f + 1\<rparr>) s)
         else
           let i = i\<lparr>i_hopLimit := map_option (\<lambda>h. h - 1) (i_hopLimit i)\<rparr> in
           if f_scope (face_of s ingress) = NON_LOCAL \<and> isPrefixOf LOCALHOST (i_name i) then Inr s
           else let (r, s) = new_interest i s in
                bind_res (dnl_has (i_name i) nonce (fw_dnl s)) (\<lambda>hasDuplicateNonceInDnl.
                if hasDuplicateNonceInDnl then Inr (onInterestLoop r ingress s)
                else process_interest r nonce ingress s))"

section \<open>Interest finalization\<close>

definition insertDeadNonceList :: "pit_ref \<Rightarrow> face_id option \<Rightarrow> fw \<Rightarrow> fw res" where
  "insertDeadNonceList e upstream s =
     (let x = entry_of s e; i = pit_interest s e in
      if pe_isSatisfied x \<and> pe_dataFreshnessPeriod x < 0 then Inl AssertionFailed
      else if pe_isSatisfied x \<and> \<not> (i_mustBeFresh i \<and> pe_dataFreshnessPeriod x * 10 ^ 6 < fw_dnlLifetime s) then Inr s
      else let outRecords = (case upstream of
                               None \<Rightarrow> pe_out x
                             | Some f \<Rightarrow> (case getOutRecord x f of Some r \<Rightarrow> [r] | None \<Rightarrow> []))
           in bind_res (fold_res (\<lambda>r. dnl_add (i_name i) (or_lastNonce r)) outRecords (fw_dnl s)) (\<lambda>d.
              Inr (s\<lparr>fw_dnl := d\<rparr>)))"

definition onInterestFinalize :: "pit_ref \<Rightarrow> fw \<Rightarrow> fw res" where
  "onInterestFinalize e s =
     bind_res (insertDeadNonceList e None s) (\<lambda>s.
     let s = (if pe_isSatisfied (entry_of s e)
              then count (\<lambda>c. c\<lparr>nSatisfiedInterests := nSatisfiedInterests c + 1\<rparr>) s
              else count (\<lambda>c. c\<lparr>nUnsatisfiedInterests := nUnsatisfiedInterests c + 1\<rparr>) s);
         s = modify_entry e (\<lambda>x. x\<lparr>pe_expiryTimer := None\<rparr>) s
     in bind_res (pit_erase e True (fw_pit s)) (\<lambda>p. Inr (s\<lparr>fw_pit := p\<rparr>)))"

section \<open>Incoming Data\<close>

definition onDataUnsolicited :: "data \<Rightarrow> face_id \<Rightarrow> fw \<Rightarrow> fw res" where
  "onDataUnsolicited d ingress s =
     (let s = count (\<lambda>c. c\<lparr>nUnsolicitedData := nUnsolicitedData c + 1\<rparr>) s
      in if decide (fw_unsolicited s) (face_of s ingress) = CACHE
         then bind_res (cs_insert (fw_now s) d True (fw_cs s)) (\<lambda>cs. Inr (s\<lparr>fw_cs := cs\<rparr>))
         else Inr s)"

definition mark_satisfied :: "data \<Rightarrow> face_id \<Rightarrow> pit_ref \<Rightarrow> fw \<Rightarrow> fw res" where
  "mark_satisfied d ingress e s =
     insertDeadNonceList e (Some ingress)
       (modify_entry e (\<lambda>x. x\<lparr>pe_isSatisfied := True, pe_dataFreshnessPeriod := d_freshnessPeriod d\<rparr>) s)"

definition satisfy_one :: "data \<Rightarrow> face_id \<Rightarrow> pit_ref \<Rightarrow> fw \<Rightarrow> fw res" where
  "satisfy_one d ingress e s =
     (let s = setExpiryTimer e 0 s in
      bind_res (effective_strategy e s) (\<lambda>_.
      bind_res (afterReceiveData d ingress e s) (\<lambda>s.
      bind_res (mark_satisfied d ingress e s) (\<lambda>s.
      Inr (modify_entry e (deleteOutRecord ingress) s)))))"

definition satisfy_step :: "data \<Rightarrow> face_id \<Rightarrow> pit_ref \<Rightarrow> face_id list \<times> fw \<Rightarrow> (face_id list \<times> fw) res" where
  "satisfy_step d ingress e = (\<lambda>(pendingDownstreams, s).
     let new = map ir_face (filter (\<lambda>rec. fw_now s < ir_expiry rec) (pe_in (entry_of s e)));
         pendingDownstreams = pendingDownstreams @ filter (\<lambda>f. f \<notin> set pendingDownstreams) new;
         s = setExpiryTimer e 0 s
     in bind_res (effective_strategy e s) (\<lambda>_.
        bind_res (mark_satisfied d ingress e s) (\<lambda>s.
        Inr (pendingDownstreams, modify_entry e (\<lambda>x. deleteOutRecord ingress (clearInRecords x)) s))))"

definition send_downstream :: "data \<Rightarrow> face_id \<Rightarrow> face_id \<Rightarrow> fw \<Rightarrow> fw" where
  "send_downstream d ingress f s =
     (if f = ingress \<and> f_linkType (face_of s f) \<noteq> AD_HOC then s else snd (onOutgoingData d f s))"

definition onIncomingData :: "data \<Rightarrow> face_id \<Rightarrow> fw \<Rightarrow> fw res" where
  "onIncomingData d ingress s =
     (let d = d\<lparr>d_incomingFaceId := Some ingress\<rparr>;
          s = count (\<lambda>c. c\<lparr>nInData := nInData c + 1\<rparr>) s
      in if f_scope (face_of s ingress) = NON_LOCAL \<and> isPrefixOf LOCALHOST (d_name d) then Inr s
         else let pitMatches = findAllDataMatches (fw_interests s) d (fw_pit s) in
           if pitMatches = [] then onDataUnsolicited d ingress s
           else bind_res (cs_insert (fw_now s) d False (fw_cs s)) (\<lambda>cs.
             let s = s\<lparr>fw_cs := cs\<rparr> in
             case pitMatches of
               [e] \<Rightarrow> satisfy_one d ingress e s
             | _ \<Rightarrow> bind_res (fold_res (satisfy_step d ingress) pitMatches ([], s)) (\<lambda>(pendingDownstreams, s).
                    Inr (fold (send_downstream d ingress) pendingDownstreams s))))"

section \<open>Incoming Nacks, new next hops, face removal\<close>

definition onIncomingNack :: "nack \<Rightarrow> face_id \<Rightarrow> fw \<Rightarrow> fw res" where
  "onIncomingNack nack ingress s =
     (let s = count (\<lambda>c. c\<lparr>nInNacks := nInNacks c + 1\<rparr>) s in
      if f_linkType (face_of s ingress) \<noteq> POINT_TO_POINT then Inr s
      else let (r, s) = new_interest (n_interest nack) s in
        bind_res (findOrInsert (fw_interests s) r False (fw_pit s)) (\<lambda>(_, found, _).
        case found of
          None \<Rightarrow> Inr s
        | Some e \<Rightarrow>
            (case getOutRecord (entry_of s e) ingress of
               None \<Rightarrow> Inr s
             | Some outRecord \<Rightarrow>
                 let (nonce, i, k) = getNonce (fw_random s) (fw_drawn s) (n_interest nack);
                     s = s\<lparr>fw_drawn := k\<rparr> in
                 if nonce \<noteq> or_lastNonce outRecord then Inr s
                 else let s = modify_entry e (\<lambda>x. x\<lparr>pe_out := update_first (\<lambda>rec. or_face rec = ingress)
                                (\<lambda>rec. fst (setIncomingNack i (n_reason nack) rec)) (pe_out x)\<rparr>) s;
                          s = (if \<not> hasPendingOutRecords (fw_now s) (entry_of s e) then setExpiryTimer e 0 s else s)
                      in bind_res (effective_strategy e s) (\<lambda>st. afterReceiveNack st e s))))"

definition newNextHop_pred :: "name \<Rightarrow> name \<Rightarrow> ('f, 'm, 's) nte \<Rightarrow> bool \<times> bool" where
  "newNextHop_pred pfx n nte =
     (if nte_fib nte \<noteq> None \<and> length pfx < length n then (False, False) else (nteHasPitEntries nte, True))"

definition onNewNextHop :: "name \<Rightarrow> next_hop \<Rightarrow> fw \<Rightarrow> fw res" where
  "onNewNextHop pfx nh s =
     (let nt = pit_nt (fw_pit s);
          affected = concat (map (pit_at nt) (partialEnumerate pfx (newNextHop_pred pfx) nt))
      in fold_res (\<lambda>e s. bind_res (effective_strategy e s) (\<lambda>st. afterNewNextHop st nh e s)) affected s)"

definition cleanup_nte :: "face_id \<Rightarrow> name \<Rightarrow> fw \<Rightarrow> fw" where
  "cleanup_nte face nte s =
     (let (f, _) = fib_removeNextHop nte face \<lparr>fib_nt = pit_nt (fw_pit s), fib_nItems = fw_fibItems s\<rparr>;
          s = s\<lparr>fw_pit := (fw_pit s)\<lparr>pit_nt := fib_nt f\<rparr>, fw_fibItems := fib_nItems f\<rparr>
      in fold (\<lambda>e. modify_entry e (deleteInOutRecords face)) (pit_at (pit_nt (fw_pit s)) nte) s)"

text \<open>
  One pass over the tree, then the entries left without table entries, longest names first.
\<close>

definition cleanupOnFaceRemoval :: "face_id \<Rightarrow> fw \<Rightarrow> fw res" where
  "cleanupOnFaceRemoval face s =
     (let s = fold (cleanup_nte face) (map fst (pit_nt (fw_pit s))) s;
          nt = pit_nt (fw_pit s);
          maybeEmptyNtes = filter (\<lambda>n. \<not> hasTableEntries (the (map_of nt n))) (map fst nt);
          nt = fold (\<lambda>n nt. fst (eraseIfEmpty n False nt)) (rev (sort_key length maybeEmptyNtes)) nt
      in assert_res (nt = [] \<or> list_all (\<lambda>(_, e). \<not> isEmpty_nte e) nt)
           (Inr (s\<lparr>fw_pit := (fw_pit s)\<lparr>pit_nt := nt\<rparr>\<rparr>)))"

definition removeFace :: "face_id \<Rightarrow> fw \<Rightarrow> fw res" where
  "removeFace face s =
     assert_res (f_inTable (face_of s face))
       (bind_res (cleanupOnFaceRemoval face s) (\<lambda>s. Inr (modify_face face (\<lambda>f. f\<lparr>f_inTable := False\<rparr>) s)))"

end
