(* ===== verification/Forwarder_Inv.thy ===== *)
theory Forwarder_Inv
  imports Forwarder
begin

text \<open>
  The invariant of the forwarder and what its building blocks keep of it.  \<open>stable\<close> is the frame
  of the strategy actions: they change records of PIT entries, tags of Interests, counters and the
  output, and nothing else.
\<close>

section \<open>The invariant\<close>

definition records_inv :: "fw \<Rightarrow> pit_ref \<Rightarrow> bool" where
  "records_inv s e \<longleftrightarrow>
     pe_interest (entry_of s e) < fw_nextInterest s \<and> 0 \<le> pe_dataFreshnessPeriod (entry_of s e) \<and>
     (\<forall>rec \<in> set (pe_in (entry_of s e)). ir_interest rec < fw_nextInterest s \<and>
        matchesInterest (pit_interest s e) (interest_of s (ir_interest rec)))"

definition fib_routed :: "fw_tree \<Rightarrow> bool" where
  "fib_routed nt \<longleftrightarrow> (\<forall>n fe. fib_at nt n = Some fe \<longrightarrow> fib_entry_ok n fe \<and> (fe_nextHops fe = [] \<longrightarrow> n = []))"

definition hint_inv :: "fw \<Rightarrow> pit_ref \<Rightarrow> bool" where
  "hint_inv s e \<longleftrightarrow> i_forwardingHint (pit_interest s e) = [] \<or>
     \<not> isInProducerRegion (fw_regions s) (i_forwardingHint (pit_interest s e))"

definition fw_inv :: "fw \<Rightarrow> bool" where
  "fw_inv s \<longleftrightarrow>
     pit_inv (fw_interests s) (fw_pit s) \<and>
     (\<forall>e. attached (fw_pit s) e \<longrightarrow> records_inv s e \<and> hint_inv s e) \<and>
     sc_at (pit_nt (fw_pit s)) [] \<noteq> None \<and> fib_routed (pit_nt (fw_pit s)) \<and>
     assist_inv (fw_assist s) \<and> dnl_inv (fw_dnl s) \<and>
     cs_inv (fw_cs s) \<and> (\<forall>x \<in> set (cs_table (fw_cs s)). cacheable (ce_data x) \<and> 0 \<le> d_freshnessPeriod (ce_data x))"

text \<open>What may differ between two versions of an Interest that the tables treat alike.\<close>

definition same_key :: "interest \<Rightarrow> interest \<Rightarrow> bool" where
  "same_key i j \<longleftrightarrow> matchesInterest i j \<and> i_forwardingHint i = i_forwardingHint j \<and> i_nonce i = i_nonce j \<and>
     i_lifetime i = i_lifetime j \<and> i_nextHopFaceId i = i_nextHopFaceId j"

definition stable :: "fw \<Rightarrow> fw \<Rightarrow> bool" where
  "stable s s' \<longleftrightarrow>
     fw_now s' = fw_now s \<and> fw_random s' = fw_random s \<and> fw_drawn s' = fw_drawn s \<and> fw_assist s' = fw_assist s \<and>
     fw_cs s' = fw_cs s \<and> fw_dnl s' = fw_dnl s \<and> fw_dnlLifetime s' = fw_dnlLifetime s \<and>
     fw_regions s' = fw_regions s \<and> fw_defaultHopLimit s' = fw_defaultHopLimit s \<and>
     fw_unsolicited s' = fw_unsolicited s \<and> fw_fibItems s' = fw_fibItems s \<and>
     pit_nt (fw_pit s') = pit_nt (fw_pit s) \<and> pit_next (fw_pit s') = pit_next (fw_pit s) \<and>
     pit_nItems (fw_pit s') = pit_nItems (fw_pit s) \<and> fw_nextInterest s \<le> fw_nextInterest s' \<and>
     (\<forall>f. f_scope (face_of s' f) = f_scope (face_of s f) \<and> f_linkType (face_of s' f) = f_linkType (face_of s f) \<and>
          f_inTable (face_of s' f) = f_inTable (face_of s f)) \<and>
     (\<forall>e. pe_interest (entry_of s' e) = pe_interest (entry_of s e) \<and> pe_nte (entry_of s' e) = pe_nte (entry_of s e) \<and>
          (0 \<le> pe_dataFreshnessPeriod (entry_of s e) \<longrightarrow> 0 \<le> pe_dataFreshnessPeriod (entry_of s' e))) \<and>
     (\<forall>r < fw_nextInterest s. same_key (interest_of s r) (interest_of s' r))"

definition acts :: "fw \<Rightarrow> fw \<Rightarrow> bool" where
  "acts s s' \<longleftrightarrow> stable s s' \<and> (fw_inv s \<longrightarrow> fw_inv s')"

definition ready :: "iref \<Rightarrow> pit_ref \<Rightarrow> fw \<Rightarrow> bool" where
  "ready r e s \<longleftrightarrow> fw_inv s \<and> attached (fw_pit s) e \<and> r < fw_nextInterest s \<and>
     (isReflexiveInterestFromProducer (interest_of s r) = Inr False \<and> matchesInterest (pit_interest s e) (interest_of s r) \<or>
      isReflexiveInterestFromProducer (interest_of s r) = Inr True \<and>
        (\<exists>e2. attached (fw_pit s) e2 \<and> matchesInterest (pit_interest s e2) (interest_of s r)))"

text \<open>The token an Interest leaves with, and whether the hop limit lets it leave.\<close>

definition token_for :: "iref \<Rightarrow> pit_ref \<Rightarrow> bytes option \<Rightarrow> fw \<Rightarrow> bytes option" where
  "token_for r e other s =
     (if isReflexiveInterestFromProducer (interest_of s r) = Inr True
      then Some (setPitToken (fst (nameToPrevToken (fw_assist s) (i_name (pit_interest s e)))))
      else if isReflexiveInterest (interest_of s r)
      then Some (setPitToken (fst (nameToToken (fw_assist s) (i_name (interest_of s r)))))
      else other)"

definition hop_limit_drop :: "iref \<Rightarrow> face_id \<Rightarrow> fw \<Rightarrow> bool" where
  "hop_limit_drop r f s \<longleftrightarrow> i_hopLimit (interest_of s r) = Some 0 \<and> f_scope (face_of s f) = NON_LOCAL"

definition sent :: "iref \<Rightarrow> face_id \<Rightarrow> pit_ref \<Rightarrow> bytes option \<Rightarrow> fw \<Rightarrow> fw_event list" where
  "sent r f e other s =
     (if hop_limit_drop r f s then [] else [OutInterest f ((interest_of s r)\<lparr>i_pitToken := token_for r e other s\<rparr>)])"

lemma fw_invD:
  assumes "fw_inv s"
  shows "pit_inv (fw_interests s) (fw_pit s)" "attached (fw_pit s) e \<Longrightarrow> records_inv s e"
    "attached (fw_pit s) e \<Longrightarrow> hint_inv s e" "sc_at (pit_nt (fw_pit s)) [] \<noteq> None" "fib_routed (pit_nt (fw_pit s))"
    "assist_inv (fw_assist s)" "dnl_inv (fw_dnl s)" "cs_inv (fw_cs s)"
    "x \<in> set (cs_table (fw_cs s)) \<Longrightarrow> cacheable (ce_data x) \<and> 0 \<le> d_freshnessPeriod (ce_data x)"
  using assms by (auto simp: fw_inv_def)

lemmas fw_defs = interest_of_def entry_of_def face_of_def pit_interest_def modify_interest_def new_interest_def
  modify_entry_def modify_face_def count_def emit_def

lemma same_key_refl [simp]: "same_key i i" by (simp add: same_key_def)

lemma same_key_trans: "same_key i j \<Longrightarrow> same_key j k \<Longrightarrow> same_key i k"
  using matchesInterest_trans by (auto simp: same_key_def)

lemma same_key_name: "same_key i j \<Longrightarrow> i_name j = i_name i"
  by (simp add: same_key_def matchesInterest_def)

lemma same_key_fields [simp]:
  "same_key i (i\<lparr>i_pitToken := t\<rparr>)" "same_key i (i\<lparr>i_hopLimit := h\<rparr>)" "same_key i (i\<lparr>i_incomingFaceId := f\<rparr>)"
  by (simp_all add: same_key_def matchesInterest_def)

lemma stable_refl [simp]: "stable s s" by (simp add: stable_def)

lemma stable_trans: "stable s t \<Longrightarrow> stable t u \<Longrightarrow> stable s u"
  unfolding stable_def by (auto intro: same_key_trans)

lemma stable_attached: "stable s s' \<Longrightarrow> attached (fw_pit s') = attached (fw_pit s)"
  by (auto simp: stable_def attached_def entry_of_def fun_eq_iff)

lemma stable_interest: "stable s s' \<Longrightarrow> r < fw_nextInterest s \<Longrightarrow> same_key (interest_of s r) (interest_of s' r)"
  by (simp add: stable_def)

lemma stable_pit_interest:
  "stable s s' \<Longrightarrow> fw_inv s \<Longrightarrow> attached (fw_pit s) e \<Longrightarrow> same_key (pit_interest s e) (pit_interest s' e)"
  using fw_invD(2) [of s e] by (auto simp: stable_def pit_interest_def records_inv_def)

text \<open>An action that keeps the frame and the records keeps the invariant.\<close>

lemma fw_inv_stable:
  assumes "fw_inv s" "stable s s'"
    and "\<And>e. records_ok (entry_of s' e)"
    and "\<And>e rec. attached (fw_pit s) e \<Longrightarrow> rec \<in> set (pe_in (entry_of s' e)) \<Longrightarrow>
       ir_interest rec < fw_nextInterest s' \<and> matchesInterest (pit_interest s' e) (interest_of s' (ir_interest rec))"
  shows "fw_inv s'"
proof -
  note I = fw_invD [OF assms(1)] and S = assms(2) [unfolded stable_def]
  have att: "attached (fw_pit s') = attached (fw_pit s)" by (rule stable_attached [OF assms(2)])
  have key: "same_key (pit_interest s e) (pit_interest s' e)" if "attached (fw_pit s) e" for e
    by (rule stable_pit_interest [OF assms(2,1) that])
  have pe: "pe_interest (pit_entries (fw_pit s') e) = pe_interest (pit_entries (fw_pit s) e)" for e
    using S by (simp add: entry_of_def)
  define p where "p = fw_pit s'"
  have ei: "entry_interest (fw_interests s) p = entry_interest (fw_interests s) (fw_pit s)"
    using S by (auto simp: p_def entry_interest_def entry_of_def)
  have "pit_inv (fw_interests s) p"
    using I(1) S assms(3) att unfolding pit_inv_def p_def [symmetric] ei
    by (auto simp: p_def entry_of_def)
  then have "pit_inv (fw_interests s') p"
    by (rule pit_inv_store) (use key att in \<open>simp add: p_def same_key_def entry_interest_def pit_interest_def
      interest_of_def entry_of_def pe\<close>)
  moreover have "records_inv s' e \<and> hint_inv s' e" if "attached (fw_pit s) e" for e
    using I(2,3) [OF that] assms(4) [OF that] key [OF that] S
    by (auto simp: records_inv_def hint_inv_def same_key_def intro: less_le_trans)
  ultimately show ?thesis using I S att unfolding fw_inv_def p_def by auto
qed

lemma acts_refl [simp]: "acts s s" by (simp add: acts_def)

lemma acts_trans: "acts s t \<Longrightarrow> acts t u \<Longrightarrow> acts s u"
  unfolding acts_def using stable_trans by blast

lemma actsD: "acts s s' \<Longrightarrow> stable s s'" "acts s s' \<Longrightarrow> fw_inv s \<Longrightarrow> fw_inv s'"
  by (simp_all add: acts_def)

lemma acts_records:
  assumes "stable s s'" "\<And>e. records_ok (entry_of s e) \<Longrightarrow> records_ok (entry_of s' e)"
    and "\<And>e. set (pe_in (entry_of s' e)) \<subseteq> set (pe_in (entry_of s e))"
  shows "acts s s'"
  unfolding acts_def
proof (intro conjI impI assms(1))
  assume I: "fw_inv s"
  show "fw_inv s'"
  proof (rule fw_inv_stable [OF I assms(1)])
    show "records_ok (entry_of s' e)" for e
      using assms(2) pit_invD(7) [OF fw_invD(1) [OF I]] by (simp add: entry_of_def)
    fix e rec assume e: "attached (fw_pit s) e" and "rec \<in> set (pe_in (entry_of s' e))"
    then have rec: "ir_interest rec < fw_nextInterest s" "matchesInterest (pit_interest s e) (interest_of s (ir_interest rec))"
      using fw_invD(2) [OF I e] assms(3) by (auto simp: records_inv_def)
    have "matchesInterest (pit_interest s e) (pit_interest s' e)"
      "matchesInterest (interest_of s (ir_interest rec)) (interest_of s' (ir_interest rec))"
      using stable_pit_interest [OF assms(1) I e] stable_interest [OF assms(1) rec(1)] by (auto simp: same_key_def)
    moreover have "ir_interest rec < fw_nextInterest s'" using rec(1) assms(1) by (simp add: stable_def)
    ultimately show "ir_interest rec < fw_nextInterest s' \<and>
        matchesInterest (pit_interest s' e) (interest_of s' (ir_interest rec))"
      using rec(2) by (auto simp: matchesInterest_def)
  qed
qed

lemma acts_log [simp]: "acts s (count c s)" "acts s (emit ev s)"
  by (rule acts_records; simp add: stable_def fw_defs)+

lemma acts_face:
  "(\<And>f. f_scope (g f) = f_scope f \<and> f_linkType (g f) = f_linkType f \<and> f_inTable (g f) = f_inTable f) \<Longrightarrow>
     acts s (modify_face f g s)"
  by (rule acts_records) (simp_all add: stable_def fw_defs)

lemma acts_interest: "(\<And>i. same_key i (f i)) \<Longrightarrow> acts s (modify_interest r f s)"
  by (rule acts_records) (simp_all add: stable_def fw_defs)

lemma acts_new_interest: "new_interest i s = (r, s') \<Longrightarrow> acts s s'"
  by (rule acts_records) (auto simp: stable_def fw_defs)

lemma acts_entry:
  "keeps_identity f \<Longrightarrow> set (pe_in (f (entry_of s e))) \<subseteq> set (pe_in (entry_of s e)) \<Longrightarrow>
     (0 \<le> pe_dataFreshnessPeriod (entry_of s e) \<Longrightarrow> 0 \<le> pe_dataFreshnessPeriod (f (entry_of s e))) \<Longrightarrow>
     acts s (modify_entry e f s)"
  by (rule acts_records) (auto simp: stable_def fw_defs keeps_identity_def)

lemma acts_entry_value:
  assumes "pe_interest x = pe_interest (entry_of s e)" "pe_nte x = pe_nte (entry_of s e)" "pe_in x = pe_in (entry_of s e)"
    and "pe_dataFreshnessPeriod x = pe_dataFreshnessPeriod (entry_of s e)"
    and "records_ok (entry_of s e) \<Longrightarrow> records_ok x"
  shows "acts s (modify_entry e (\<lambda>_. x) s)"
  using assms by (intro acts_records) (auto simp: stable_def fw_defs)

lemma acts_in_record:
  assumes "pe_interest x = pe_interest (entry_of s e)" "pe_nte x = pe_nte (entry_of s e)"
    and "pe_dataFreshnessPeriod x = pe_dataFreshnessPeriod (entry_of s e)"
    and "records_ok (entry_of s e) \<Longrightarrow> records_ok x"
    and "\<And>rec. rec \<in> set (pe_in x) \<Longrightarrow> rec \<in> set (pe_in (entry_of s e)) \<or>
       (ir_interest rec < fw_nextInterest s \<and> matchesInterest (pit_interest s e) (interest_of s (ir_interest rec)))"
  shows "acts s (modify_entry e (\<lambda>_. x) s)"
  unfolding acts_def
proof (intro conjI impI)
  show st: "stable s (modify_entry e (\<lambda>_. x) s)" using assms(1-3) by (auto simp: stable_def fw_defs)
  assume I: "fw_inv s"
  have ri: "rec \<in> set (pe_in (entry_of s e')) \<Longrightarrow> attached (fw_pit s) e' \<Longrightarrow> ir_interest rec < fw_nextInterest s \<and>
      matchesInterest (pit_interest s e') (interest_of s (ir_interest rec))" for rec e'
    using fw_invD(2) [OF I] by (simp add: records_inv_def)
  show "fw_inv (modify_entry e (\<lambda>_. x) s)"
  proof (rule fw_inv_stable [OF I st])
    show "records_ok (entry_of (modify_entry e (\<lambda>_. x) s) e')" for e'
      using assms(4) pit_invD(7) [OF fw_invD(1) [OF I]] by (simp add: fw_defs)
    fix e' rec assume "attached (fw_pit s) e'" "rec \<in> set (pe_in (entry_of (modify_entry e (\<lambda>_. x) s) e'))"
    then show "ir_interest rec < fw_nextInterest (modify_entry e (\<lambda>_. x) s) \<and>
        matchesInterest (pit_interest (modify_entry e (\<lambda>_. x) s) e')
          (interest_of (modify_entry e (\<lambda>_. x) s) (ir_interest rec))"
      using assms(1,5) ri [of rec e'] by (cases "e' = e") (auto simp: fw_defs)
  qed
qed

section \<open>Actions\<close>

lemma acts_setExpiryTimer: "acts s (setExpiryTimer e d s)"
  unfolding setExpiryTimer_def by (rule acts_entry) (auto simp: keeps_identity_def records_ok_def)

lemma acts_send_nack: "acts s (send_nack f i reason s)"
  unfolding send_nack_def by (rule acts_trans [OF acts_log(2) acts_log(1)])

lemma acts_onInterestLoop: "acts s (onInterestLoop r f s)"
  by (simp add: onInterestLoop_def acts_send_nack)

lemma acts_deleteInRecord: "acts s (modify_entry e (deleteInRecord f) s)"
  by (rule acts_entry) (auto simp: keeps_identity_record_ops deleteInRecord_def dest: set_delete_first_subset [THEN subsetD])

lemma acts_onOutgoingNack: "acts s (snd (onOutgoingNack reason f e s))"
  by (auto simp: onOutgoingNack_def Let_def split: option.splits intro: acts_trans [OF acts_deleteInRecord acts_send_nack])

lemma acts_onOutgoingData: "acts s (snd (onOutgoingData d f s))"
  unfolding onOutgoingData_def using acts_trans [of s "emit (OutData f d) s"] by simp

lemma acts_fold: "(\<And>x s. acts s (f x s)) \<Longrightarrow> acts s (fold f xs s)"
proof (induction xs arbitrary: s)
  case (Cons x xs)
  then show ?case using acts_trans by fastforce
qed simp

lemma acts_sendNacks: "acts s (sendNacks reason e ex s)"
  unfolding sendNacks_def Let_def by (rule acts_fold) (rule acts_onOutgoingNack)

lemma acts_nack_no_route: "acts s (nack_no_route f e s)"
  unfolding nack_no_route_def rejectPendingInterest_def
  by (rule acts_trans [OF acts_onOutgoingNack acts_setExpiryTimer])

section \<open>Outgoing Interests\<close>

lemma ready_stable:
  assumes "ready r e s" "acts s s'"
  shows "ready r e s'"
proof -
  note R = assms(1) [unfolded ready_def] and S = actsD(1) [OF assms(2)]
  have k: "same_key (interest_of s r) (interest_of s' r)" using stable_interest [OF S] R by blast
  have m: "matchesInterest (pit_interest s' e') (interest_of s' r) \<longleftrightarrow> matchesInterest (pit_interest s e') (interest_of s r)"
    if "attached (fw_pit s) e'" for e'
    using stable_pit_interest [OF S _ that] R k by (auto simp: same_key_def matchesInterest_def)
  have "isReflexiveInterestFromProducer (interest_of s' r) = isReflexiveInterestFromProducer (interest_of s r)"
    using fromProducer_name_cong same_key_name [OF k] by blast
  moreover have "r < fw_nextInterest s'" using R S by (auto simp: stable_def)
  ultimately show ?thesis
    using R m actsD(2) [OF assms(2)] stable_attached [OF S] unfolding ready_def by auto
qed

lemma insert_out_record_ok:
  assumes "matchesInterest (pit_interest s e) (interest_of s r)"
  obtains x where "modify_entry_res e (insertOrUpdateOutRecord (fw_interests s) (fw_now s) f r) s = Inr (modify_entry e (\<lambda>_. x) s)"
    "x = (entry_of s e)\<lparr>pe_out := upsert (\<lambda>rec. or_face rec = f) (new_out_record f)
       (outRecord_update (fw_now s) (interest_of s r)) (pe_out (entry_of s e))\<rparr>"
    "acts s (modify_entry e (\<lambda>_. x) s)"
proof -
  define x where "x = (entry_of s e)\<lparr>pe_out := upsert (\<lambda>rec. or_face rec = f) (new_out_record f)
       (outRecord_update (fw_now s) (interest_of s r)) (pe_out (entry_of s e))\<rparr>"
  have "acts s (modify_entry e (\<lambda>_. x) s)"
    by (rule acts_entry_value) (simp_all add: x_def upsert_out_records_ok)
  moreover have "modify_entry_res e (insertOrUpdateOutRecord (fw_interests s) (fw_now s) f r) s = Inr (modify_entry e (\<lambda>_. x) s)"
    using assms by (simp add: modify_entry_res_def insertOrUpdateOutRecord_matches x_def pit_interest_def interest_of_def)
  ultimately show thesis using that x_def by blast
qed

lemma acts_sent: "acts s s' \<Longrightarrow> acts s (count c (emit ev s'))"
  by (rule acts_trans [OF _ acts_trans [OF acts_log(2) acts_log(1)]])

lemma onOutgoingInterest_ok:
  assumes "ready r e s"
  shows "\<exists>res s'. onOutgoingInterest r f e s = Inr (res, s') \<and> acts s s' \<and>
    fw_out s' = fw_out s @ sent r f e (i_pitToken (interest_of s r)) s"
proof -
  note R = assms [unfolded ready_def]
  define tagged where "tagged t = modify_interest r (\<lambda>i. i\<lparr>i_pitToken := Some (setPitToken (t i))\<rparr>) s" for t
  have acts_tag: "acts s (tagged t)" for t unfolding tagged_def by (rule acts_interest) simp
  consider (drop) "i_hopLimit (interest_of s r) = Some 0 \<and> f_scope (face_of s f) = NON_LOCAL"
    | (plain) "\<not> (i_hopLimit (interest_of s r) = Some 0 \<and> f_scope (face_of s f) = NON_LOCAL)"
        "isReflexiveInterestFromProducer (interest_of s r) = Inr False"
    | (ri) "\<not> (i_hopLimit (interest_of s r) = Some 0 \<and> f_scope (face_of s f) = NON_LOCAL)"
        "isReflexiveInterestFromProducer (interest_of s r) = Inr True"
    using R by blast
  then show ?thesis
  proof cases
    case drop
    then show ?thesis
      by (auto simp: onOutgoingInterest_def sent_def hop_limit_drop_def modify_face_def intro!: acts_face [unfolded modify_face_def])
  next
    case plain
    define s1 where "s1 = (if isReflexiveInterest (interest_of s r) then tagged (\<lambda>i. fst (nameToToken (fw_assist s) (i_name i))) else s)"
    have a1: "acts s s1" by (simp add: s1_def acts_tag)
    have "ready r e s1" "isReflexiveInterestFromProducer (interest_of s1 r) = Inr False"
      using ready_stable [OF assms a1] plain(2) fromProducer_name_cong [of "interest_of s1 r" "interest_of s r"]
      by (auto simp: s1_def tagged_def fw_defs)
    then have "matchesInterest (pit_interest s1 e) (interest_of s1 r)" by (auto simp: ready_def)
    from insert_out_record_ok [OF this, of f] obtain x where
      x: "modify_entry_res e (insertOrUpdateOutRecord (fw_interests s1) (fw_now s1) f r) s1 = Inr (modify_entry e (\<lambda>_. x) s1)"
        "acts s1 (modify_entry e (\<lambda>_. x) s1)" by blast
    have "onOutgoingInterest r f e s = Inr (Some (e, f), count (\<lambda>c. c\<lparr>nOutInterests := nOutInterests c + 1\<rparr>)
        (emit (OutInterest f (interest_of (modify_entry e (\<lambda>_. x) s1) r)) (modify_entry e (\<lambda>_. x) s1)))"
      unfolding onOutgoingInterest_def if_not_P [OF plain(1)] plain(2) bind_res_Inr if_False
        tagged_def [symmetric] s1_def [symmetric] Let_def x(1) by simp
    moreover have "interest_of (modify_entry e (\<lambda>_. x) s1) r =
        (interest_of s r)\<lparr>i_pitToken := token_for r e (i_pitToken (interest_of s r)) s\<rparr>"
      using plain(2) by (simp add: s1_def tagged_def token_for_def fw_defs)
    moreover have "fw_out (modify_entry e (\<lambda>_. x) s1) = fw_out s" by (simp add: s1_def tagged_def fw_defs)
    ultimately show ?thesis using acts_sent [OF acts_trans [OF a1 x(2)]] plain(1) [folded hop_limit_drop_def]
      by (simp add: sent_def count_def emit_def)
  next
    case ri
    define t where "t = fst (nameToPrevToken (fw_assist s) (i_name (pit_interest s e)))"
    define s1 where "s1 = tagged (\<lambda>_. t)"
    have a1: "acts s s1" by (simp add: s1_def acts_tag)
    have r1: "ready r e s1" "isReflexiveInterestFromProducer (interest_of s1 r) = Inr True"
      using ready_stable [OF assms a1] ri(2) fromProducer_name_cong [of "interest_of s1 r" "interest_of s r"]
      by (auto simp: s1_def tagged_def fw_defs)
    have inv: "pit_inv (fw_interests s1) (fw_pit s1)" using r1(1) fw_invD(1) by (auto simp: ready_def)
    obtain e2 where e2: "find (\<lambda>e. matchesInterest (entry_interest (fw_interests s1) (fw_pit s1) e) (fw_interests s1 r))
        (pit_at (pit_nt (fw_pit s1)) (pit_nte_of (i_name (fw_interests s1 r)))) = Some e2"
      using r1 find_entry_None [OF inv, of "fw_interests s1 r"]
      by (fastforce simp: ready_def entry_interest_def pit_interest_def interest_of_def entry_of_def)
    then have "matchesInterest (pit_interest s1 e2) (interest_of s1 r)"
      using find_SomeD by (fastforce simp: entry_interest_def pit_interest_def interest_of_def entry_of_def)
    from insert_out_record_ok [OF this, of f] obtain x where
      x: "modify_entry_res e2 (insertOrUpdateOutRecord (fw_interests s1) (fw_now s1) f r) s1 = Inr (modify_entry e2 (\<lambda>_. x) s1)"
        "acts s1 (modify_entry e2 (\<lambda>_. x) s1)" by blast
    have "onOutgoingInterest r f e s = Inr (Some (e2, f), count (\<lambda>c. c\<lparr>nOutInterests := nOutInterests c + 1\<rparr>)
        (emit (OutInterest f (interest_of (modify_entry e2 (\<lambda>_. x) s1) r)) (modify_entry e2 (\<lambda>_. x) s1)))"
      unfolding onOutgoingInterest_def if_not_P [OF ri(1)] ri(2) bind_res_Inr if_True Let_def
        t_def [symmetric] tagged_def [symmetric] s1_def [symmetric] findOrInsert_find [OF inv] e2 by (simp add: x(1))
    moreover have "interest_of (modify_entry e2 (\<lambda>_. x) s1) r =
        (interest_of s r)\<lparr>i_pitToken := token_for r e (i_pitToken (interest_of s r)) s\<rparr>"
      using ri(2) by (simp add: s1_def tagged_def t_def token_for_def fw_defs)
    moreover have "fw_out (modify_entry e2 (\<lambda>_. x) s1) = fw_out s" by (simp add: s1_def tagged_def fw_defs)
    ultimately show ?thesis using acts_sent [OF acts_trans [OF a1 x(2)]] ri(1) [folded hop_limit_drop_def]
      by (simp add: sent_def count_def emit_def)
  qed
qed

lemma sent_copy:
  assumes "new_interest ((interest_of s r)\<lparr>i_pitToken := None\<rparr>) s = (r2, s2)" "fw_inv s" "attached (fw_pit s) e"
  shows "sent r2 f e (i_pitToken (interest_of s2 r2)) s2 = sent r f e None s"
proof -
  have i2: "interest_of s2 r2 = (interest_of s r)\<lparr>i_pitToken := None\<rparr>" using assms(1) by (auto simp: fw_defs)
  have "isReflexiveInterestFromProducer (interest_of s2 r2) = isReflexiveInterestFromProducer (interest_of s r)"
    by (rule fromProducer_name_cong) (simp add: i2)
  moreover have "pe_interest (entry_of s e) \<noteq> fw_nextInterest s"
    using fw_invD(2) [OF assms(2,3)] by (simp add: records_inv_def)
  then have "pit_interest s2 e = pit_interest s e" "fw_assist s2 = fw_assist s" "face_of s2 f = face_of s f"
    using assms(1) by (auto simp: fw_defs)
  ultimately show ?thesis by (simp add: sent_def hop_limit_drop_def token_for_def i2 isReflexiveInterest_def)
qed

lemma sendInterest_ok:
  assumes "ready r e s"
  shows "\<exists>res s'. sendInterest r f e s = Inr (res, s') \<and> acts s s' \<and> fw_out s' = fw_out s @ sent r f e None s"
proof (cases "i_pitToken (interest_of s r) = None")
  case True
  then show ?thesis using onOutgoingInterest_ok [OF assms, of f] by (simp add: sendInterest_def)
next
  case False
  define i where "i = (interest_of s r)\<lparr>i_pitToken := None\<rparr>"
  obtain r2 s2 where n: "new_interest i s = (r2, s2)" by force
  have a: "acts s s2" by (rule acts_new_interest [OF n])
  have "r2 < fw_nextInterest s2" "interest_of s2 r2 = i" using n by (auto simp: fw_defs)
  moreover have "matchesInterest (interest_of s2 r) i"
    using stable_interest [OF actsD(1) [OF a], of r] assms by (auto simp: i_def ready_def same_key_def matchesInterest_def)
  moreover have "isReflexiveInterestFromProducer i = isReflexiveInterestFromProducer (interest_of s2 r)"
    using fromProducer_name_cong calculation(3) by (metis matchesInterest_def)
  ultimately have "ready r2 e s2"
    using ready_stable [OF assms a] matchesInterest_trans unfolding ready_def by metis
  from onOutgoingInterest_ok [OF this, of f] obtain res s' where
    "onOutgoingInterest r2 f e s2 = Inr (res, s')" "acts s2 s'"
    "fw_out s' = fw_out s2 @ sent r2 f e (i_pitToken (interest_of s2 r2)) s2" by blast
  moreover have "sent r2 f e (i_pitToken (interest_of s2 r2)) s2 = sent r f e None s" "fw_out s2 = fw_out s"
    using sent_copy [OF n [unfolded i_def]] assms n by (auto simp: ready_def new_interest_def)
  ultimately show ?thesis using acts_trans [OF a] False n by (auto simp: sendInterest_def i_def)
qed

section \<open>Strategies\<close>

lemma attached_prefix:
  assumes "fw_inv s" "attached (fw_pit s) e"
  shows "\<exists>nte. pe_nte (entry_of s e) = Some nte \<and> prefix nte (i_name (pit_interest s e)) \<and> map_of (pit_nt (fw_pit s)) nte \<noteq> None"
proof -
  note I = pit_invD [OF fw_invD(1) [OF assms(1)]]
  define nte where "nte = pit_nte_of (i_name (pit_interest s e))"
  have n: "pe_nte (pit_entries (fw_pit s) e) = Some nte"
    using I(5) [OF assms(2)] by (simp add: nte_def pit_interest_def entry_interest_def entry_of_def interest_of_def)
  then have "e \<in> set (pit_at (pit_nt (fw_pit s)) nte)" using I(3) assms(2) by blast
  then have "map_of (pit_nt (fw_pit s)) nte \<noteq> None" by (cases "map_of (pit_nt (fw_pit s)) nte") auto
  moreover have "prefix nte (i_name (pit_interest s e))" by (simp add: nte_def pit_nte_of_def take_is_prefix)
  ultimately show ?thesis using n by (auto simp: entry_of_def)
qed

lemma effective_strategy_ok:
  assumes "fw_inv s" "attached (fw_pit s) e"
  shows "\<exists>st. effective_strategy e s = Inr st \<and>
    effective (sc_at (pit_nt (fw_pit s))) (i_name (pit_interest s e)) = Some st"
  using attached_prefix [OF assms] findEffectiveStrategy_pit_effective [of "pit_nt (fw_pit s)"]
    fw_invD(4) [OF assms(1)] pit_invD(1) [OF fw_invD(1) [OF assms(1)]]
  by (auto simp: effective_strategy_def)

lemma fib_lpm_prefix:
  assumes "fib_routed nt"
  shows "fe_nextHops (fib_findLongestPrefixMatch nt n) = [] \<Longrightarrow> fe_prefix (fib_findLongestPrefixMatch nt n) = []"
  using assms by (auto simp: fib_findLongestPrefixMatch_def entry_at_def fib_routed_def fib_entry_ok_def
      s_emptyEntry_def new_fib_entry_def split: option.splits)

lemma lookupFib_loop_total:
  assumes "fib_routed nt" "hints \<noteq> [] \<or> (\<exists>fe. prev = Some fe \<and> fe_prefix fe = [])"
  shows "\<exists>fe. lookupFib_loop nt hints prev = Inr fe"
  using assms(2)
proof (induction hints arbitrary: prev)
  case (Cons h hs)
  then show ?case using fib_lpm_prefix [OF assms(1)] by (auto simp: Let_def assert_res_def)
qed (auto simp: assert_res_def)

lemma lookupFib_total:
  assumes "fw_inv s" "attached (fw_pit s) e"
  shows "\<exists>fe. lookupFib e s = Inr fe"
  using attached_prefix [OF assms] fw_invD(3) [OF assms] lookupFib_loop_total [OF fw_invD(5) [OF assms(1)]]
  by (auto simp: lookupFib_def Let_def hint_inv_def assert_res_def)

lemma drop_sendInterest_ok:
  assumes "ready r e s"
  shows "\<exists>s'. drop_result (sendInterest r f e s) = Inr s' \<and> acts s s' \<and> fw_out s' = fw_out s @ sent r f e None s"
  using sendInterest_ok [OF assms, of f] by (auto simp: drop_result_def)

lemma bestRoute_reflexive_ok:
  assumes "ready r e s"
  shows "\<exists>s'. bestRoute_reflexive r f e s = Inr s' \<and> acts s s' \<and>
    (\<forall>rec recs. pe_in (entry_of s e) = rec # recs \<longrightarrow> fw_out s' = fw_out s @ sent r (ir_face rec) e None s)"
proof -
  have "\<exists>fe. lookupFib e s = Inr fe" using lookupFib_total assms by (auto simp: ready_def)
  then show ?thesis
    using drop_sendInterest_ok [OF assms] acts_nack_no_route
    by (cases "pe_in (entry_of s e)") (auto simp: bestRoute_reflexive_def)
qed

lemma acts_decide:
  assumes "decidePerPitEntry rp (fw_now s) (entry_of s e) = Inr (d, x)"
  shows "acts s (modify_entry e (\<lambda>_. x) s)"
  using decidePerPitEntry_keeps [OF assms] by (intro acts_entry_value) (auto simp: records_ok_def)

lemma bestRoute_ok:
  assumes "ready r e s"
  shows "\<exists>s'. bestRoute_afterReceiveInterest rp r f e s = Inr s' \<and> acts s s'"
proof (cases "isReflexiveInterestFromProducer (interest_of s r) = Inr True")
  case True
  then show ?thesis using bestRoute_reflexive_ok [OF assms, of f] by (auto simp: bestRoute_afterReceiveInterest_def)
next
  case False
  then have np: "isReflexiveInterestFromProducer (interest_of s r) = Inr False" using assms by (auto simp: ready_def)
  obtain d x where d: "decidePerPitEntry rp (fw_now s) (entry_of s e) = Inr (d, x)"
    using decidePerPitEntry_total [of rp "fw_now s" "entry_of s e"] by auto
  define s1 where "s1 = modify_entry e (\<lambda>_. x) s"
  have a1: "acts s s1" unfolding s1_def by (rule acts_decide [OF d])
  have r1: "ready r e s1" by (rule ready_stable [OF assms a1])
  obtain fe where fe: "lookupFib e s1 = Inr fe" using lookupFib_total r1 by (auto simp: ready_def)
  have send: "\<exists>s'. drop_result (sendInterest r g e s1) = Inr s' \<and> acts s s'" for g
    using drop_sendInterest_ok [OF r1, of g] acts_trans [OF a1] by blast
  define unused where "unused = find (\<lambda>nh. isNextHopEligible (fw_faces s1) f (interest_of s1 r) nh (entry_of s1 e) True (fw_now s1)) (fe_nextHops fe)"
  have late: "\<exists>s'. (case unused of Some nh \<Rightarrow> drop_result (sendInterest r (nh_face nh) e s1)
      | None \<Rightarrow> bind_res (findEligibleNextHopWithEarliestOutRecord (fw_faces s1) f (interest_of s1 r) (fe_nextHops fe) (entry_of s1 e))
          (\<lambda>found. case found of None \<Rightarrow> Inr s1 | Some nh \<Rightarrow> drop_result (sendInterest r (nh_face nh) e s1))) = Inr s' \<and> acts s s'"
  proof (cases unused)
    case None
    then obtain found where "findEligibleNextHopWithEarliestOutRecord (fw_faces s1) f (interest_of s1 r) (fe_nextHops fe) (entry_of s1 e) = Inr found"
      unfolding unused_def using earliest_after_unused by blast
    with None send a1 show ?thesis by (cases found) auto
  qed (use send in auto)
  have new: "\<exists>s'. (case find (eligible (fw_faces s1) f (interest_of s1 r) (entry_of s1 e)) (fe_nextHops fe) of
      None \<Rightarrow> Inr (nack_no_route f e s1) | Some nh \<Rightarrow> drop_result (sendInterest r (nh_face nh) e s1)) = Inr s' \<and> acts s s'"
    using send acts_trans [OF a1 acts_nack_no_route] by (auto split: option.splits)
  show ?thesis using a1 late new
    unfolding bestRoute_afterReceiveInterest_def np d bind_res_Inr if_False prod.case s1_def [symmetric] Let_def fe unused_def
    by (cases d) auto
qed

lemma records_ok_out_suppression: "records_ok e \<Longrightarrow> records_ok (set_out_suppression f v e)"
  by (simp add: records_ok_def set_out_suppression_def map_update_first)

lemma decidePerUpstream_keeps:
  assumes "decidePerUpstream rp now f e = (d, x)"
  shows "pe_interest x = pe_interest e" "pe_nte x = pe_nte e" "pe_in x = pe_in e"
    "pe_dataFreshnessPeriod x = pe_dataFreshnessPeriod e" "records_ok e \<Longrightarrow> records_ok x"
  using assms records_ok_out_suppression [of e]
  by (auto simp: decidePerUpstream_def Let_def set_out_suppression_def split: option.splits if_splits)

lemma acts_incrementInterval: "acts s (modify_entry e (incrementIntervalForOutRecord rp f) s)"
  by (rule acts_entry) (auto simp: keeps_identity_def incrementIntervalForOutRecord_def set_out_suppression_def
      records_ok_def map_update_first split: option.splits)

lemma multicast_step_ok:
  assumes "ready r e s"
  shows "\<exists>s'. multicast_step rp r f e nh s = Inr s' \<and> acts s s'"
proof -
  obtain d x where d: "decidePerUpstream rp (fw_now s) (nh_face nh) (entry_of s e) = (d, x)" by force
  define s1 where "s1 = modify_entry e (\<lambda>_. x) s"
  have a1: "acts s s1" unfolding s1_def by (rule acts_entry_value) (use decidePerUpstream_keeps [OF d] in auto)
  obtain res s2 where "sendInterest r (nh_face nh) e s1 = Inr (res, s2)" "acts s1 s2"
    using sendInterest_ok [OF ready_stable [OF assms a1], of "nh_face nh"] by blast
  with a1 acts_trans [OF a1] acts_trans [OF acts_trans [OF a1] acts_incrementInterval] d show ?thesis
    by (auto simp: multicast_step_def s1_def [symmetric] split: option.splits)
qed

lemma fold_res_acts:
  assumes "ready r e s" "\<And>x s. ready r e s \<Longrightarrow> \<exists>s'. f x s = Inr s' \<and> acts s s'"
  shows "\<exists>s'. fold_res f xs s = Inr s' \<and> acts s s'"
  using assms(1)
proof (induction xs arbitrary: s)
  case (Cons x xs)
  obtain s1 where s1: "f x s = Inr s1" "acts s s1" using assms(2) [OF Cons.prems] by blast
  with Cons.IH [OF ready_stable [OF Cons.prems s1(2)]] show ?case using acts_trans by fastforce
qed simp

lemma multicast_ok:
  assumes "ready r e s"
  shows "\<exists>s'. multicast_afterReceiveInterest rp r f e s = Inr s' \<and> acts s s'"
proof -
  obtain fe where "lookupFib e s = Inr fe" using lookupFib_total assms by (auto simp: ready_def)
  with fold_res_acts [OF assms multicast_step_ok] show ?thesis by (simp add: multicast_afterReceiveInterest_def)
qed

lemma afterReceiveInterest_ok:
  assumes "ready r e s"
  shows "\<exists>s'. afterReceiveInterest st r f e s = Inr s' \<and> acts s s'"
  using bestRoute_ok [OF assms] multicast_ok [OF assms] by (cases "st_type st") (simp_all add: afterReceiveInterest_def)

text \<open>The scan of the out-records: how many are not Nacked, and the least severe reason.\<close>

lemma nack_scan_simps:
  "or_incomingNack r = None \<Longrightarrow> nack_scan r (k, lf, reason) = (Suc k, Some (or_face r), reason)"
  "or_incomingNack r = Some x \<Longrightarrow> nack_scan r (k, lf, reason) = (k, lf, if isLessSevere x reason then x else reason)"
  by (simp_all add: nack_scan_def)

lemma nack_scan_face:
  "fold nack_scan rs (k, lf, reason) = (k', lf', reason') \<Longrightarrow> k' = k + length (filter (\<lambda>r. or_incomingNack r = None) rs) \<and>
     (k < k' \<longrightarrow> (\<exists>r \<in> set rs. or_incomingNack r = None \<and> lf' = Some (or_face r))) \<and> (k = k' \<longrightarrow> lf' = lf)"
proof (induction rs arbitrary: k lf reason)
  case (Cons r rs)
  show ?case
  proof (cases "or_incomingNack r")
    case None
    then show ?thesis using Cons.IH [of "Suc k" "Some (or_face r)" reason] Cons.prems
      by (cases "Suc k < k'") (auto simp: nack_scan_simps)
  next
    case (Some x)
    then show ?thesis using Cons.IH [of k lf] Cons.prems by (auto simp: nack_scan_simps)
  qed
qed simp

lemma processNack_ok: "\<exists>s'. processNack e s = Inr s' \<and> acts s s'"
proof -
  obtain k f reason where scan: "fold nack_scan (pe_out (entry_of s e)) (0, None, NONE) = (k, f, reason)"
    by (metis prod_cases3)
  have "k = 1 \<Longrightarrow> \<exists>g. f = Some g" using nack_scan_face [OF scan] by auto
  then show ?thesis using acts_onOutgoingNack acts_sendNacks
    by (auto simp: processNack_def scan Let_def split: option.splits)
qed

lemma acts_sendData:
  assumes "matchesData (pit_interest s e) d"
  shows "\<exists>s'. sendData d f e s = Inr s' \<and> acts s s'"
  unfolding sendData_def assert_res_def Let_def using assms acts_trans [OF acts_deleteInRecord acts_onOutgoingData] by simp

lemma matchesData_matches: "matchesInterest i j \<Longrightarrow> matchesData j d = matchesData i d"
proof -
  assume "matchesInterest i j"
  then have "i_name j = i_name i" "i_canBePrefix j = i_canBePrefix i" "i_mustBeFresh j = i_mustBeFresh i"
    by (auto simp: matchesInterest_def)
  then show ?thesis by (simp only: matchesData_def Let_def)
qed

lemma matchesData_same_key: "same_key i j \<Longrightarrow> matchesData j d = matchesData i d"
  by (simp add: same_key_def matchesData_matches)

lemma sendDataToAll_ok:
  assumes "fw_inv s" "attached (fw_pit s) e" "matchesData (pit_interest s e) d"
  shows "\<exists>s'. sendDataToAll d e f s = Inr s' \<and> acts s s'"
proof -
  have "\<exists>s'. fold_res (\<lambda>g. sendData d g e) fs s = Inr s' \<and> acts s s'" for fs
    using assms
  proof (induction fs arbitrary: s)
    case (Cons g fs)
    obtain s1 where s1: "sendData d g e s = Inr s1" "acts s s1" using acts_sendData [OF Cons.prems(3)] by blast
    have "fw_inv s1" "attached (fw_pit s1) e" "matchesData (pit_interest s1 e) d"
      using actsD(2) [OF s1(2)] stable_attached [OF actsD(1) [OF s1(2)]]
        matchesData_same_key [OF stable_pit_interest [OF actsD(1) [OF s1(2)]]] Cons.prems by auto
    from Cons.IH [OF this] s1 show ?case using acts_trans by fastforce
  qed simp
  then show ?thesis by (simp add: sendDataToAll_def)
qed

end
