(* ===== verification/Forwarder_Pipelines.thy ===== *)
theory Forwarder_Pipelines
  imports Forwarder_Inv
begin

text \<open>
  The pipelines end normally and keep the invariant of the forwarder, for the packets a face can
  deliver: names with valid components, reflexive components that carry a number, PIT tokens of
  at least four bytes, Data with a freshness period that fits.
\<close>

definition tokens_available :: "fw \<Rightarrow> bool" where
  "tokens_available s \<longleftrightarrow> (\<forall>k. \<exists>j \<ge> k. usable_token (fw_assist s) (fw_random s j))"

definition interest_ok :: "interest \<Rightarrow> bool" where
  "interest_ok i \<longleftrightarrow> query_name (i_name i) \<and> (\<exists>b. isReflexiveInterestFromProducer i = Inr b) \<and>
     (case i_pitToken i of None \<Rightarrow> True | Some t \<Rightarrow> 4 \<le> length t)"

definition data_ok :: "data \<Rightarrow> bool" where
  "data_ok d \<longleftrightarrow> cacheable d \<and> 0 \<le> d_freshnessPeriod d"

text \<open>An Interest just received: no entry and no record refers to it.\<close>

definition fresh_interest :: "iref \<Rightarrow> fw \<Rightarrow> bool" where
  "fresh_interest r s \<longleftrightarrow> r < fw_nextInterest s \<and>
     (\<forall>e. attached (fw_pit s) e \<longrightarrow> pe_interest (entry_of s e) \<noteq> r \<and> (\<forall>rec \<in> set (pe_in (entry_of s e)). ir_interest rec \<noteq> r))"

text \<open>The in-record written, as a new value of the entry.\<close>

definition with_in_record :: "iref \<Rightarrow> face_id \<Rightarrow> fw \<Rightarrow> pit_entry \<Rightarrow> pit_entry" where
  "with_in_record r f s x = x\<lparr>pe_in := upsert (\<lambda>rec. ir_face rec = f) (new_in_record f)
     (inRecord_update (fw_now s) r (interest_of s r)) (pe_in x)\<rparr>"

definition default_hop :: "fw \<Rightarrow> interest \<Rightarrow> interest" where
  "default_hop s i = (if 0 < fw_defaultHopLimit s \<and> i_hopLimit i = None then i\<lparr>i_hopLimit := Some (fw_defaultHopLimit s)\<rparr> else i)"

section \<open>In-records\<close>

lemma set_update_first: "x \<in> set (update_first P g xs) \<Longrightarrow> x \<in> set xs \<or> (\<exists>y. x = g y)"
  by (induction xs) (auto split: if_splits)

lemma set_upsert: "x \<in> set (upsert P new g xs) \<Longrightarrow> x \<in> set xs \<or> (\<exists>y. x = g y)"
  using set_update_first [of x P g xs] by (auto simp: upsert_def split: if_splits)

lemma upsert_nonempty: "upsert P new g xs \<noteq> []"
  by (cases xs) (auto simp: upsert_def)

lemma acts_with_in_record:
  assumes "r < fw_nextInterest s" "matchesInterest (pit_interest s e) (interest_of s r)"
  shows "acts s (modify_entry e (\<lambda>_. with_in_record r f s (entry_of s e)) s)"
proof (rule acts_in_record)
  fix rec assume "rec \<in> set (pe_in (with_in_record r f s (entry_of s e)))"
  then have "rec \<in> set (pe_in (entry_of s e)) \<or> ir_interest rec = r"
    using set_upsert [of rec] by (fastforce simp: with_in_record_def inRecord_update_def)
  then show "rec \<in> set (pe_in (entry_of s e)) \<or> (ir_interest rec < fw_nextInterest s \<and>
      matchesInterest (pit_interest s e) (interest_of s (ir_interest rec)))" using assms by auto
qed (simp_all add: with_in_record_def upsert_in_records_ok)

lemma insert_in_record_ok:
  assumes "r < fw_nextInterest s" "matchesInterest (pit_interest s e) (interest_of s r)"
  shows "\<exists>s' t. insert_in_record r f e s = Inr s' \<and> acts s s' \<and> fw_out s' = fw_out s \<and> fw_faces s' = fw_faces s \<and>
    interest_of s' = (interest_of s)(r := default_hop s (interest_of s r)) \<and>
    entry_of s' = (entry_of s)(e := (with_in_record r f s (entry_of s e))\<lparr>pe_expiryTimer := Some t\<rparr>)"
proof -
  define s1 where "s1 = (if 0 < fw_defaultHopLimit s \<and> i_hopLimit (interest_of s r) = None
     then modify_interest r (\<lambda>i. i\<lparr>i_hopLimit := Some (fw_defaultHopLimit s)\<rparr>) s else s)"
  have a1: "acts s s1" by (simp add: s1_def acts_interest)
  have i1: "interest_of s1 = (interest_of s)(r := default_hop s (interest_of s r))"
    by (auto simp: s1_def default_hop_def fw_defs fun_eq_iff)
  have e1: "entry_of s1 = entry_of s" "fw_out s1 = fw_out s" "fw_now s1 = fw_now s" "fw_nextInterest s1 = fw_nextInterest s"
    "fw_faces s1 = fw_faces s"
    by (auto simp: s1_def fw_defs fun_eq_iff)
  have m: "matchesInterest (pit_interest s1 e) (interest_of s1 r)"
    using assms(2) by (auto simp: pit_interest_def i1 e1 default_hop_def matchesInterest_def)
  define x where "x = with_in_record r f s1 (entry_of s1 e)"
  have x: "x = with_in_record r f s (entry_of s e)"
  proof -
    have "inRecord_update (fw_now s1) r (interest_of s1 r) = inRecord_update (fw_now s) r (interest_of s r)"
      by (rule ext) (simp add: inRecord_update_def i1 e1 default_hop_def nonce_of_def expiry_of_def)
    then show ?thesis by (simp add: x_def with_in_record_def e1)
  qed
  define s2 where "s2 = modify_entry e (\<lambda>_. x) s1"
  have x1: "modify_entry_res e (insertOrUpdateInRecord (fw_interests s1) (fw_now s1) f r) s1 = Inr s2"
    using m by (simp add: modify_entry_res_def insertOrUpdateInRecord_matches x_def s2_def with_in_record_def pit_interest_def interest_of_def)
  have a2: "acts s1 s2" unfolding s2_def x_def using acts_with_in_record [OF _ m] assms(1) e1 by simp
  have e2: "entry_of s2 = (entry_of s)(e := x)" "fw_out s2 = fw_out s" "interest_of s2 = interest_of s1" "fw_now s2 = fw_now s"
    "fw_faces s2 = fw_faces s"
    using e1 by (auto simp: s2_def fw_defs fun_eq_iff)
  obtain rec recs where ne: "pe_in x = rec # recs"
    by (cases "pe_in x") (simp_all add: x_def with_in_record_def upsert_nonempty)
  define t where "t = (ir_expiry (max_element ir_expiry rec recs) - fw_now s2) div 10 ^ 6"
  have res: "insert_in_record r f e s = Inr (setExpiryTimer e t s2)"
    unfolding insert_in_record_def Let_def s1_def [symmetric] x1 bind_res_Inr e2 t_def by (simp add: ne)
  have "acts s (setExpiryTimer e t s2)" by (rule acts_trans [OF acts_trans [OF a1 a2] acts_setExpiryTimer])
  moreover have "fw_out (setExpiryTimer e t s2) = fw_out s" "interest_of (setExpiryTimer e t s2) = interest_of s1"
    "fw_faces (setExpiryTimer e t s2) = fw_faces s"
    "entry_of (setExpiryTimer e t s2) = (entry_of s)(e := x\<lparr>pe_expiryTimer := Some (fw_now s + max t 0 * 10 ^ 6)\<rparr>)"
    using e2 by (auto simp: setExpiryTimer_def fw_defs fun_eq_iff)
  ultimately show ?thesis unfolding res x i1 by blast
qed

section \<open>Reflexive Interests of the producer\<close>

lemma readInterestPitToken_ok: "interest_ok i \<Longrightarrow> \<exists>t. readInterestPitToken i = Inr t"
  by (auto simp: interest_ok_def readInterestPitToken_def readPitToken_def split: option.splits)

lemma interest_ok_same: "same_key i j \<Longrightarrow> interest_ok i \<Longrightarrow> i_pitToken j = i_pitToken i \<Longrightarrow> interest_ok j"
  using fromProducer_name_cong [of i j] same_key_name [of i j] by (auto simp: interest_ok_def)

lemma ready_original:
  assumes "fw_inv s" "attached (fw_pit s) e" "attached (fw_pit s) e0" "r < fw_nextInterest s"
    and "matchesInterest (pit_interest s e) (interest_of s r)" "isReflexiveInterestFromProducer (interest_of s r) = Inr True"
  shows "ready r e0 s"
  using assms unfolding ready_def by blast

lemma onSendingRI_ok:
  assumes "fw_inv s" "attached (fw_pit s) e" "r < fw_nextInterest s" "interest_ok (interest_of s r)"
    and "matchesInterest (pit_interest s e) (interest_of s r)" "isReflexiveInterestFromProducer (interest_of s r) = Inr True"
  shows "\<exists>s'. onSendingRI r f e s = Inr s' \<and> acts s s'"
proof -
  obtain t where t: "readInterestPitToken (interest_of s r) = Inr t" using readInterestPitToken_ok [OF assms(4)] by blast
  have forward: "\<exists>s'. bind_res (insert_in_record r f e (modify_interest r (\<lambda>i. i\<lparr>i_pitToken := Some (setPitToken p)\<rparr>) s))
      (\<lambda>s. bind_res (effective_strategy e s) (\<lambda>st. afterReceiveInterest st r f e0 s)) = Inr s' \<and> acts s s'"
    if e0: "attached (fw_pit s) e0" for p e0
  proof -
    define s1 where "s1 = modify_interest r (\<lambda>i. i\<lparr>i_pitToken := Some (setPitToken p)\<rparr>) s"
    have a1: "acts s s1" unfolding s1_def by (rule acts_interest) simp
    have r1: "ready r e0 s1" by (rule ready_stable [OF ready_original [OF assms(1,2) e0 assms(3,5,6)] a1])
    have m1: "matchesInterest (pit_interest s1 e) (interest_of s1 r)" "r < fw_nextInterest s1"
      using assms(3,5) by (auto simp: s1_def fw_defs matchesInterest_def)
    obtain s2 where s2: "insert_in_record r f e s1 = Inr s2" "acts s1 s2"
      using insert_in_record_ok [OF m1(2,1), of f] by blast
    have "fw_inv s2" "attached (fw_pit s2) e"
      using actsD(2) [OF acts_trans [OF a1 s2(2)]] stable_attached [OF actsD(1) [OF acts_trans [OF a1 s2(2)]]] assms(1,2) by auto
    then obtain st where "effective_strategy e s2 = Inr st" using effective_strategy_ok by blast
    then show ?thesis
      using afterReceiveInterest_ok [OF ready_stable [OF r1 s2(2)], of st f] s2 acts_trans [OF acts_trans [OF a1 s2(2)]]
      by (auto simp: s1_def [symmetric])
  qed
  show ?thesis
    using t acts_send_nack forward findBasedOnName_Some(1) [OF fw_invD(1) [OF assms(1)]]
    unfolding onSendingRI_def t bind_res_Inr by (auto simp: Let_def split: prod.splits option.splits)
qed

section \<open>Content Store miss and hit\<close>

lemma onContentStoreMiss_ok:
  assumes "fw_inv s" "attached (fw_pit s) e" "r < fw_nextInterest s"
    and "matchesInterest (pit_interest s e) (interest_of s r)" "isReflexiveInterestFromProducer (interest_of s r) = Inr False"
  shows "\<exists>s'. onContentStoreMiss r f e s = Inr s' \<and> acts s s'"
proof -
  define s0 where "s0 = count (\<lambda>c. c\<lparr>nCsMisses := nCsMisses c + 1\<rparr>) s"
  have a0: "acts s s0" by (simp add: s0_def)
  have r0: "ready r e s0" by (rule ready_stable [OF _ a0]) (use assms in \<open>auto simp: ready_def\<close>)
  have m0: "r < fw_nextInterest s0" "matchesInterest (pit_interest s0 e) (interest_of s0 r)"
    using assms(3,4) by (simp_all add: s0_def fw_defs)
  obtain s1 where s1: "insert_in_record r f e s0 = Inr s1" "acts s0 s1" using insert_in_record_ok [OF m0, of f] by blast
  have r1: "ready r e s1" by (rule ready_stable [OF r0 s1(2)])
  define s2 where "s2 = (if isReflexiveInterest (interest_of s1 r)
    then modify_interest r (\<lambda>i. i\<lparr>i_pitToken := Some (setPitToken (fst (nameToToken (fw_assist s1) (i_name i))))\<rparr>) s1 else s1)"
  have a2: "acts s1 s2" by (simp add: s2_def acts_interest)
  have r2: "ready r e s2" by (rule ready_stable [OF r1 a2])
  obtain st where st: "effective_strategy e s2 = Inr st" using effective_strategy_ok r2 by (auto simp: ready_def)
  note a01 = acts_trans [OF a0 s1(2)]
  have out: "\<exists>s'. drop_result (onOutgoingInterest r g e s1) = Inr s' \<and> acts s s'" for g
    using onOutgoingInterest_ok [OF r1, of g] acts_trans [OF a01] by (auto simp: drop_result_def)
  have "\<exists>s'. afterReceiveInterest st r f e s2 = Inr s' \<and> acts s s'"
    using afterReceiveInterest_ok [OF r2, of st f] acts_trans [OF acts_trans [OF a01 a2]] by blast
  then show ?thesis
    using out a01 st unfolding onContentStoreMiss_def s0_def [symmetric] s1(1) bind_res_Inr s2_def [symmetric] Let_def
    by (cases "i_nextHopFaceId (interest_of s1 r)") auto
qed

lemma fw_inv_cs:
  assumes "fw_inv s" "cs_inv cs" "\<forall>x \<in> set (cs_table cs). cacheable (ce_data x) \<and> 0 \<le> d_freshnessPeriod (ce_data x)"
  shows "fw_inv (s\<lparr>fw_cs := cs\<rparr>)"
  using assms unfolding fw_inv_def records_inv_def hint_inv_def pit_interest_def interest_of_def entry_of_def by simp

lemma cs_inv_tag:
  assumes "cs_inv cs" "ref_of m' = ref_of m"
  shows "cs_inv (cs\<lparr>cs_table := table_replace m' (cs_table cs)\<rparr>)"
proof -
  have m: "map ref_of (table_replace m' (cs_table cs)) = map ref_of (cs_table cs)" by simp
  have "policy_tracks (cs_policy_state cs) (set (map ref_of (table_replace m' (cs_table cs))))"
    unfolding m using assms(1) by (simp add: cs_inv_def)
  then show ?thesis
    using assms(1) sorted_wrt_refs [OF m] map_eq_imp_length_eq [OF m] by (simp add: cs_inv_def)
qed

lemma onContentStoreHit_ok:
  assumes "fw_inv s" "attached (fw_pit s) e" "matchesInterest (pit_interest s e) (interest_of s r)"
    and "match \<in> set (cs_table (fw_cs s))" "canSatisfy (fw_now s) (interest_of s r) match"
  shows "\<exists>s'. onContentStoreHit r f e match s = Inr s' \<and> fw_inv s'"
proof -
  define d where "d = (ce_data match)\<lparr>d_incomingFaceId := Some FACEID_CONTENT_STORE, d_pitToken := i_pitToken (interest_of s r)\<rparr>"
  define s0 where "s0 = count (\<lambda>c. c\<lparr>nCsHits := nCsHits c + 1\<rparr>) s"
  define cs where "cs = (fw_cs s0)\<lparr>cs_table := table_replace (match\<lparr>ce_data := d\<rparr>) (cs_table (fw_cs s0))\<rparr>"
  have i0: "fw_inv s0" using assms(1) actsD(2) [OF acts_log(1)] by (simp add: s0_def)
  have ref: "ref_of (match\<lparr>ce_data := d\<rparr>) = ref_of match" by (simp add: ref_of_def getFullName_def d_def)
  have dok: "cacheable (ce_data match) \<and> 0 \<le> d_freshnessPeriod (ce_data match)" using fw_invD(9) [OF assms(1,4)] .
  have "cs_inv cs" unfolding cs_def by (rule cs_inv_tag [OF _ ref]) (rule fw_invD(8) [OF i0])
  moreover have "\<forall>x \<in> set (cs_table cs). cacheable (ce_data x) \<and> 0 \<le> d_freshnessPeriod (ce_data x)"
    using fw_invD(9) [OF i0] dok table_replace_set by (fastforce simp: cs_def d_def cacheable_def)
  ultimately have i1: "fw_inv (s0\<lparr>fw_cs := cs\<rparr>)" by (rule fw_inv_cs [OF i0])
  define s2 where "s2 = modify_entry e (\<lambda>x. x\<lparr>pe_isSatisfied := True, pe_dataFreshnessPeriod := d_freshnessPeriod d\<rparr>) (s0\<lparr>fw_cs := cs\<rparr>)"
  have a2: "acts (s0\<lparr>fw_cs := cs\<rparr>) s2"
    unfolding s2_def by (rule acts_entry) (use dok in \<open>auto simp: keeps_identity_def records_ok_def d_def\<close>)
  define s3 where "s3 = setExpiryTimer e 0 s2"
  have a3: "acts (s0\<lparr>fw_cs := cs\<rparr>) s3" unfolding s3_def by (rule acts_trans [OF a2 acts_setExpiryTimer])
  have i3: "fw_inv s3" "attached (fw_pit s3) e"
    using actsD(2) [OF a3 i1] stable_attached [OF actsD(1) [OF a3]] assms(2) by (auto simp: s0_def count_def)
  have "matchesData (pit_interest s3 e) d"
  proof -
    have "pit_interest s3 e = pit_interest s e" by (simp add: s3_def s2_def s0_def setExpiryTimer_def fw_defs)
    moreover have "matchesData (interest_of s r) d"
      using assms(5) by (auto simp: canSatisfy_def matchesData_def getFullName_def d_def Let_def split: if_splits)
    ultimately show ?thesis using matchesData_matches [OF assms(3), of d] by simp
  qed
  from acts_sendData [OF this, of f] obtain s4 where s4: "sendData d f e s3 = Inr s4" "acts s3 s4" by blast
  obtain st where "effective_strategy e s3 = Inr st" using effective_strategy_ok [OF i3] by blast
  then have "onContentStoreHit r f e match s = Inr s4"
    using s4(1) unfolding onContentStoreHit_def Let_def s0_def [symmetric]
    by (simp add: afterContentStoreHit_def s3_def s2_def cs_def d_def s0_def fw_defs)
  then show ?thesis using actsD(2) [OF s4(2) i3(1)] by blast
qed

lemma cs_findImpl_fw:
  assumes "fw_inv s" "query_name (i_name i)"
  shows "\<exists>m cs. cs_findImpl now i (fw_cs s) = Inr (m, cs) \<and> cs_inv cs \<and> cs_table cs = cs_table (fw_cs s) \<and>
    (\<forall>x. m = Some x \<longrightarrow> x \<in> set (cs_table cs) \<and> canSatisfy now i x)"
proof (cases "cs_shouldServe (fw_cs s) \<and> 0 < cs_limit (fw_cs s)")
  case True
  obtain cs where "cs_findImpl now i (fw_cs s) = Inr (List.find (canSatisfy now i) (cs_table (fw_cs s)), cs)"
      "cs_inv cs" "cs_table cs = cs_table (fw_cs s)"
    using cs_findImpl_first [OF fw_invD(8) [OF assms(1)] _ assms(2)] fw_invD(9) [OF assms(1)] True by blast
  then show ?thesis by (auto simp: find_Some_iff)
next
  case False
  then show ?thesis using fw_invD(8) [OF assms(1)] by (auto simp: cs_findImpl_def)
qed

lemma cs_lookup_ok:
  assumes "fw_inv s" "attached (fw_pit s) e" "r < fw_nextInterest s" "query_name (i_name (interest_of s r))"
    and "matchesInterest (pit_interest s e) (interest_of s r)" "isReflexiveInterestFromProducer (interest_of s r) = Inr False"
  shows "\<exists>s'. cs_lookup r f e s = Inr s' \<and> fw_inv s'"
proof -
  obtain m cs where find: "cs_findImpl (fw_now s) (interest_of s r) (fw_cs s) = Inr (m, cs)" "cs_inv cs" "cs_table cs = cs_table (fw_cs s)"
    "\<forall>x. m = Some x \<longrightarrow> x \<in> set (cs_table cs) \<and> canSatisfy (fw_now s) (interest_of s r) x"
    using cs_findImpl_fw [OF assms(1,4)] by blast
  define s1 where "s1 = s\<lparr>fw_cs := cs\<rparr>"
  have i1: "fw_inv s1" unfolding s1_def by (rule fw_inv_cs [OF assms(1) find(2)]) (use fw_invD(9) [OF assms(1)] find(3) in auto)
  have s1: "interest_of s1 = interest_of s" "pit_interest s1 = pit_interest s" "fw_pit s1 = fw_pit s" "fw_now s1 = fw_now s"
    "fw_nextInterest s1 = fw_nextInterest s" "fw_cs s1 = cs" by (auto simp: s1_def fw_defs fun_eq_iff)
  show ?thesis
  proof (cases m)
    case None
    obtain s' where "onContentStoreMiss r f e s1 = Inr s'" "acts s1 s'"
      using onContentStoreMiss_ok [OF i1, of e r f] assms s1 by auto
    then show ?thesis using find None actsD(2) i1 by (auto simp: cs_lookup_def s1_def)
  next
    case (Some x)
    obtain s' where "onContentStoreHit r f e x s1 = Inr s'" "fw_inv s'"
      using onContentStoreHit_ok [OF i1, of e r x f] assms s1 find(4) Some by auto
    then show ?thesis using find Some by (auto simp: cs_lookup_def s1_def)
  qed
qed

section \<open>Token registration and loop detection\<close>

lemma createName_fresh:
  assumes "assist_inv a" "\<not> existName a n" "\<exists>j \<ge> k. usable_token a (rnd j)"
  obtains t k' where "createName rnd a k n p = Inr (recordToken a n t p, k')" "usable_token a t"
    "assist_inv (recordToken a n t p)"
proof -
  obtain t k' where g: "generateToken rnd a k = Some (t, k')" using assms(3) generateToken_Some_iff [of rnd a k] by auto
  have "usable_token a t" using generateToken_first_usable [OF g] by (auto simp: first_usable_def)
  moreover have "m_Name_to_Token a n = None" using assms(2) by (simp add: existName_def del: token_accessors)
  ultimately show thesis
    using that assist_inv_recordToken [OF assms(1)] createName_Inr [of rnd a k n p] g by metis
qed

lemma register_token_ok:
  assumes "fw_inv s" "interest_ok (interest_of s r)" "tokens_available s"
  shows "\<exists>a k. register_token r s = Inr (s\<lparr>fw_assist := a, fw_drawn := k\<rparr>) \<and> assist_inv a \<and>
    (a = fw_assist s \<and> (isReflexiveInterest (interest_of s r) \<longrightarrow> existName a (i_name (interest_of s r))) \<or>
     (\<exists>t prev. isReflexiveInterest (interest_of s r) \<and> \<not> existName (fw_assist s) (i_name (interest_of s r)) \<and>
        readInterestPitToken (interest_of s r) = Inr prev \<and> usable_token (fw_assist s) t \<and>
        a = recordToken (fw_assist s) (i_name (interest_of s r)) t prev))"
proof -
  obtain p where p: "readInterestPitToken (interest_of s r) = Inr p" using readInterestPitToken_ok [OF assms(2)] by blast
  define n where "n = i_name (interest_of s r)"
  note I = fw_invD(6) [OF assms(1)]
  show ?thesis
  proof (cases "isReflexiveInterest (interest_of s r) \<and> \<not> existName (fw_assist s) n")
    case True
    have "\<exists>j \<ge> fw_drawn s. usable_token (fw_assist s) (fw_random s j)" using assms(3) by (simp add: tokens_available_def)
    then obtain t k where "createName (fw_random s) (fw_assist s) (fw_drawn s) n p = Inr (recordToken (fw_assist s) n t p, k)"
        "usable_token (fw_assist s) t" "assist_inv (recordToken (fw_assist s) n t p)"
      using createName_fresh [OF I] True by metis
    with True p show ?thesis
      by (intro exI [of _ "recordToken (fw_assist s) n t p"] exI [of _ k])
        (auto simp: register_token_def n_def simp del: token_accessors)
  next
    case False
    then have "register_token r s = Inr s" using p by (auto simp: register_token_def n_def Let_def simp del: token_accessors)
    then show ?thesis using False I
      by (intro exI [of _ "fw_assist s"] exI [of _ "fw_drawn s"]) (auto simp: n_def simp del: token_accessors)
  qed
qed

lemma fw_inv_assist: "fw_inv s \<Longrightarrow> assist_inv a \<Longrightarrow> fw_inv (s\<lparr>fw_assist := a, fw_drawn := k\<rparr>)"
  unfolding fw_inv_def records_inv_def hint_inv_def pit_interest_def interest_of_def entry_of_def by simp

section \<open>PIT insertion\<close>

lemma pit_insert_fw:
  assumes "fw_inv s" "r < fw_nextInterest s"
    and "i_forwardingHint (interest_of s r) = [] \<or> \<not> isInProducerRegion (fw_regions s) (i_forwardingHint (interest_of s r))"
  shows "\<exists>p e new. findOrInsert (fw_interests s) r True (fw_pit s) = Inr (p, Some e, new) \<and> fw_inv (s\<lparr>fw_pit := p\<rparr>) \<and>
    attached p e \<and> matchesInterest (pit_interest (s\<lparr>fw_pit := p\<rparr>) e) (interest_of s r) \<and>
    (\<forall>e'. attached (fw_pit s) e' \<longrightarrow> attached p e' \<and> pit_entries p e' = pit_entries (fw_pit s) e') \<and>
    (\<forall>e'. attached p e' \<longrightarrow> attached (fw_pit s) e' \<or> e' = e) \<and>
    (new \<longrightarrow> pe_in (pit_entries p e) = [] \<and> pe_out (pit_entries p e) = [] \<and> pe_expiryTimer (pit_entries p e) = None \<and> pe_interest (pit_entries p e) = r) \<and>
    (new \<longleftrightarrow> \<not> (\<exists>e'. attached (fw_pit s) e' \<and> matchesInterest (pit_interest s e') (interest_of s r))) \<and>
    fib_at (pit_nt p) = fib_at (pit_nt (fw_pit s)) \<and> sc_at (pit_nt p) = sc_at (pit_nt (fw_pit s))"
proof -
  note I = fw_invD [OF assms(1)]
  define h where "h = fw_interests s"
  have pi: "pit_interest s e = entry_interest h (fw_pit s) e" "interest_of s r = h r" for e
    by (simp_all add: pit_interest_def entry_interest_def interest_of_def entry_of_def h_def)
  show ?thesis
  proof (cases "\<exists>e. attached (fw_pit s) e \<and> matchesInterest (entry_interest h (fw_pit s) e) (h r)")
    case True
    then obtain e where e: "attached (fw_pit s) e" "matchesInterest (entry_interest h (fw_pit s) e) (h r)" by blast
    obtain nt' where nt: "findOrInsert h r True (fw_pit s) = Inr ((fw_pit s)\<lparr>pit_nt := nt'\<rparr>, Some e, False)"
        "nt_inv nt'" "nt_content nt' = nt_content (pit_nt (fw_pit s))" "nt_tight nt'"
      using findOrInsert_old [OF I(1) [folded h_def] e] by blast
    note at = at_cong [OF nt(3)]
    have "pit_inv h ((fw_pit s)\<lparr>pit_nt := nt'\<rparr>)" by (rule pit_inv_change_nt [OF I(1) [folded h_def] nt(2,4) at(2)])
    then have "fw_inv (s\<lparr>fw_pit := (fw_pit s)\<lparr>pit_nt := nt'\<rparr>\<rparr>)"
      using assms(1) at unfolding fw_inv_def records_inv_def hint_inv_def fib_routed_def
      by (simp add: h_def pit_interest_def interest_of_def entry_of_def)
    with nt e at show ?thesis
      by (intro exI [of _ "(fw_pit s)\<lparr>pit_nt := nt'\<rparr>"] exI [of _ e] exI [of _ False])
        (auto simp: h_def pit_interest_def interest_of_def entry_of_def entry_interest_def)
  next
    case False
    obtain p where p: "findOrInsert h r True (fw_pit s) = Inr (p, Some (pit_next (fw_pit s)), True)" "pit_insert_new h r (fw_pit s) p"
      using findOrInsert_new [OF I(1) [folded h_def] False] by blast
    note N = p(2) [unfolded pit_insert_new_def]
    have inv: "pit_inv h p" by (rule pit_inv_insert_new [OF I(1) [folded h_def] False p(2)])
    define e where "e = pit_next (fw_pit s)"
    have att: "attached p e' \<longleftrightarrow> attached (fw_pit s) e' \<or> e' = e" for e'
      using N by (auto simp: attached_def e_def)
    have new: "pit_entries p e = (new_pit_entry r)\<lparr>pe_nte := Some (pit_nte_of (i_name (h r)))\<rparr>" using N by (simp add: e_def)
    have old: "attached (fw_pit s) e' \<Longrightarrow> pit_entries p e' = pit_entries (fw_pit s) e'" for e'
      using N by (auto simp: attached_def)
    have "records_inv (s\<lparr>fw_pit := p\<rparr>) e' \<and> hint_inv (s\<lparr>fw_pit := p\<rparr>) e'" if "attached p e'" for e'
      using that I(2,3) [of e'] old [of e'] assms(2,3) new att [of e']
      by (auto simp: records_inv_def hint_inv_def pit_interest_def interest_of_def entry_of_def new_pit_entry_def)
    then have "fw_inv (s\<lparr>fw_pit := p\<rparr>)"
      using assms(1) inv N unfolding fw_inv_def fib_routed_def by (auto simp: h_def)
    with p N att old new False show ?thesis
      by (intro exI [of _ p] exI [of _ e] exI [of _ True])
        (auto simp: h_def e_def new_pit_entry_def pit_interest_def interest_of_def entry_of_def entry_interest_def)
  qed
qed

section \<open>The incoming Interest pipeline\<close>

lemma fw_inv_interest_hint:
  assumes "fw_inv s" "\<forall>e. attached (fw_pit s) e \<longrightarrow> pe_interest (entry_of s e) \<noteq> r \<and> (\<forall>rec \<in> set (pe_in (entry_of s e)). ir_interest rec \<noteq> r)"
  shows "fw_inv (modify_interest r f s)"
proof -
  have "pit_inv ((fw_interests s)(r := f (fw_interests s r))) (fw_pit s)"
    by (rule pit_inv_store [OF fw_invD(1) [OF assms(1)]]) (use assms(2) in \<open>auto simp: entry_interest_def entry_of_def\<close>)
  then show ?thesis
    using assms unfolding fw_inv_def records_inv_def hint_inv_def
    by (auto simp: modify_interest_def pit_interest_def interest_of_def entry_of_def)
qed

lemma new_interest_fresh:
  assumes "fw_inv s" "new_interest i s = (r, s')"
  shows "fw_inv s'" "fresh_interest r s'" "interest_of s' r = i"
proof -
  show "fw_inv s'" by (rule actsD(2) [OF acts_new_interest [OF assms(2)] assms(1)])
  show "interest_of s' r = i" using assms(2) by (auto simp: fw_defs)
  show "fresh_interest r s'"
    using assms(2) fw_invD(2) [OF assms(1)] by (fastforce simp: fresh_interest_def fw_defs records_inv_def)
qed

lemma process_interest_ok:
  assumes "fw_inv s" "fresh_interest r s" "interest_ok (interest_of s r)" "tokens_available s"
  shows "\<exists>s'. process_interest r nonce f s = Inr s' \<and> fw_inv s'"
proof -
  define s1 where "s1 = (if i_forwardingHint (interest_of s r) \<noteq> [] \<and> isInProducerRegion (fw_regions s) (i_forwardingHint (interest_of s r))
     then modify_interest r (\<lambda>i. i\<lparr>i_forwardingHint := []\<rparr>) s else s)"
  have i1: "fw_inv s1" using fw_inv_interest_hint [OF assms(1)] assms(1,2) by (auto simp: s1_def fresh_interest_def)
  have r1: "r < fw_nextInterest s1" using assms(2) by (auto simp: s1_def fresh_interest_def fw_defs)
  have h1: "i_forwardingHint (interest_of s1 r) = [] \<or> \<not> isInProducerRegion (fw_regions s1) (i_forwardingHint (interest_of s1 r))"
    by (auto simp: s1_def fw_defs)
  obtain p e new where p: "findOrInsert (fw_interests s1) r True (fw_pit s1) = Inr (p, Some e, new)" "fw_inv (s1\<lparr>fw_pit := p\<rparr>)"
      "attached p e" "matchesInterest (pit_interest (s1\<lparr>fw_pit := p\<rparr>) e) (interest_of s1 r)"
    using pit_insert_fw [OF i1 r1 h1] by blast
  define s2 where "s2 = s1\<lparr>fw_pit := p\<rparr>"
  have s2: "interest_of s2 = interest_of s1" "fw_nextInterest s2 = fw_nextInterest s1" "fw_pit s2 = p" by (auto simp: s2_def fw_defs)
  have ok: "interest_ok (interest_of s2 r)" "tokens_available s2" "r < fw_nextInterest s2"
      "matchesInterest (pit_interest s2 e) (interest_of s2 r)"
  proof -
    have "i_name (interest_of s1 r) = i_name (interest_of s r)" "i_pitToken (interest_of s1 r) = i_pitToken (interest_of s r)"
      by (auto simp: s1_def fw_defs)
    with assms(3) fromProducer_name_cong [of "interest_of s1 r" "interest_of s r"] show "interest_ok (interest_of s2 r)"
      unfolding s2 interest_ok_def by auto
    show "tokens_available s2" using assms(4) by (simp add: tokens_available_def s2_def s1_def modify_interest_def)
    show "r < fw_nextInterest s2" "matchesInterest (pit_interest s2 e) (interest_of s2 r)"
      using r1 p(4) s2 by (simp_all add: s2_def)
  qed
  obtain b where b: "isReflexiveInterestFromProducer (interest_of s2 r) = Inr b" using ok(1) by (auto simp: interest_ok_def)
  have step: "process_interest r nonce f s = (if b then onSendingRI r f e s2
     else bind_res (register_token r s2) (\<lambda>s. if isInterestLoop nonce f e s then Inr (onInterestLoop r f s)
       else if pe_in (entry_of s e) = [] then cs_lookup r f e s else onContentStoreMiss r f e s))"
    unfolding process_interest_def Let_def s1_def [symmetric] p(1) bind_res_Inr by (simp add: s2_def [symmetric] b)
  show ?thesis
  proof (cases b)
    case True
    then show ?thesis using onSendingRI_ok [of s2 e r f] p(2,3) ok b s2 actsD(2) unfolding step by (auto simp: s2_def [symmetric])
  next
    case False
    obtain a k where ak: "register_token r s2 = Inr (s2\<lparr>fw_assist := a, fw_drawn := k\<rparr>)" "assist_inv a"
      using register_token_ok [of s2 r] p(2) ok by (auto simp: s2_def [symmetric])
    define s3 where "s3 = s2\<lparr>fw_assist := a, fw_drawn := k\<rparr>"
    have i3: "fw_inv s3" unfolding s3_def by (rule fw_inv_assist [OF _ ak(2)]) (use p(2) in \<open>simp add: s2_def\<close>)
    have s3: "interest_of s3 = interest_of s2" "pit_interest s3 = pit_interest s2" "fw_nextInterest s3 = fw_nextInterest s2" "fw_pit s3 = p"
      by (auto simp: s3_def s2_def fw_defs fun_eq_iff)
    have q: "query_name (i_name (interest_of s3 r))" using ok(1) by (simp add: interest_ok_def s3)
    have np: "isReflexiveInterestFromProducer (interest_of s3 r) = Inr False" using b False by (simp add: s3)
    show ?thesis
      using False i3 actsD(2) [OF acts_onInterestLoop i3] cs_lookup_ok [OF i3 _ _ q _ np, of e f]
        onContentStoreMiss_ok [OF i3 _ _ _ np, of e f] p(3) ok s3 actsD(2)
      unfolding step ak(1) bind_res_Inr s3_def [symmetric] by auto
  qed
qed

lemma onIncomingInterest_ok:
  assumes "fw_inv s" "interest_ok i" "tokens_available s"
  shows "\<exists>s'. onIncomingInterest i f s = Inr s' \<and> fw_inv s'"
proof -
  define s0 where "s0 = count (\<lambda>c. c\<lparr>nInInterests := nInInterests c + 1\<rparr>) s"
  obtain nonce j k where g: "getNonce (fw_random s0) (fw_drawn s0) (i\<lparr>i_incomingFaceId := Some f\<rparr>) = (nonce, j, k)"
    by (metis prod_cases3)
  define s1 where "s1 = s0\<lparr>fw_drawn := k\<rparr>"
  have i1: "fw_inv s1"
    using assms(1) actsD(2) [OF acts_log(1), of s] unfolding s1_def s0_def
    by (simp add: fw_inv_def records_inv_def hint_inv_def pit_interest_def interest_of_def entry_of_def count_def)
  have j: "i_name j = i_name i" "i_pitToken j = i_pitToken i" using g by (auto simp: getNonce_def split: option.splits)
  define j' where "j' = j\<lparr>i_hopLimit := map_option (\<lambda>h. h - 1) (i_hopLimit j)\<rparr>"
  obtain r s2 where n: "new_interest j' s1 = (r, s2)" by force
  note N = new_interest_fresh [OF i1 n]
  have ok: "interest_ok (interest_of s2 r)" "tokens_available s2"
    using assms(2,3) j fromProducer_name_cong [of j' i] n
    by (auto simp: N(3) interest_ok_def j'_def tokens_available_def new_interest_def s1_def s0_def count_def)
  have d: "\<exists>b. dnl_has (i_name j') nonce (fw_dnl s2) = Inr b"
    using makeEntry_ok [of "i_name j'" nonce] by (auto simp: dnl_has_def)
  have face: "fw_inv (modify_face f g s1)" if "\<And>f. f_scope (g f) = f_scope f \<and> f_linkType (g f) = f_linkType f \<and> f_inTable (g f) = f_inTable f" for g
    by (rule actsD(2) [OF acts_face [OF that] i1])
  show ?thesis
    using i1 face d process_interest_ok [OF N(1,2) ok, of nonce f] actsD(2) [OF acts_onInterestLoop N(1)]
    unfolding onIncomingInterest_def Let_def s0_def [symmetric] g prod.case s1_def [symmetric] j'_def [symmetric] n
    by (auto simp: bind_res_def split: sum.splits)
qed

end
