(* ===== verification/Forwarder_Return.thy ===== *)
theory Forwarder_Return
  imports Forwarder_Pipelines
begin

text \<open>
  The way back: Data, Nacks, and the end of a pending Interest.  Each pipeline ends normally and
  keeps the invariant; for Data that satisfies one PIT entry the packets sent are given exactly.
\<close>

text \<open>What one in-record receives: the Data with the PIT token of its Interest.\<close>

definition data_for :: "data \<Rightarrow> in_record \<Rightarrow> fw \<Rightarrow> data" where
  "data_for d rec s =
     (case i_pitToken (interest_of s (ir_interest rec)) of Some t \<Rightarrow> d\<lparr>d_pitToken := Some t\<rparr> | None \<Rightarrow> d)"

definition data_allowed :: "data \<Rightarrow> face_id \<Rightarrow> fw \<Rightarrow> bool" where
  "data_allowed d f s \<longleftrightarrow> f_inTable (face_of s f) \<and> \<not> (f_scope (face_of s f) = NON_LOCAL \<and> isPrefixOf LOCALHOST (d_name d))"

definition delivered :: "data \<Rightarrow> in_record \<Rightarrow> fw \<Rightarrow> fw_event list" where
  "delivered d rec s = (if data_allowed d (ir_face rec) s then [OutData (ir_face rec) (data_for d rec s)] else [])"

definition pending :: "fw \<Rightarrow> face_id \<Rightarrow> in_record \<Rightarrow> bool" where
  "pending s inFace rec \<longleftrightarrow> fw_now s < ir_expiry rec \<and>
     \<not> (ir_face rec = inFace \<and> f_linkType (face_of s (ir_face rec)) \<noteq> AD_HOC)"

section \<open>Sending Data\<close>

lemma onOutgoingData_out:
  "fw_out (snd (onOutgoingData d f s)) = fw_out s @ (if data_allowed d f s then [OutData f d] else [])"
  by (auto simp: onOutgoingData_def data_allowed_def count_def emit_def)

lemma sendData_out:
  assumes "matchesData (pit_interest s e) d" "getInRecord (entry_of s e) (ir_face rec) = Some rec"
  shows "\<exists>s'. sendData d (ir_face rec) e s = Inr s' \<and> fw_out s' = fw_out s @ delivered d rec s \<and>
    entry_of s' = (entry_of s)(e := deleteInRecord (ir_face rec) (entry_of s e)) \<and>
    interest_of s' = interest_of s \<and> face_of s' = face_of s \<and> acts s s'"
proof -
  define d' where "d' = data_for d rec s"
  define s1 where "s1 = modify_entry e (deleteInRecord (ir_face rec)) s"
  have s1: "fw_out s1 = fw_out s" "interest_of s1 = interest_of s" "face_of s1 = face_of s"
    "entry_of s1 = (entry_of s)(e := deleteInRecord (ir_face rec) (entry_of s e))" by (auto simp: s1_def fw_defs fun_eq_iff)
  have "sendData d (ir_face rec) e s = Inr (snd (onOutgoingData d' (ir_face rec) s1))"
    using assms by (simp add: sendData_def d'_def data_for_def s1_def Let_def)
  moreover have "d_name d' = d_name d" by (simp add: d'_def data_for_def split: option.splits)
  moreover have "acts s (snd (onOutgoingData d' (ir_face rec) s1))"
    unfolding s1_def by (rule acts_trans [OF acts_deleteInRecord acts_onOutgoingData])
  moreover have "entry_of (snd (onOutgoingData d' f s1)) = entry_of s1" "interest_of (snd (onOutgoingData d' f s1)) = interest_of s1"
    "face_of (snd (onOutgoingData d' f s1)) = face_of s1" for f
    by (auto simp: onOutgoingData_def fw_defs fun_eq_iff)
  ultimately show ?thesis
    using onOutgoingData_out [of d' "ir_face rec" s1] s1
    by (simp add: delivered_def data_allowed_def d'_def)
qed

lemma getInRecord_delete_other:
  "f \<noteq> g \<Longrightarrow> getInRecord (deleteInRecord f x) g = getInRecord x g"
proof -
  assume "f \<noteq> g"
  have "find (\<lambda>r. ir_face r = g) (delete_first (\<lambda>r. ir_face r = f) rs) = find (\<lambda>r. ir_face r = g) rs" for rs
    using \<open>f \<noteq> g\<close> by (induction rs) auto
  then show ?thesis by (simp add: getInRecord_def deleteInRecord_def)
qed

lemma sendData_all:
  assumes "matchesData (pit_interest s e) d" "distinct (map ir_face recs)"
    and "\<And>rec. rec \<in> set recs \<Longrightarrow> getInRecord (entry_of s e) (ir_face rec) = Some rec"
  shows "\<exists>s'. fold_res (\<lambda>f. sendData d f e) (map ir_face recs) s = Inr s' \<and> acts s s' \<and>
    fw_out s' = fw_out s @ concat (map (\<lambda>rec. delivered d rec s) recs)"
  using assms
proof (induction recs arbitrary: s)
  case (Cons rec recs)
  obtain s1 where s1: "sendData d (ir_face rec) e s = Inr s1" "fw_out s1 = fw_out s @ delivered d rec s"
      "entry_of s1 = (entry_of s)(e := deleteInRecord (ir_face rec) (entry_of s e))"
      "interest_of s1 = interest_of s" "face_of s1 = face_of s" "acts s s1"
    using sendData_out [OF Cons.prems(1), of rec] Cons.prems(3) [of rec] by auto
  have "pe_interest (deleteInRecord f x) = pe_interest x" for f x by (simp add: deleteInRecord_def)
  then have "pit_interest s1 e = pit_interest s e" using s1(3,4) by (simp add: pit_interest_def)
  moreover have "getInRecord (entry_of s1 e) (ir_face rec') = Some rec'" if "rec' \<in> set recs" for rec'
    using Cons.prems(2,3) that s1(3) getInRecord_delete_other [of "ir_face rec" "ir_face rec'"] by force
  moreover have "delivered d rec' s1 = delivered d rec' s" for rec'
    by (simp add: delivered_def data_allowed_def data_for_def s1)
  ultimately show ?case using Cons.IH [of s1] Cons.prems(1,2) s1 acts_trans [OF s1(6)] by fastforce
qed simp

lemma sendDataToAll_out:
  assumes "fw_inv s" "matchesData (pit_interest s e) d"
  shows "\<exists>s'. sendDataToAll d e f s = Inr s' \<and> acts s s' \<and>
    fw_out s' = fw_out s @ concat (map (\<lambda>rec. delivered d rec s) (filter (pending s f) (pe_in (entry_of s e))))"
proof -
  have d: "distinct (map ir_face (pe_in (entry_of s e)))"
    using pit_invD(7) [OF fw_invD(1) [OF assms(1)]] by (simp add: records_ok_def entry_of_def)
  have "getInRecord (entry_of s e) (ir_face rec) = Some rec" if "rec \<in> set (filter (pending s f) (pe_in (entry_of s e)))" for rec
    unfolding getInRecord_def using find_map_of_distinct [OF d] that by simp
  from sendData_all [OF assms(2) distinct_map_filter [OF d] this] show ?thesis
    by (simp add: sendDataToAll_def pending_def [abs_def])
qed

section \<open>Dead nonces and satisfied entries\<close>

lemma dnl_add_total: "dnl_inv d \<Longrightarrow> \<exists>d'. dnl_add n nonce d = Inr d' \<and> dnl_inv d'"
  using dnl_run_total [of "Add n nonce" d] dnl_inv_add [of d n nonce] by auto

lemma fw_inv_dnl: "fw_inv s \<Longrightarrow> dnl_inv d \<Longrightarrow> fw_inv (s\<lparr>fw_dnl := d\<rparr>)"
  unfolding fw_inv_def records_inv_def hint_inv_def pit_interest_def interest_of_def entry_of_def by simp

lemma insertDeadNonceList_ok:
  assumes "fw_inv s" "attached (fw_pit s) e"
  shows "\<exists>d. insertDeadNonceList e up s = Inr (s\<lparr>fw_dnl := d\<rparr>) \<and> dnl_inv d"
proof -
  have 0: "0 \<le> pe_dataFreshnessPeriod (entry_of s e)" using fw_invD(2) [OF assms] by (simp add: records_inv_def)
  have f: "\<exists>d. fold_res (\<lambda>r. dnl_add (i_name (pit_interest s e)) (or_lastNonce r)) rs (fw_dnl s) = Inr d \<and> dnl_inv d" for rs
    by (rule fold_res_total [where P = dnl_inv]) (use fw_invD(7) [OF assms(1)] dnl_add_total in auto)
  have id: "s = s\<lparr>fw_dnl := fw_dnl s\<rparr>" by simp
  show ?thesis
  proof (cases "pe_isSatisfied (entry_of s e) \<and> \<not> (i_mustBeFresh (pit_interest s e) \<and>
      pe_dataFreshnessPeriod (entry_of s e) * 10 ^ 6 < fw_dnlLifetime s)")
    case True
    then have "insertDeadNonceList e up s = Inr (s\<lparr>fw_dnl := fw_dnl s\<rparr>)" using 0 by (simp add: insertDeadNonceList_def Let_def)
    then show ?thesis using fw_invD(7) [OF assms(1)] by blast
  next
    case False
    define rs where "rs = (case up of None \<Rightarrow> pe_out (entry_of s e)
      | Some f \<Rightarrow> (case getOutRecord (entry_of s e) f of Some r \<Rightarrow> [r] | None \<Rightarrow> []))"
    obtain d where "fold_res (\<lambda>r. dnl_add (i_name (pit_interest s e)) (or_lastNonce r)) rs (fw_dnl s) = Inr d" "dnl_inv d"
      using f by blast
    moreover have "insertDeadNonceList e up s =
        bind_res (fold_res (\<lambda>r. dnl_add (i_name (pit_interest s e)) (or_lastNonce r)) rs (fw_dnl s)) (\<lambda>d. Inr (s\<lparr>fw_dnl := d\<rparr>))"
      unfolding insertDeadNonceList_def Let_def if_not_P [OF False] rs_def using 0 by (simp add: not_less)
    ultimately have "insertDeadNonceList e up s = Inr (s\<lparr>fw_dnl := d\<rparr>)" "dnl_inv d" by simp_all
    then show ?thesis by blast
  qed
qed

lemma onInterestFinalize_ok:
  assumes "fw_inv s" "attached (fw_pit s) e"
  shows "\<exists>s'. onInterestFinalize e s = Inr s' \<and> fw_inv s' \<and> fw_out s' = fw_out s \<and> fw_assist s' = fw_assist s \<and>
    (\<forall>e'. attached (fw_pit s') e' \<longleftrightarrow> attached (fw_pit s) e' \<and> e' \<noteq> e) \<and>
    (\<forall>e'. e' \<noteq> e \<longrightarrow> entry_of s' e' = entry_of s e') \<and> interest_of s' = interest_of s"
proof -
  obtain d where d: "insertDeadNonceList e None s = Inr (s\<lparr>fw_dnl := d\<rparr>)" "dnl_inv d"
    using insertDeadNonceList_ok [OF assms] by blast
  define s1 where "s1 = s\<lparr>fw_dnl := d\<rparr>"
  have i1: "fw_inv s1" unfolding s1_def by (rule fw_inv_dnl [OF assms(1) d(2)])
  define s2 where "s2 = (if pe_isSatisfied (entry_of s1 e) then count (\<lambda>c. c\<lparr>nSatisfiedInterests := nSatisfiedInterests c + 1\<rparr>) s1
     else count (\<lambda>c. c\<lparr>nUnsatisfiedInterests := nUnsatisfiedInterests c + 1\<rparr>) s1)"
  have a2: "acts s1 s2" by (simp add: s2_def)
  define s3 where "s3 = modify_entry e (\<lambda>x. x\<lparr>pe_expiryTimer := None\<rparr>) s2"
  have a3: "acts s1 s3" unfolding s3_def
    by (rule acts_trans [OF a2 acts_entry]) (auto simp: keeps_identity_def records_ok_def)
  have i3: "fw_inv s3" by (rule actsD(2) [OF a3 i1])
  have att3: "attached (fw_pit s3) = attached (fw_pit s)" using stable_attached [OF actsD(1) [OF a3]] by (simp add: s1_def)
  have e3: "e' \<noteq> e \<Longrightarrow> entry_of s3 e' = entry_of s e'" "interest_of s3 = interest_of s" "fw_out s3 = fw_out s" "fw_assist s3 = fw_assist s" for e'
    by (auto simp: s3_def s2_def s1_def fw_defs)
  have "attached (fw_pit s3) e" using assms(2) att3 by simp
  from pit_erase_inv [OF fw_invD(1) [OF i3] this] obtain p where p: "pit_erase e True (fw_pit s3) = Inr p"
    "pit_inv (fw_interests s3) p" "\<And>e'. attached p e' \<longleftrightarrow> attached (fw_pit s3) e' \<and> e' \<noteq> e"
    "pit_entries p = (pit_entries (fw_pit s3))(e := (pit_entries (fw_pit s3) e)\<lparr>pe_nte := None\<rparr>)"
    "fib_at (pit_nt p) = fib_at (pit_nt (fw_pit s3))" "sc_at (pit_nt p) = sc_at (pit_nt (fw_pit s3))" by metis
  have "fw_inv (s3\<lparr>fw_pit := p\<rparr>)"
    using i3 p unfolding fw_inv_def records_inv_def hint_inv_def fib_routed_def
    by (auto simp: pit_interest_def interest_of_def entry_of_def)
  moreover have "onInterestFinalize e s = Inr (s3\<lparr>fw_pit := p\<rparr>)"
    unfolding onInterestFinalize_def d bind_res_Inr s1_def [symmetric] Let_def s2_def [symmetric] s3_def [symmetric] p(1) by simp
  ultimately show ?thesis using p(3,4) att3 e3
    by (intro exI [of _ "s3\<lparr>fw_pit := p\<rparr>"]) (auto simp: interest_of_def [abs_def] entry_of_def)
qed

lemma distinct_singleton_set: "distinct xs \<Longrightarrow> set xs = {x} \<Longrightarrow> xs = [x]"
  by (cases xs; cases "tl xs") auto

section \<open>Incoming Data\<close>

text \<open>An action that may also add to the dead nonce list.\<close>

definition runs :: "fw \<Rightarrow> fw \<Rightarrow> bool" where
  "runs s s' \<longleftrightarrow> stable s (s'\<lparr>fw_dnl := fw_dnl s\<rparr>) \<and> (fw_inv s \<longrightarrow> fw_inv s')"

lemma stable_dnl:
  fixes s :: fw
  shows "stable (s\<lparr>fw_dnl := d\<rparr>) (s'\<lparr>fw_dnl := d\<rparr>) \<longleftrightarrow> stable (s\<lparr>fw_dnl := d'\<rparr>) (s'\<lparr>fw_dnl := d'\<rparr>)"
  by (simp add: stable_def entry_of_def interest_of_def face_of_def)

lemma runs_trans: "runs s t \<Longrightarrow> runs t u \<Longrightarrow> runs s u"
  unfolding runs_def using stable_trans [of s "t\<lparr>fw_dnl := fw_dnl s\<rparr>" "u\<lparr>fw_dnl := fw_dnl s\<rparr>"]
    stable_dnl [where s = t and d = "fw_dnl s" and s' = u and d' = "fw_dnl t"] by simp

lemma acts_runs: "acts s s' \<Longrightarrow> runs s s'"
  by (auto simp: runs_def acts_def stable_def entry_of_def interest_of_def face_of_def)

lemma runs_dnl: "dnl_inv d \<Longrightarrow> runs s (s\<lparr>fw_dnl := d\<rparr>)"
  unfolding runs_def using fw_inv_dnl by simp

lemma runs_attached: "runs s s' \<Longrightarrow> attached (fw_pit s') = attached (fw_pit s)"
  using stable_attached [of s "s'\<lparr>fw_dnl := fw_dnl s\<rparr>"] by (simp add: runs_def)

lemma mark_satisfied_ok:
  assumes "fw_inv s" "attached (fw_pit s) e" "0 \<le> d_freshnessPeriod d"
  shows "\<exists>s'. mark_satisfied d f e s = Inr s' \<and> runs s s' \<and> fw_out s' = fw_out s \<and> pe_in (entry_of s' e) = pe_in (entry_of s e)"
proof -
  define s1 where "s1 = modify_entry e (\<lambda>x. x\<lparr>pe_isSatisfied := True, pe_dataFreshnessPeriod := d_freshnessPeriod d\<rparr>) s"
  have a: "acts s s1" unfolding s1_def
    by (rule acts_entry) (use assms(3) in \<open>auto simp: keeps_identity_def records_ok_def\<close>)
  have "attached (fw_pit s1) e" using stable_attached [OF actsD(1) [OF a]] assms(2) by simp
  from insertDeadNonceList_ok [OF actsD(2) [OF a assms(1)] this] obtain dn
    where d: "insertDeadNonceList e (Some f) s1 = Inr (s1\<lparr>fw_dnl := dn\<rparr>)" "dnl_inv dn" by blast
  have "fw_out s1 = fw_out s" "pe_in (entry_of s1 e) = pe_in (entry_of s e)" by (simp_all add: s1_def fw_defs)
  with d runs_trans [OF acts_runs [OF a] runs_dnl [OF d(2)]] show ?thesis
    by (simp add: mark_satisfied_def s1_def entry_of_def)
qed

lemma acts_deleteOutRecord: "acts s (modify_entry e (deleteOutRecord f) s)"
  by (rule acts_entry) (auto simp: keeps_identity_record_ops deleteOutRecord_def)

lemma satisfy_one_ok:
  assumes "fw_inv s" "attached (fw_pit s) e" "matchesData (pit_interest s e) d" "0 \<le> d_freshnessPeriod d"
  shows "\<exists>s'. satisfy_one d f e s = Inr s' \<and> runs s s' \<and>
    fw_out s' = fw_out s @ concat (map (\<lambda>rec. delivered d rec s) (filter (pending s f) (pe_in (entry_of s e))))"
proof -
  define s1 where "s1 = setExpiryTimer e 0 s"
  have a1: "acts s s1" unfolding s1_def by (rule acts_setExpiryTimer)
  have s1: "fw_inv s1" "attached (fw_pit s1) e" "pe_in (entry_of s1 e) = pe_in (entry_of s e)" "fw_out s1 = fw_out s"
    "fw_now s1 = fw_now s" "face_of s1 = face_of s" "interest_of s1 = interest_of s" "pe_interest (entry_of s1 e) = pe_interest (entry_of s e)"
    using actsD(2) [OF a1 assms(1)] stable_attached [OF actsD(1) [OF a1]] assms(2)
    by (simp_all add: s1_def setExpiryTimer_def fw_defs fun_eq_iff)
  obtain st where st: "effective_strategy e s1 = Inr st" using effective_strategy_ok [OF s1(1,2)] by blast
  have "matchesData (pit_interest s1 e) d" using assms(3) s1(7,8) by (simp add: pit_interest_def)
  from sendDataToAll_out [OF s1(1) this, of f] obtain s2 where s2: "sendDataToAll d e f s1 = Inr s2" "acts s1 s2"
    "fw_out s2 = fw_out s1 @ concat (map (\<lambda>rec. delivered d rec s1) (filter (pending s1 f) (pe_in (entry_of s1 e))))" by blast
  have "delivered d rec s1 = delivered d rec s" "pending s1 f rec = pending s f rec" for rec
    by (simp_all add: delivered_def data_allowed_def data_for_def pending_def s1)
  then have "delivered d rec s1 = delivered d rec s" "pending s1 f = pending s f" for rec by auto
  then have out: "fw_out s2 = fw_out s @ concat (map (\<lambda>rec. delivered d rec s) (filter (pending s f) (pe_in (entry_of s e))))"
    using s2(3) s1 by simp
  have "attached (fw_pit s2) e" using stable_attached [OF actsD(1) [OF s2(2)]] s1(2) by simp
  from mark_satisfied_ok [OF actsD(2) [OF s2(2) s1(1)] this assms(4)]
  obtain s3 where s3: "mark_satisfied d f e s2 = Inr s3" "runs s2 s3" "fw_out s3 = fw_out s2" by blast
  have "runs s (modify_entry e (deleteOutRecord f) s3)"
    by (rule runs_trans [OF acts_runs [OF a1] runs_trans [OF acts_runs [OF s2(2)] runs_trans [OF s3(2) acts_runs [OF acts_deleteOutRecord]]]])
  then show ?thesis using st s2(1) s3 out
    by (simp add: satisfy_one_def s1_def [symmetric] Let_def afterReceiveData_def) (simp add: modify_entry_def)
qed

lemma satisfy_step_ok:
  assumes "fw_inv s" "attached (fw_pit s) e" "0 \<le> d_freshnessPeriod d"
  shows "\<exists>ps s'. satisfy_step d f e (pending0, s) = Inr (ps, s') \<and> runs s s' \<and> fw_out s' = fw_out s"
proof -
  define s1 where "s1 = setExpiryTimer e 0 s"
  have a1: "acts s s1" unfolding s1_def by (rule acts_setExpiryTimer)
  have s1: "fw_inv s1" "attached (fw_pit s1) e" "fw_out s1 = fw_out s"
    using actsD(2) [OF a1 assms(1)] stable_attached [OF actsD(1) [OF a1]] assms(2)
    by (simp_all add: s1_def setExpiryTimer_def fw_defs)
  obtain st where st: "effective_strategy e s1 = Inr st" using effective_strategy_ok [OF s1(1,2)] by blast
  obtain s3 where s3: "mark_satisfied d f e s1 = Inr s3" "runs s1 s3" "fw_out s3 = fw_out s1"
    using mark_satisfied_ok [OF s1(1,2) assms(3)] by blast
  have "acts s3 (modify_entry e (\<lambda>x. deleteOutRecord f (clearInRecords x)) s3)"
    by (rule acts_entry) (auto simp: keeps_identity_def records_ok_def deleteOutRecord_def clearInRecords_def dest: distinct_delete_first)
  with runs_trans [OF runs_trans [OF acts_runs [OF a1] s3(2)] acts_runs] st s3 s1 show ?thesis
    by (simp add: satisfy_step_def s1_def [symmetric] Let_def) (simp add: modify_entry_def)
qed

lemma satisfy_all_ok:
  assumes "fw_inv s" "\<And>e. e \<in> set es \<Longrightarrow> attached (fw_pit s) e" "0 \<le> d_freshnessPeriod d"
  shows "\<exists>ps s'. fold_res (satisfy_step d f) es (ps0, s) = Inr (ps, s') \<and> runs s s'"
  using assms(1,2)
proof (induction es arbitrary: s ps0)
  case (Cons e es)
  obtain ps s1 where s1: "satisfy_step d f e (ps0, s) = Inr (ps, s1)" "runs s s1"
    using satisfy_step_ok [OF Cons.prems(1) _ assms(3), of e f ps0] Cons.prems(2) [of e] by auto
  have "fw_inv s1" using s1(2) Cons.prems(1) by (simp add: runs_def)
  moreover have "attached (fw_pit s1) e'" if "e' \<in> set es" for e' using runs_attached [OF s1(2)] Cons.prems(2) that by simp
  ultimately obtain ps' s2 where "fold_res (satisfy_step d f) es (ps, s1) = Inr (ps', s2)" "runs s1 s2"
    using Cons.IH [of s1 ps] by blast
  then show ?case using s1 runs_trans by auto
qed (auto simp: acts_runs)

lemma acts_send_downstream: "acts s (fold (send_downstream d f) fs s)"
  by (rule acts_fold) (auto simp: send_downstream_def acts_onOutgoingData)

lemma cs_insert_fw:
  assumes "fw_inv s" "data_ok d"
  shows "\<exists>cs. cs_insert now d u (fw_cs s) = Inr cs \<and> fw_inv (s\<lparr>fw_cs := cs\<rparr>)"
proof -
  obtain cs where cs: "cs_insert now d u (fw_cs s) = Inr cs" "cs_inv cs" using cs_insert_inv [OF fw_invD(8) [OF assms(1)]] by metis
  have "cacheable (ce_data x) \<and> 0 \<le> d_freshnessPeriod (ce_data x)" if "x \<in> set (cs_table cs)" for x
    using cs_insert_data [OF fw_invD(8) [OF assms(1)] cs(1)] that fw_invD(9) [OF assms(1)] assms(2)
    by (fastforce simp: data_ok_def)
  with cs show ?thesis by (auto intro!: fw_inv_cs [OF assms(1)])
qed

text \<open>Counting the packet and caching it: the state in which the PIT entries are satisfied.\<close>

lemma onIncomingData_ok:
  assumes "fw_inv s" "data_ok d"
  shows "\<exists>s'. onIncomingData d f s = Inr s' \<and> fw_inv s'"
proof -
  define d1 where "d1 = d\<lparr>d_incomingFaceId := Some f\<rparr>"
  define s1 where "s1 = count (\<lambda>c. c\<lparr>nInData := nInData c + 1\<rparr>) s"
  have d1: "data_ok d1" "0 \<le> d_freshnessPeriod d1" using assms(2) by (simp_all add: data_ok_def d1_def cacheable_def)
  have i1: "fw_inv s1" unfolding s1_def by (rule actsD(2) [OF acts_log(1) assms(1)])
  have un: "\<exists>s'. onDataUnsolicited d1 f s1 = Inr s' \<and> fw_inv s'"
  proof -
    define s0 where "s0 = count (\<lambda>c. c\<lparr>nUnsolicitedData := nUnsolicitedData c + 1\<rparr>) s1"
    have i0: "fw_inv s0" unfolding s0_def by (rule actsD(2) [OF acts_log(1) i1])
    obtain cs0 where "cs_insert (fw_now s0) d1 True (fw_cs s0) = Inr cs0" "fw_inv (s0\<lparr>fw_cs := cs0\<rparr>)"
      using cs_insert_fw [OF i0 d1(1)] by blast
    with i0 show ?thesis unfolding onDataUnsolicited_def Let_def s0_def [symmetric] by simp
  qed
  obtain cs where cs: "cs_insert (fw_now s1) d1 False (fw_cs s1) = Inr cs" "fw_inv (s1\<lparr>fw_cs := cs\<rparr>)"
    using cs_insert_fw [OF i1 d1(1)] by blast
  define s2 where "s2 = s1\<lparr>fw_cs := cs\<rparr>"
  have i2: "fw_inv s2" using cs(2) by (simp add: s2_def)
  define es where "es = findAllDataMatches (fw_interests s1) d1 (fw_pit s1)"
  have es: "attached (fw_pit s2) e \<and> matchesData (pit_interest s2 e) d1" if "e \<in> set es" for e
    using that findAllDataMatches_set [OF fw_invD(1) [OF i1], of d1]
    by (auto simp: es_def s2_def entry_interest_def fw_defs)
  have one: "\<exists>s'. satisfy_one d1 f e s2 = Inr s' \<and> fw_inv s'" if "es = [e]" for e
    using satisfy_one_ok [OF i2, of e d1 f] es [of e] that d1(2) i2 by (auto simp: runs_def)
  obtain ps s3 where "fold_res (satisfy_step d1 f) es ([], s2) = Inr (ps, s3)" "runs s2 s3"
    using satisfy_all_ok [OF i2 _ d1(2)] es by metis
  with i2 have many: "\<exists>s'. bind_res (fold_res (satisfy_step d1 f) es ([], s2)) (\<lambda>(ps, s). Inr (fold (send_downstream d1 f) ps s)) = Inr s' \<and> fw_inv s'"
    using actsD(2) [OF acts_send_downstream] by (auto simp: runs_def)
  show ?thesis
    unfolding onIncomingData_def Let_def d1_def [symmetric] s1_def [symmetric] es_def [symmetric] cs(1) bind_res_Inr s2_def [symmetric]
    using un one many i1 by (cases es rule: remdups_adj.cases) auto
qed

lemma delivered_cong:
  "interest_of s' = interest_of s \<Longrightarrow> face_of s' = face_of s \<Longrightarrow> delivered d rec s' = delivered d rec s"
  "fw_now s' = fw_now s \<Longrightarrow> face_of s' = face_of s \<Longrightarrow> pending s' f = pending s f"
  by (auto simp: delivered_def data_allowed_def data_for_def pending_def fun_eq_iff)

text \<open>Data that satisfies one PIT entry: who gets it.\<close>

lemma onIncomingData_single:
  assumes "fw_inv s" "data_ok d" "\<not> (f_scope (face_of s f) = NON_LOCAL \<and> isPrefixOf LOCALHOST (d_name d))"
    and "{e. attached (fw_pit s) e \<and> matchesData (pit_interest s e) d} = {e0}"
  defines "d' \<equiv> d\<lparr>d_incomingFaceId := Some f\<rparr>"
  shows "\<exists>s'. onIncomingData d f s = Inr s' \<and> fw_inv s' \<and>
    fw_out s' = fw_out s @ concat (map (\<lambda>rec. delivered d' rec s) (filter (pending s f) (pe_in (entry_of s e0))))"
proof -
  define s1 where "s1 = count (\<lambda>c. c\<lparr>nInData := nInData c + 1\<rparr>) s"
  have d1: "data_ok d'" "0 \<le> d_freshnessPeriod d'" "d_name d' = d_name d" using assms(2) by (simp_all add: data_ok_def d'_def cacheable_def)
  have i1: "fw_inv s1" unfolding s1_def by (rule actsD(2) [OF acts_log(1) assms(1)])
  obtain cs where cs: "cs_insert (fw_now s1) d' False (fw_cs s1) = Inr cs" "fw_inv (s1\<lparr>fw_cs := cs\<rparr>)" using cs_insert_fw [OF i1 d1(1)] by blast
  define s2 where "s2 = s1\<lparr>fw_cs := cs\<rparr>"
  have s2: "interest_of s2 = interest_of s" "face_of s2 = face_of s" "fw_now s2 = fw_now s" "entry_of s2 = entry_of s" "fw_out s2 = fw_out s"
      "fw_pit s2 = fw_pit s" "pit_interest s2 = pit_interest s"
    by (simp_all add: s2_def s1_def fw_defs fun_eq_iff)
  have "getFullName d' = getFullName d" "d_freshnessPeriod d' = d_freshnessPeriod d" by (simp_all add: d'_def getFullName_def)
  then have m: "matchesData i d' = matchesData i d" for i unfolding matchesData_def by (simp only: d1(3))
  have "set (findAllDataMatches (fw_interests s1) d' (fw_pit s1)) = {e0}"
    unfolding findAllDataMatches_set [OF fw_invD(1) [OF i1]] m using assms(4)
    by (simp add: s1_def count_def pit_interest_def entry_interest_def interest_of_def entry_of_def)
  with findAllDataMatches_distinct [OF fw_invD(1) [OF i1], of d'] have one: "findAllDataMatches (fw_interests s1) d' (fw_pit s1) = [e0]"
    by (metis distinct_singleton_set)
  have e0: "attached (fw_pit s2) e0" "matchesData (pit_interest s2 e0) d'" using assms(4) by (auto simp: s2 m)
  obtain s' where s': "satisfy_one d' f e0 s2 = Inr s'" "runs s2 s'"
      "fw_out s' = fw_out s2 @ concat (map (\<lambda>rec. delivered d' rec s2) (filter (pending s2 f) (pe_in (entry_of s2 e0))))"
    using satisfy_one_ok [OF _ e0 d1(2), of f] cs(2) by (auto simp: s2_def)
  have allowed: "\<not> (f_scope (face_of s1 f) = NON_LOCAL \<and> isPrefixOf LOCALHOST (d_name d'))"
    using assms(3) d1(3) by (simp add: s1_def fw_defs)
  have "onIncomingData d f s = Inr s'"
    unfolding onIncomingData_def Let_def d'_def [symmetric] s1_def [symmetric] one if_not_P [OF allowed] cs(1) bind_res_Inr s2_def [symmetric]
    using s'(1) by simp
  then show ?thesis
    using s'(2,3) cs(2) s2 delivered_cong(1) [OF s2(1,2)] delivered_cong(2) [OF s2(3,2)] by (simp add: runs_def s2_def)
qed

section \<open>Incoming Nacks\<close>

lemma fw_inv_drawn: "fw_inv (s\<lparr>fw_drawn := k\<rparr>) = fw_inv s"
  by (simp add: fw_inv_def records_inv_def hint_inv_def pit_interest_def interest_of_def entry_of_def)

lemma distinct_update_first [simp]:
  "(\<And>x. k (g x) = k x) \<Longrightarrow> map k (update_first P g xs) = map k xs"
  by (induction xs) auto

text \<open>The part of the pipeline after the out-record with the Nack's nonce has been found.\<close>

lemma nack_received_ok:
  fixes f :: face_id and i :: interest and reason :: nack_reason
  assumes "fw_inv s" "attached (fw_pit s) e"
  defines "s1 \<equiv> modify_entry e (\<lambda>x. x\<lparr>pe_out := update_first (\<lambda>rec. or_face rec = f)
      (\<lambda>rec. fst (setIncomingNack i reason rec)) (pe_out x)\<rparr>) s"
  defines "s2 \<equiv> (if \<not> hasPendingOutRecords (fw_now s1) (entry_of s1 e) then setExpiryTimer e 0 s1 else s1)"
  shows "\<exists>s'. bind_res (effective_strategy e s2) (\<lambda>st. afterReceiveNack st e s2) = Inr s' \<and> acts s s'"
proof -
  have "or_face (fst (setIncomingNack i reason rec)) = or_face rec" for rec by (simp add: setIncomingNack_def)
  then have a1: "acts s s1" unfolding s1_def
    by (intro acts_entry) (auto simp: keeps_identity_def records_ok_def)
  have a2: "acts s s2" unfolding s2_def using a1 acts_trans [OF a1 acts_setExpiryTimer] by simp
  have "attached (fw_pit s2) e" using stable_attached [OF actsD(1) [OF a2]] assms(2) by simp
  from effective_strategy_ok [OF actsD(2) [OF a2 assms(1)] this] obtain st where st: "effective_strategy e s2 = Inr st" by blast
  obtain s3 where "processNack e s2 = Inr s3" "acts s2 s3" using processNack_ok by blast
  with st a2 acts_trans [OF a2] show ?thesis by (cases "st_type st") (auto simp: afterReceiveNack_def)
qed

lemma onIncomingNack_ok:
  assumes "fw_inv s"
  shows "\<exists>s'. onIncomingNack nack f s = Inr s' \<and> fw_inv s' \<and> attached (fw_pit s') = attached (fw_pit s)"
proof -
  define s1 where "s1 = count (\<lambda>c. c\<lparr>nInNacks := nInNacks c + 1\<rparr>) s"
  obtain r s2 where s2: "new_interest (n_interest nack) s1 = (r, s2)" by force
  have a1: "acts s s1" and a2: "acts s s2"
    unfolding s1_def using acts_trans [OF acts_log(1) acts_new_interest [OF s2 [unfolded s1_def]]] by auto
  have i1: "fw_inv s1" "attached (fw_pit s1) = attached (fw_pit s)" and i2: "fw_inv s2" "attached (fw_pit s2) = attached (fw_pit s)"
    using actsD(2) [OF a1 assms] actsD(2) [OF a2 assms] stable_attached [OF actsD(1) [OF a1]] stable_attached [OF actsD(1) [OF a2]] by auto
  obtain found b where found: "findOrInsert (fw_interests s2) r False (fw_pit s2) = Inr (fw_pit s2, found, b)"
    "\<And>e. found = Some e \<Longrightarrow> attached (fw_pit s2) e"
    using findOrInsert_find [OF fw_invD(1) [OF i2(1)], of r] pit_invD(3) [OF fw_invD(1) [OF i2(1)]]
    by (metis (no_types, lifting) find_Some_iff nth_mem)
  obtain nonce i k where n: "getNonce (fw_random s2) (fw_drawn s2) (n_interest nack) = (nonce, i, k)" by (metis prod_cases3)
  define s3 where "s3 = s2\<lparr>fw_drawn := k\<rparr>"
  have i3: "fw_inv s3" "attached (fw_pit s3) = attached (fw_pit s)" "entry_of s3 = entry_of s2"
    using i2 by (auto simp: s3_def fw_inv_drawn entry_of_def)
  have fin: "fw_inv s' \<and> attached (fw_pit s') = attached (fw_pit s)" if "acts s3 s'" for s'
    using actsD(2) [OF that i3(1)] stable_attached [OF actsD(1) [OF that]] i3(2) by simp
  show ?thesis
    unfolding onIncomingNack_def Let_def s1_def [symmetric] s2 prod.case found(1) bind_res_Inr n s3_def [symmetric]
    using i1 i2 i3 found(2) nack_received_ok [OF i3(1), of _ f i "n_reason nack"] fin
    by (cases found; cases "getOutRecord (entry_of s2 (the found)) f"; force)
qed

end
