(* ===== verification/Forwarder_Steps.thy ===== *)
theory Forwarder_Steps
  imports Forwarder_Return
begin

text \<open>
  The forwarder as a transition system: packets arrive, PIT entries time out, the clock advances,
  the two periodic tasks of the dead nonce list run, faces come up.  Every state reached from the
  constructor's satisfies the invariant, and in such a state every admissible input is processed
  to the end: no exception, no failed assertion, no access outside an object.
\<close>

section \<open>The initial state\<close>

definition default_strategy :: strategy where
  "default_strategy =
     \<lparr>st_instanceName = map (\<lambda>s. Component GenericNameComponent (ascii s)) [''localhost'', ''nfd'', ''strategy'', ''best-route'']
                        @ [Component VersionNameComponent [5]],
      st_type = BestRouteStrategy, st_retx = default_retx\<rparr>"

definition no_interest :: interest where
  "no_interest = \<lparr>i_name = [], i_canBePrefix = False, i_mustBeFresh = False, i_forwardingHint = [], i_nonce = None,
     i_lifetime = DEFAULT_INTEREST_LIFETIME, i_hopLimit = None, i_incomingFaceId = None, i_nextHopFaceId = None, i_pitToken = None\<rparr>"

definition no_face :: face where
  "no_face = \<lparr>f_scope = NON_LOCAL, f_linkType = POINT_TO_POINT, f_inTable = False, f_nInHopLimitZero = 0, f_nOutHopLimitZero = 0\<rparr>"

definition new_forwarder :: "time \<Rightarrow> random_source \<Rightarrow> nat \<Rightarrow> int \<Rightarrow> fw res" where
  "new_forwarder now rnd nMaxPackets dnlLifetime =
     bind_res (setDefaultStrategy default_strategy \<lparr>sc_pit = empty_pit, sc_nItems = 0\<rparr>) (\<lambda>sc.
     Inr \<lparr>fw_now = now, fw_faces = (\<lambda>_. no_face), fw_interests = (\<lambda>_. no_interest), fw_nextInterest = 0,
          fw_pit = sc_pit sc, fw_fibItems = 0, fw_random = rnd, fw_drawn = 0, fw_assist = new_pit_assist,
          fw_cs = new_cs nMaxPackets, fw_dnl = new_dnl, fw_dnlLifetime = dnlLifetime, fw_regions = [],
          fw_defaultHopLimit = 0, fw_unsolicited = DropAll, fw_counters = INITIAL_COUNTERS, fw_out = []\<rparr>)"

section \<open>Inputs and steps\<close>

datatype fw_input =
    RecvInterest interest face_id
  | RecvData data face_id
  | RecvNack nack face_id
  | Expire pit_ref
  | Advance int
  | MarkDeadNonces
  | AdjustDeadNonces
  | AddFace face_id face

fun admissible :: "fw \<Rightarrow> fw_input \<Rightarrow> bool" where
  "admissible s (RecvInterest i f) = (interest_ok i \<and> tokens_available s)"
| "admissible s (RecvData d f) = data_ok d"
| "admissible s (RecvNack n f) = True"
| "admissible s (Expire e) = (attached (fw_pit s) e \<and> (\<exists>t \<le> fw_now s. pe_expiryTimer (entry_of s e) = Some t))"
| "admissible s (Advance d) = (0 \<le> d)"
| "admissible s MarkDeadNonces = True"
| "admissible s AdjustDeadNonces = True"
| "admissible s (AddFace f x) = (\<not> f_inTable (face_of s f) \<and> f_inTable x)"

fun process :: "fw_input \<Rightarrow> fw \<Rightarrow> fw res" where
  "process (RecvInterest i f) s = onIncomingInterest i f s"
| "process (RecvData d f) s = onIncomingData d f s"
| "process (RecvNack n f) s = onIncomingNack n f s"
| "process (Expire e) s = onInterestFinalize e s"
| "process (Advance d) s = Inr (s\<lparr>fw_now := fw_now s + d\<rparr>)"
| "process MarkDeadNonces s = bind_res (dnl_run Mark (fw_dnl s)) (\<lambda>d. Inr (s\<lparr>fw_dnl := d\<rparr>))"
| "process AdjustDeadNonces s = bind_res (dnl_run AdjustCapacity (fw_dnl s)) (\<lambda>d. Inr (s\<lparr>fw_dnl := d\<rparr>))"
| "process (AddFace f x) s = Inr (modify_face f (\<lambda>_. x) s)"

inductive fw_step :: "fw \<Rightarrow> fw_input \<Rightarrow> fw \<Rightarrow> bool" where
  step: "admissible s inp \<Longrightarrow> process inp s = Inr s' \<Longrightarrow> fw_step s inp s'"

inductive reachable :: "fw \<Rightarrow> fw \<Rightarrow> bool" for s0 where
  init: "reachable s0 s0"
| after: "reachable s0 s \<Longrightarrow> fw_step s inp s' \<Longrightarrow> reachable s0 s'"

inductive_cases fw_stepE: "fw_step s inp s'"
inductive_simps fw_step_simps: "fw_step s inp s'"

section \<open>Invariance\<close>

lemma fw_inv_now: "fw_inv (s\<lparr>fw_now := t\<rparr>) = fw_inv s"
  by (simp add: fw_inv_def records_inv_def hint_inv_def pit_interest_def interest_of_def entry_of_def)

lemma fw_inv_faces: "fw_inv (s\<lparr>fw_faces := fs\<rparr>) = fw_inv s"
  by (simp add: fw_inv_def records_inv_def hint_inv_def pit_interest_def interest_of_def entry_of_def)

lemma dnl_step_ok:
  assumes "fw_inv s"
  shows "\<exists>s'. bind_res (dnl_run op (fw_dnl s)) (\<lambda>d. Inr (s\<lparr>fw_dnl := d\<rparr>)) = Inr s' \<and> fw_inv s'"
proof -
  obtain d where "dnl_run op (fw_dnl s) = Inr d" using dnl_run_total by blast
  then show ?thesis using fw_inv_dnl [OF assms] dnl_run_inv [OF fw_invD(7) [OF assms]] by simp
qed

lemma process_ok:
  assumes "fw_inv s" "admissible s inp"
  shows "\<exists>s'. process inp s = Inr s' \<and> fw_inv s'"
proof (cases inp)
  case (RecvInterest i f)
  then show ?thesis using onIncomingInterest_ok [OF assms(1)] assms(2) by simp
next
  case (RecvNack n f)
  then show ?thesis using onIncomingNack_ok [OF assms(1)] by (metis process.simps(3))
next
  case (Expire e)
  then show ?thesis using onInterestFinalize_ok [OF assms(1), of e] assms(2) by fastforce
qed (use assms onIncomingData_ok dnl_step_ok in \<open>auto simp: fw_inv_now fw_inv_faces modify_face_def simp del: dnl_run.simps\<close>)

lemma fw_step_inv: "fw_step s inp s' \<Longrightarrow> fw_inv s \<Longrightarrow> fw_inv s'"
  using process_ok by (fastforce elim: fw_stepE)

lemma reachable_inv: "reachable s0 s \<Longrightarrow> fw_inv s0 \<Longrightarrow> fw_inv s"
  by (induction rule: reachable.induct) (auto intro: fw_step_inv)

lemma new_forwarder_inv: "\<exists>s. new_forwarder now rnd n l = Inr s \<and> fw_inv s"
proof -
  define nt :: fw_tree where "nt = [([], new_nte\<lparr>nte_sc := Some default_strategy\<rparr>)]"
  have sd: "setDefaultStrategy default_strategy \<lparr>sc_pit = empty_pit, sc_nItems = 0\<rparr> =
      Inr \<lparr>sc_pit = empty_pit\<lparr>pit_nt := nt\<rparr>, sc_nItems = 1\<rparr>"
    by (simp add: setDefaultStrategy_def nt_lookup_def lookup_step_def nt_index_insert_def sc_nt_def sc_set_nt_def empty_pit_def
        setStrategyChoiceEntry_def nt_modify_def nt_def getMaxDepth_def)
  have att: "attached (empty_pit\<lparr>pit_nt := nt\<rparr>) e = False" for e by (simp add: attached_def empty_pit_def)
  have "nt_inv nt" by (auto simp: nt_inv_def nt_def new_nte_def getMaxDepth_def)
  moreover have "nt_tight nt" by (auto simp: nt_tight_def nt_def isEmpty_nte_def hasTableEntries_def)
  moreover have "pit_at nt m = []" "fib_at nt m = None" for m by (auto simp: pit_at_def fib_at_def nt_content_def nte_content_def nt_def new_nte_def)
  moreover have "sc_at nt [] \<noteq> None" by (simp add: sc_at_def nt_content_def nte_content_def nt_def)
  moreover have "records_ok (new_pit_entry 0)" by (simp add: records_ok_def new_pit_entry_def)
  ultimately have "pit_inv h (empty_pit\<lparr>pit_nt := nt\<rparr>)" "fib_routed nt" for h
    using att by (simp_all add: pit_inv_def fib_routed_def empty_pit_def)
  then show ?thesis using att \<open>sc_at nt [] \<noteq> None\<close>
    by (simp add: new_forwarder_def sd fw_inv_def assist_inv_new dnl_inv_new cs_inv_new) (simp add: empty_pit_def new_cs_def)
qed

end
