(* ===== verification/Reflexive.thy ===== *)
theory Reflexive
  imports Forwarder_Steps
begin

text \<open>
  Reflexive forwarding end to end.  A consumer's Interest with a reflexive name component is
  given a fresh token towards the next hop; a producer's Interest that carries this token goes to
  the face the consumer's Interest came from, with the token the consumer had chosen.
\<close>

section \<open>Accepted Interests\<close>

text \<open>The guards at the head of the incoming Interest pipeline.\<close>

definition accepts :: "fw \<Rightarrow> face_id \<Rightarrow> interest \<Rightarrow> 32 word \<Rightarrow> bool" where
  "accepts s f i nonce \<longleftrightarrow> i_nonce i = Some nonce \<and> i_hopLimit i \<noteq> Some 0 \<and> i_forwardingHint i = [] \<and>
     \<not> (f_scope (face_of s f) = NON_LOCAL \<and> isPrefixOf LOCALHOST (i_name i)) \<and>
     dnl_has (i_name i) nonce (fw_dnl s) = Inr False"

definition received :: "face_id \<Rightarrow> interest \<Rightarrow> interest" where
  "received f i = i\<lparr>i_incomingFaceId := Some f, i_hopLimit := map_option (\<lambda>h. h - 1) (i_hopLimit i)\<rparr>"

definition stored :: "fw \<Rightarrow> face_id \<Rightarrow> interest \<Rightarrow> fw" where
  "stored s f i = snd (new_interest (received f i) (count (\<lambda>c. c\<lparr>nInInterests := nInInterests c + 1\<rparr>) s))"

text \<open>The Interest as it leaves, but for the token.\<close>

definition forwarded :: "fw \<Rightarrow> face_id \<Rightarrow> interest \<Rightarrow> bytes option \<Rightarrow> interest" where
  "forwarded s f i tok = (default_hop s (received f i))\<lparr>i_pitToken := tok\<rparr>"

definition only_entry :: "fw \<Rightarrow> name \<Rightarrow> pit_ref \<Rightarrow> bool" where
  "only_entry s n e0 \<longleftrightarrow> (\<forall>e. attached (fw_pit s) e \<and> i_name (pit_interest s e) = n \<longleftrightarrow> e = e0)"

lemma received_simps [simp]:
  "i_name (received f i) = i_name i" "i_pitToken (received f i) = i_pitToken i" "i_nonce (received f i) = i_nonce i"
  "i_forwardingHint (received f i) = i_forwardingHint i" "i_canBePrefix (received f i) = i_canBePrefix i"
  "i_mustBeFresh (received f i) = i_mustBeFresh i" "i_nextHopFaceId (received f i) = i_nextHopFaceId i"
  "i_lifetime (received f i) = i_lifetime i"
  by (simp_all add: received_def)

lemma received_ok [simp]: "interest_ok (received f i) = interest_ok i"
  using fromProducer_name_cong [of "received f i" i] by (simp add: interest_ok_def)

lemma fromProducer_received [simp]: "isReflexiveInterestFromProducer (received f i) = isReflexiveInterestFromProducer i"
  by (rule fromProducer_name_cong) simp

lemma stored_simps [simp]:
  "fw_out (stored s f i) = fw_out s" "fw_assist (stored s f i) = fw_assist s" "fw_pit (stored s f i) = fw_pit s"
  "entry_of (stored s f i) = entry_of s" "face_of (stored s f i) = face_of s" "fw_faces (stored s f i) = fw_faces s"
  "fw_now (stored s f i) = fw_now s" "fw_defaultHopLimit (stored s f i) = fw_defaultHopLimit s"
  "fw_random (stored s f i) = fw_random s" "fw_drawn (stored s f i) = fw_drawn s" "fw_cs (stored s f i) = fw_cs s"
  "fw_nextInterest (stored s f i) = Suc (fw_nextInterest s)" "fw_regions (stored s f i) = fw_regions s"
  "interest_of (stored s f i) = (interest_of s)(fw_nextInterest s := received f i)"
  by (auto simp: stored_def fw_defs fun_eq_iff)

lemma fw_pit_simps [simp]:
  "interest_of (s\<lparr>fw_pit := p\<rparr>) = interest_of s" "face_of (s\<lparr>fw_pit := p\<rparr>) = face_of s" "entry_of (s\<lparr>fw_pit := p\<rparr>) = pit_entries p"
  by (auto simp: fw_defs fun_eq_iff)

lemma accepts_process:
  assumes "accepts s f i nonce"
  shows "onIncomingInterest i f s = process_interest (fw_nextInterest s) nonce f (stored s f i)"
  using assms unfolding accepts_def onIncomingInterest_def Let_def getNonce_def
  by (auto simp: stored_def received_def fw_defs)

lemma stored_inv:
  assumes "fw_inv s"
  shows "fw_inv (stored s f i)" "fresh_interest (fw_nextInterest s) (stored s f i)"
    "attached (fw_pit s) e \<Longrightarrow> pit_interest (stored s f i) e = pit_interest s e"
proof -
  let ?s = "count (\<lambda>c. c\<lparr>nInInterests := nInInterests c + 1\<rparr>) s"
  have n: "new_interest (received f i) ?s = (fw_nextInterest s, stored s f i)" by (simp add: stored_def fw_defs)
  show "fw_inv (stored s f i)" "fresh_interest (fw_nextInterest s) (stored s f i)"
    using new_interest_fresh [OF actsD(2) [OF acts_log(1) assms] n] by auto
  show "attached (fw_pit s) e \<Longrightarrow> pit_interest (stored s f i) e = pit_interest s e"
    using fw_invD(2) [OF assms, of e] by (auto simp: pit_interest_def records_inv_def)
qed

text \<open>The PIT lookup of an accepted Interest.\<close>

lemma accepted_entry:
  assumes "fw_inv s" "accepts s f i nonce"
  obtains p e new where
    "findOrInsert (fw_interests (stored s f i)) (fw_nextInterest s) True (fw_pit s) = Inr (p, Some e, new)"
    "fw_inv ((stored s f i)\<lparr>fw_pit := p\<rparr>)" "attached p e"
    "matchesInterest (pit_interest ((stored s f i)\<lparr>fw_pit := p\<rparr>) e) (received f i)"
    "\<And>e'. attached (fw_pit s) e' \<Longrightarrow> attached p e' \<and> pit_entries p e' = pit_entries (fw_pit s) e'"
    "\<And>e'. attached p e' \<Longrightarrow> attached (fw_pit s) e' \<or> e' = e"
    "new \<Longrightarrow> pe_in (pit_entries p e) = [] \<and> pe_out (pit_entries p e) = [] \<and> pe_expiryTimer (pit_entries p e) = None \<and>
       pe_interest (pit_entries p e) = fw_nextInterest s"
    "new \<longleftrightarrow> \<not> (\<exists>e'. attached (fw_pit s) e' \<and> matchesInterest (pit_interest s e') i)"
    "fib_at (pit_nt p) = fib_at (pit_nt (fw_pit s))" "sc_at (pit_nt p) = sc_at (pit_nt (fw_pit s))"
proof -
  note S = stored_inv [OF assms(1), where f = f and i = i]
  have "matchesInterest x (received f i) = matchesInterest x i" for x by (simp add: matchesInterest_def)
  then have "(\<exists>e'. attached (fw_pit s) e' \<and> matchesInterest (pit_interest (stored s f i) e') (received f i)) \<longleftrightarrow>
      (\<exists>e'. attached (fw_pit s) e' \<and> matchesInterest (pit_interest s e') i)" using S(3) by auto
  note same = this
  have "fw_nextInterest s < fw_nextInterest (stored s f i)" "i_forwardingHint (interest_of (stored s f i) (fw_nextInterest s)) = []"
    using assms(2) by (simp_all add: accepts_def)
  from pit_insert_fw [OF S(1) this(1) disjI1 [OF this(2)]] show ?thesis
    apply (elim exE conjE)
    subgoal for p e new by (rule that [of p e new]) (simp_all add: same)
    done
qed

lemma process_stored:
  assumes "accepts s f i nonce" "findOrInsert (fw_interests (stored s f i)) (fw_nextInterest s) True (fw_pit s) = Inr (p, Some e, new)"
    and "isReflexiveInterestFromProducer i = Inr b"
  shows "process_interest (fw_nextInterest s) nonce f (stored s f i) =
    (let s2 = (stored s f i)\<lparr>fw_pit := p\<rparr>; r = fw_nextInterest s in
     if b then onSendingRI r f e s2
     else bind_res (register_token r s2) (\<lambda>s. if isInterestLoop nonce f e s then Inr (onInterestLoop r f s)
       else if pe_in (entry_of s e) = [] then cs_lookup r f e s else onContentStoreMiss r f e s))"
  using assms unfolding process_interest_def Let_def accepts_def by simp

section \<open>The producer's Interest reaches the consumer\<close>

lemma default_hop_simps [simp]:
  "i_name (default_hop s i) = i_name i" "i_pitToken (default_hop s i) = i_pitToken i" "i_nextHopFaceId (default_hop s i) = i_nextHopFaceId i"
  "default_hop s (i\<lparr>i_pitToken := t\<rparr>) = (default_hop s i)\<lparr>i_pitToken := t\<rparr>"
  by (simp_all add: default_hop_def)

lemma fromProducer_default_hop [simp]:
  "isReflexiveInterestFromProducer (default_hop s i) = isReflexiveInterestFromProducer i"
  "isReflexiveInterestFromProducer (i\<lparr>i_pitToken := t\<rparr>) = isReflexiveInterestFromProducer i"
  by (rule fromProducer_name_cong, simp)+

text \<open>Sending an Interest changes no in-record, and with a token set it works on a copy.\<close>

lemma out_record_frame:
  assumes "modify_entry_res e (insertOrUpdateOutRecord h now g q) t = Inr t'"
  shows "pe_in (entry_of t' e') = pe_in (entry_of t e')" "interest_of t' = interest_of t"
  using assms by (auto simp: modify_entry_res_def insertOrUpdateOutRecord_def res_simps fw_defs fun_eq_iff)

lemma emit_frame [simp]:
  "entry_of (count c s) = entry_of s" "interest_of (count c s) = interest_of s"
  "entry_of (emit ev s) = entry_of s" "interest_of (emit ev s) = interest_of s"
  "entry_of (modify_interest q h s) = entry_of s" "r \<noteq> q \<Longrightarrow> interest_of (modify_interest q h s) r = interest_of s r"
  "entry_of (modify_face f g s) = entry_of s" "interest_of (modify_face f g s) = interest_of s"
  by (auto simp: fw_defs fun_eq_iff)

lemma onOutgoingInterest_frame:
  assumes "onOutgoingInterest q g e t = Inr (res, t')"
  shows "pe_in (entry_of t' e') = pe_in (entry_of t e')" "r \<noteq> q \<Longrightarrow> interest_of t' r = interest_of t r"
proof -
  define v where "v = modify_interest q (\<lambda>i. i\<lparr>i_pitToken := Some (setPitToken (fst (nameToPrevToken (fw_assist t) (i_name (pit_interest t e)))))\<rparr>) t"
  define u where "u = (if isReflexiveInterest (interest_of t q)
    then modify_interest q (\<lambda>i. i\<lparr>i_pitToken := Some (setPitToken (fst (nameToToken (fw_assist t) (i_name i))))\<rparr>) t else t)"
  have uv: "entry_of v = entry_of t" "entry_of u = entry_of t"
    "r \<noteq> q \<Longrightarrow> interest_of v r = interest_of t r" "r \<noteq> q \<Longrightarrow> interest_of u r = interest_of t r" by (simp_all add: v_def u_def)
  define Q where "Q x \<longleftrightarrow> pe_in (entry_of x e') = pe_in (entry_of t e') \<and> (r \<noteq> q \<longrightarrow> interest_of x r = interest_of t r)" for x
  have sent: "Q (count c (emit ev w'))" if "modify_entry_res e2 (insertOrUpdateOutRecord h now g q) w = Inr w'" "w = u \<or> w = v" for e2 h now w w' c ev
    using out_record_frame [OF that(1)] that(2) uv by (auto simp: Q_def)
  have drop: "Q (modify_face g k t)" for k by (simp add: Q_def)
  have "Q t'"
    using assms sent [where w = u] sent [where w = v] drop unfolding onOutgoingInterest_def Let_def v_def [symmetric] u_def [symmetric]
    by (auto simp: res_simps split: if_splits option.splits)
  then show "pe_in (entry_of t' e') = pe_in (entry_of t e')" "r \<noteq> q \<Longrightarrow> interest_of t' r = interest_of t r" by (auto simp: Q_def)
qed

lemma sendInterest_frame:
  assumes "sendInterest r g e s = Inr (res, s')"
  shows "pe_in (entry_of s' e') = pe_in (entry_of s e')"
    "i_pitToken (interest_of s r) \<noteq> None \<Longrightarrow> r' < fw_nextInterest s \<Longrightarrow> interest_of s' r' = interest_of s r'"
proof -
  obtain r2 t where t: "new_interest ((interest_of s r)\<lparr>i_pitToken := None\<rparr>) s = (r2, t)" by force
  then have *: "entry_of t = entry_of s" "r2 = fw_nextInterest s" "r' < fw_nextInterest s \<Longrightarrow> interest_of t r' = interest_of s r'"
    by (auto simp: fw_defs)
  show "pe_in (entry_of s' e') = pe_in (entry_of s e')"
    using assms onOutgoingInterest_frame(1) * unfolding sendInterest_def t by (cases "i_pitToken (interest_of s r)") fastforce+
  show "i_pitToken (interest_of s r) \<noteq> None \<Longrightarrow> r' < fw_nextInterest s \<Longrightarrow> interest_of s' r' = interest_of s r'"
    using assms onOutgoingInterest_frame(2) [where r = r'] * unfolding sendInterest_def t by fastforce
qed

lemma tokenToName_prev:
  assumes "assist_inv a" "tokenToName a t = (n, True)"
  shows "nameToPrevToken a n = (fst (nameToPrevToken a n), True)" "m_Token_to_Name a t = Some n" "m_Name_to_Token a n = Some t"
proof -
  show t: "m_Token_to_Name a t = Some n" using assms(2) by (auto simp: tokenToName_def split: option.splits)
  show n: "m_Name_to_Token a n = Some t" using assist_invD(2) [OF assms(1)] t by blast
  have "dom (m_Name_to_prevToken a) = dom (m_Name_to_Token a)" using assms(1) by (simp add: assist_inv_def)
  then show "nameToPrevToken a n = (fst (nameToPrevToken a n), True)"
    using n by (auto simp: nameToPrevToken_def split: option.splits)
qed

lemma onSendingRI_out:
  assumes "fw_inv s" "attached (fw_pit s) e" "r < fw_nextInterest s" "matchesInterest (pit_interest s e) (interest_of s r)"
    and "isReflexiveInterestFromProducer (interest_of s r) = Inr True"
    and "readInterestPitToken (interest_of s r) = Inr t" "t \<noteq> 0" "tokenToName (fw_assist s) t = (n, True)"
    and "findBasedOnName (fw_interests s) n (fw_pit s) = Some e0" "pe_in (entry_of s e0) = rec # recs" "e0 \<noteq> e"
    and "effective (sc_at (pit_nt (fw_pit s))) (i_name (pit_interest s e)) = Some st" "st_type st = BestRouteStrategy"
  defines "out \<equiv> (default_hop s (interest_of s r))\<lparr>i_pitToken := Some (setPitToken (fst (nameToPrevToken (fw_assist s) n)))\<rparr>"
  shows "\<exists>s'. onSendingRI r f e s = Inr s' \<and> acts s s' \<and> fw_out s' = fw_out s @
    (if i_hopLimit out = Some 0 \<and> f_scope (face_of s (ir_face rec)) = NON_LOCAL then [] else [OutInterest (ir_face rec) out]) \<and>
    (pe_in (entry_of s e) = [] \<longrightarrow> pe_in (entry_of s' e) = [inRecord_update (fw_now s) r (interest_of s r) (new_in_record f)]) \<and>
    i_pitToken (interest_of s' r) = i_pitToken out"
proof -
  define p where "p = fst (nameToPrevToken (fw_assist s) n)"
  have prev: "nameToPrevToken (fw_assist s) n = (p, True)"
    unfolding p_def by (rule tokenToName_prev(1) [OF fw_invD(6) [OF assms(1)] assms(8)])
  have e0: "attached (fw_pit s) e0" "i_name (pit_interest s e0) = n"
    using findBasedOnName_Some [OF fw_invD(1) [OF assms(1)] assms(9)]
    by (auto simp: pit_interest_def entry_interest_def interest_of_def entry_of_def)
  define s1 where "s1 = modify_interest r (\<lambda>i. i\<lparr>i_pitToken := Some (setPitToken p)\<rparr>) s"
  have a1: "acts s s1" unfolding s1_def by (rule acts_interest) simp
  have s1: "interest_of s1 = (interest_of s)(r := (interest_of s r)\<lparr>i_pitToken := Some (setPitToken p)\<rparr>)" "entry_of s1 = entry_of s"
      "fw_out s1 = fw_out s" "fw_faces s1 = fw_faces s" "fw_defaultHopLimit s1 = fw_defaultHopLimit s"
    by (auto simp: s1_def fw_defs fun_eq_iff)
  have m1: "matchesInterest (pit_interest s1 e) (interest_of s1 r)" "r < fw_nextInterest s1"
    using assms(3,4) by (auto simp: s1_def fw_defs matchesInterest_def)
  obtain s2 x where s2: "insert_in_record r f e s1 = Inr s2" "acts s1 s2" "fw_out s2 = fw_out s1" "fw_faces s2 = fw_faces s1"
      "interest_of s2 = (interest_of s1)(r := default_hop s1 (interest_of s1 r))"
      "entry_of s2 = (entry_of s1)(e := (with_in_record r f s1 (entry_of s1 e))\<lparr>pe_expiryTimer := Some x\<rparr>)"
    using insert_in_record_ok [OF m1(2,1), of f] by metis
  have a2: "acts s s2" by (rule acts_trans [OF a1 s2(2)])
  have r2: "ready r e0 s2" by (rule ready_stable [OF ready_original [OF assms(1,2) e0(1) assms(3-5)] a2])
  have st2: "effective_strategy e s2 = Inr st"
  proof -
    obtain st' where "effective_strategy e s2 = Inr st'" "effective (sc_at (pit_nt (fw_pit s2))) (i_name (pit_interest s2 e)) = Some st'"
      using effective_strategy_ok [OF actsD(2) [OF a2 assms(1)]] stable_attached [OF actsD(1) [OF a2]] assms(2) by auto
    moreover have "pit_nt (fw_pit s2) = pit_nt (fw_pit s)" using actsD(1) [OF a2] by (simp add: stable_def)
    moreover have "i_name (pit_interest s2 e) = i_name (pit_interest s e)"
      by (rule same_key_name [OF stable_pit_interest [OF actsD(1) [OF a2] assms(1,2)]])
    ultimately show ?thesis using assms(12) by simp
  qed
  have i2: "interest_of s2 r = (default_hop s (interest_of s r))\<lparr>i_pitToken := Some (setPitToken p)\<rparr>"
    using s1 by (simp add: s2(5) default_hop_def)
  have "pe_in (entry_of s2 e0) = rec # recs" using assms(10,11) s1 by (simp add: s2(6))
  with bestRoute_reflexive_ok [OF r2, of f] obtain s3 where s3: "bestRoute_reflexive r f e0 s2 = Inr s3" "acts s2 s3"
      "fw_out s3 = fw_out s2 @ sent r (ir_face rec) e0 None s2" by blast
  obtain res where "sendInterest r (ir_face rec) e0 s2 = Inr (res, s3)"
    using s3(1) \<open>pe_in (entry_of s2 e0) = rec # recs\<close> by (auto simp: bestRoute_reflexive_def drop_result_def bind_res_eq_Inr)
  note F = sendInterest_frame [OF this]
  have "fw_now s1 = fw_now s" by (simp add: s1_def modify_interest_def)
  then have rec': "pe_in (entry_of s3 e) = [inRecord_update (fw_now s) r (interest_of s r) (new_in_record f)]" if "pe_in (entry_of s e) = []"
    using F(1) [of e] that by (simp add: s2(6) s1 with_in_record_def upsert_def inRecord_update_def nonce_of_def expiry_of_def)
  have "fw_nextInterest s \<le> fw_nextInterest s2" using actsD(1) [OF a2] by (simp add: stable_def)
  then have tok': "i_pitToken (interest_of s3 r) = Some (setPitToken p)" using F(2) [of r] assms(3) i2 by simp
  have n2: "i_name (pit_interest s2 e0) = n" "fw_assist s2 = fw_assist s"
    using same_key_name [OF stable_pit_interest [OF actsD(1) [OF a2] assms(1) e0(1)]] e0(2) actsD(1) [OF a2] by (auto simp: stable_def)
  have sent: "sent r (ir_face rec) e0 None s2 =
      (if i_hopLimit out = Some 0 \<and> f_scope (face_of s (ir_face rec)) = NON_LOCAL then [] else [OutInterest (ir_face rec) out])"
    using assms(5) s2(4) s1(4)
    by (simp add: sent_def hop_limit_drop_def token_for_def i2 n2 out_def p_def face_of_def)
  have "onSendingRI r f e s = afterReceiveInterest st r f e0 s2"
    unfolding onSendingRI_def assms(6) bind_res_Inr if_not_P [OF assms(7)] Let_def assms(8) prod.case assms(9) option.case prev
    by (simp add: s1_def [symmetric] s2(1) st2)
  also have "\<dots> = Inr s3"
    using assms(5,13) s3(1) by (simp add: afterReceiveInterest_def bestRoute_afterReceiveInterest_def i2)
  finally show ?thesis using acts_trans [OF a2 s3(2)] s3(3) sent s2(3) s1(3) rec' tok' by (simp add: out_def p_def)
qed

lemma only_entry_found:
  assumes "pit_inv (fw_interests s) (fw_pit s)" "only_entry s n e0" "nteDepth n = length n"
  shows "findBasedOnName (fw_interests s) n (fw_pit s) = Some e0"
proof -
  have att: "attached (fw_pit s) e \<and> i_name (entry_interest (fw_interests s) (fw_pit s) e) = n \<longleftrightarrow> e = e0" for e
    using assms(2) by (simp add: only_entry_def pit_interest_def entry_interest_def interest_of_def entry_of_def)
  then obtain e where "findBasedOnName (fw_interests s) n (fw_pit s) = Some e"
    using findBasedOnName_complete [OF assms(1) _ _ assms(3), of e0] by auto
  with findBasedOnName_Some [OF assms(1) this] att show ?thesis by auto
qed

definition answered_on :: "fw \<Rightarrow> fw \<Rightarrow> face_id \<Rightarrow> interest \<Rightarrow> bytes \<Rightarrow> bool" where
  "answered_on s s' f i tok \<longleftrightarrow> (\<exists>e rec. attached (fw_pit s') e \<and> matchesInterest (pit_interest s' e) i \<and> pe_in (entry_of s' e) = [rec] \<and> ir_face rec = f \<and>
     ir_expiry rec = expiry_of (fw_now s) i \<and> i_pitToken (interest_of s' (ir_interest rec)) = Some tok \<and>
     (\<forall>e'. attached (fw_pit s') e' \<longrightarrow> e' = e \<or> attached (fw_pit s) e' \<and> same_key (pit_interest s e') (pit_interest s' e')))"

lemma ri_delivered:
  assumes "fw_inv s" "accepts s f i nonce" "isReflexiveInterestFromProducer i = Inr True"
    and "readInterestPitToken i = Inr t" "t \<noteq> 0" "tokenToName (fw_assist s) t = (n, True)"
    and "only_entry s n e0" "nteDepth n = length n" "i_name i \<noteq> n" "pe_in (entry_of s e0) = rec # recs"
    and "effective (sc_at (pit_nt (fw_pit s))) (i_name i) = Some st" "st_type st = BestRouteStrategy"
  defines "tok \<equiv> setPitToken (fst (nameToPrevToken (fw_assist s) n))"
  defines "out \<equiv> forwarded s f i (Some tok)"
  shows "\<exists>s'. onIncomingInterest i f s = Inr s' \<and> fw_inv s' \<and> fw_out s' = fw_out s @
    (if i_hopLimit out = Some 0 \<and> f_scope (face_of s (ir_face rec)) = NON_LOCAL then [] else [OutInterest (ir_face rec) out]) \<and>
    fw_now s' = fw_now s \<and> (\<forall>g. f_scope (face_of s' g) = f_scope (face_of s g) \<and> f_linkType (face_of s' g) = f_linkType (face_of s g) \<and>
      f_inTable (face_of s' g) = f_inTable (face_of s g)) \<and>
    ((\<forall>e. attached (fw_pit s) e \<longrightarrow> \<not> matchesInterest (pit_interest s e) i) \<longrightarrow> answered_on s s' f i tok)"
proof -
  let ?r = "fw_nextInterest s"
  obtain p e new where p: "findOrInsert (fw_interests (stored s f i)) (fw_nextInterest s) True (fw_pit s) = Inr (p, Some e, new)"
    "fw_inv ((stored s f i)\<lparr>fw_pit := p\<rparr>)" "attached p e"
    "matchesInterest (pit_interest ((stored s f i)\<lparr>fw_pit := p\<rparr>) e) (received f i)"
    "\<And>e'. attached (fw_pit s) e' \<Longrightarrow> attached p e' \<and> pit_entries p e' = pit_entries (fw_pit s) e'"
    "\<And>e'. attached p e' \<Longrightarrow> attached (fw_pit s) e' \<or> e' = e" "sc_at (pit_nt p) = sc_at (pit_nt (fw_pit s))"
    "new \<Longrightarrow> pe_in (pit_entries p e) = []" "new \<longleftrightarrow> \<not> (\<exists>e'. attached (fw_pit s) e' \<and> matchesInterest (pit_interest s e') i)"
    by (rule accepted_entry [OF assms(1,2)]) blast
  define s2 where "s2 = (stored s f i)\<lparr>fw_pit := p\<rparr>"
  have s2: "interest_of s2 (fw_nextInterest s) = received f i" "fw_out s2 = fw_out s" "fw_assist s2 = fw_assist s" "fw_pit s2 = p"
    "face_of s2 = face_of s" "entry_of s2 = pit_entries p" "fw_nextInterest s2 = Suc (fw_nextInterest s)" "default_hop s2 = default_hop s" "fw_now s2 = fw_now s"
    by (simp_all add: s2_def default_hop_def fun_eq_iff)
  have name: "i_name (pit_interest s2 e) = i_name i" using p(4) by (simp add: s2_def matchesInterest_def)
  have keep: "pit_interest s2 e' = pit_interest s e'" if "attached (fw_pit s) e'" for e'
    using stored_inv(3) [OF assms(1) that, of f i] p(5) [OF that] by (simp add: s2_def pit_interest_def entry_of_def)
  have "attached p e' \<and> i_name (pit_interest s2 e') = n \<longleftrightarrow> e' = e0" for e'
    using assms(7,9) p(5,6) [of e'] keep [of e'] name by (fastforce simp: only_entry_def)
  then have only: "only_entry s2 n e0" by (simp add: only_entry_def s2)
  have i2: "fw_inv s2" using p(2) by (simp add: s2_def)
  have e0: "attached (fw_pit s) e0" "e0 \<noteq> e" using assms(7,9) only name by (auto simp: only_entry_def)
  have rec: "pe_in (entry_of s2 e0) = rec # recs" using p(5) [OF e0(1)] assms(10) by (simp add: s2 entry_of_def)
  have tok: "readInterestPitToken (received f i) = Inr t" using assms(4) by (simp add: readInterestPitToken_def)
  have "\<exists>s'. onSendingRI ?r f e s2 = Inr s' \<and> acts s2 s' \<and> fw_out s' = fw_out s @
     (if i_hopLimit out = Some 0 \<and> f_scope (face_of s (ir_face rec)) = NON_LOCAL then [] else [OutInterest (ir_face rec) out]) \<and>
     (pe_in (pit_entries p e) = [] \<longrightarrow> pe_in (entry_of s' e) = [inRecord_update (fw_now s) ?r (received f i) (new_in_record f)]) \<and>
     i_pitToken (interest_of s' ?r) = i_pitToken out"
    using onSendingRI_out [where s = s2 and r = ?r and e = e and f = f and ?e0.0 = e0 and n = n and t = t and rec = rec and recs = recs and st = st]
      i2 p(3,4,7) tok assms(3,5,6,11,12) only_entry_found [OF fw_invD(1) [OF i2] only assms(8)] rec e0(2) name
    unfolding s2 out_def tok_def forwarded_def by (simp add: s2_def [symmetric] split del: if_split)
  then obtain s' where s': "onSendingRI ?r f e s2 = Inr s'" "acts s2 s'" "fw_out s' = fw_out s @
     (if i_hopLimit out = Some 0 \<and> f_scope (face_of s (ir_face rec)) = NON_LOCAL then [] else [OutInterest (ir_face rec) out])"
     "pe_in (pit_entries p e) = [] \<Longrightarrow> pe_in (entry_of s' e) = [inRecord_update (fw_now s) ?r (received f i) (new_in_record f)]"
     "i_pitToken (interest_of s' ?r) = i_pitToken out" by blast
  note st = actsD(1) [OF s'(2)]
  have key: "same_key (pit_interest s2 e') (pit_interest s' e')" if "attached p e'" for e'
    using stable_pit_interest [OF st i2, of e'] that by (simp add: s2)
  have att: "attached (fw_pit s') e' = attached p e'" for e' using stable_attached [OF st] by (simp add: s2)
  have old: "e' = e \<or> attached (fw_pit s) e' \<and> same_key (pit_interest s e') (pit_interest s' e')" if "attached p e'" for e'
    using p(6) [OF that] key [OF that] keep [of e'] by auto
  have "matchesInterest (pit_interest s' e) i" using key [OF p(3)] p(4) by (simp add: s2_def [symmetric] matchesInterest_def same_key_def)
  then have "answered_on s s' f i tok" if "\<forall>e. attached (fw_pit s) e \<longrightarrow> \<not> matchesInterest (pit_interest s e) i"
    using s'(4) [OF p(8)] p(3,9) that s'(5) old unfolding answered_on_def att
    by (intro exI [of _ e] exI [of _ "inRecord_update (fw_now s) ?r (received f i) (new_in_record f)"])
      (auto simp: inRecord_update_def new_in_record_def out_def forwarded_def expiry_of_def)
  moreover have "onIncomingInterest i f s = Inr s'"
    using s'(1) unfolding accepts_process [OF assms(2)] process_stored [OF assms(2) p(1) assms(3)] Let_def s2_def [symmetric] by simp
  ultimately show ?thesis using actsD(2) [OF s'(2) i2] s'(3) st s2 by (intro exI [of _ s']) (simp add: stable_def)
qed

section \<open>The consumer's Interest\<close>

text \<open>Where best-route may send the first Interest of an entry.\<close>

definition can_go :: "faces \<Rightarrow> face_id \<Rightarrow> interest \<Rightarrow> next_hop \<Rightarrow> bool" where
  "can_go faces f i nh \<longleftrightarrow> \<not> (nh_face nh = f \<and> f_linkType (faces f) \<noteq> AD_HOC) \<and>
     \<not> wouldViolateScope (faces f) i (faces (nh_face nh))"

lemma eligible_can_go: "eligible faces f i e = can_go faces f i"
  by (auto simp: eligible_def isNextHopEligible_def can_go_def Let_def fun_eq_iff)

lemma lookupFib_no_hint:
  assumes "fw_inv s" "attached (fw_pit s) e" "i_forwardingHint (pit_interest s e) = []"
  shows "lookupFib e s = Inr (fib_findLongestPrefixMatch (pit_nt (fw_pit s)) (i_name (pit_interest s e)))"
proof -
  obtain nte where nte: "pe_nte (entry_of s e) = Some nte" "prefix nte (i_name (pit_interest s e))" "map_of (pit_nt (fw_pit s)) nte \<noteq> None"
    using attached_prefix [OF assms(1,2)] by blast
  have "nt_inv (pit_nt (fw_pit s))" by (rule pit_invD(1) [OF fw_invD(1) [OF assms(1)]])
  note lpm = fib_table.lpm_pit_at [OF this nte(3,2)] and lpm' = fib_table.lpm_at [of "i_name (pit_interest s e)" "pit_nt (fw_pit s)"]
  show ?thesis
    unfolding lookupFib_def fib_findLongestPrefixMatch_pit_def fib_findLongestPrefixMatch_def Let_def
    using nte(1) assms(3) by (simp add: lpm lpm')
qed

lemma bestRoute_new_out:
  assumes "ready r e s" "isReflexiveInterestFromProducer (interest_of s r) = Inr False"
    and "pe_out (entry_of s e) = []" "i_forwardingHint (pit_interest s e) = []"
    and "find (can_go (fw_faces s) f (interest_of s r))
      (fe_nextHops (fib_findLongestPrefixMatch (pit_nt (fw_pit s)) (i_name (pit_interest s e)))) = Some nh"
  shows "\<exists>s'. bestRoute_afterReceiveInterest rp r f e s = Inr s' \<and> acts s s' \<and> fw_out s' = fw_out s @ sent r (nh_face nh) e None s \<and>
    (\<forall>e'. pe_in (entry_of s' e') = pe_in (entry_of s e')) \<and>
    (i_pitToken (interest_of s r) \<noteq> None \<longrightarrow> (\<forall>r' < fw_nextInterest s. interest_of s' r' = interest_of s r'))"
proof -
  have same: "modify_entry e (\<lambda>_. entry_of s e) s = s" by (simp add: fw_defs)
  have fib: "lookupFib e s = Inr (fib_findLongestPrefixMatch (pit_nt (fw_pit s)) (i_name (pit_interest s e)))"
    using lookupFib_no_hint assms(1,4) by (simp add: ready_def)
  obtain res s' where s': "sendInterest r (nh_face nh) e s = Inr (res, s')" "acts s s'" "fw_out s' = fw_out s @ sent r (nh_face nh) e None s"
    using sendInterest_ok [OF assms(1)] by blast
  have "bestRoute_afterReceiveInterest rp r f e s = drop_result (sendInterest r (nh_face nh) e s)"
    using assms(2,3,5) fib
    by (simp add: bestRoute_afterReceiveInterest_def decidePerPitEntry_def hasPendingOutRecords_def same Let_def eligible_can_go)
  then show ?thesis using s' sendInterest_frame [OF s'(1)] by (simp add: drop_result_def)
qed

text \<open>A Content Store miss for a new entry under best-route, with the token registered.\<close>

lemma miss_out:
  assumes "fw_inv s" "attached (fw_pit s) e" "r < fw_nextInterest s"
    and "pe_interest (entry_of s e) = r \<or> matchesInterest (pit_interest s e) (interest_of s r) \<and> i_forwardingHint (pit_interest s e) = []"
    and "i_forwardingHint (interest_of s r) = []" "isReflexiveInterestFromProducer (interest_of s r) = Inr False"
    and "isReflexiveInterest (interest_of s r)" "i_nextHopFaceId (interest_of s r) = None"
    and "pe_in (entry_of s e) = []" "pe_out (entry_of s e) = []"
    and "effective (sc_at (pit_nt (fw_pit s))) (i_name (pit_interest s e)) = Some st" "st_type st = BestRouteStrategy"
    and "find (can_go (fw_faces s) f (interest_of s r))
      (fe_nextHops (fib_findLongestPrefixMatch (pit_nt (fw_pit s)) (i_name (pit_interest s e)))) = Some nh"
    and "\<not> (i_hopLimit (default_hop s (interest_of s r)) = Some 0 \<and> f_scope (face_of s (nh_face nh)) = NON_LOCAL)"
  defines "tok \<equiv> Some (setPitToken (fst (nameToToken (fw_assist s) (i_name (interest_of s r)))))"
  shows "\<exists>s' rec. onContentStoreMiss r f e s = Inr s' \<and> acts s s' \<and>
    fw_out s' = fw_out s @ [OutInterest (nh_face nh) ((default_hop s (interest_of s r))\<lparr>i_pitToken := tok\<rparr>)] \<and>
    pe_in (entry_of s' e) = [rec] \<and> ir_face rec = f \<and> ir_interest rec = r \<and> ir_expiry rec = expiry_of (fw_now s) (interest_of s r) \<and>
    i_pitToken (interest_of s' r) = tok"
proof -
  have m: "matchesInterest (pit_interest s e) (interest_of s r)" "i_forwardingHint (pit_interest s e) = []"
    using assms(4,5) by (auto simp: pit_interest_def matchesInterest_def)
  define s0 where "s0 = count (\<lambda>c. c\<lparr>nCsMisses := nCsMisses c + 1\<rparr>) s"
  have a0: "acts s s0" by (simp add: s0_def)
  have s0: "interest_of s0 = interest_of s" "entry_of s0 = entry_of s" "pit_interest s0 = pit_interest s" "fw_out s0 = fw_out s"
      "fw_faces s0 = fw_faces s" "fw_now s0 = fw_now s" "default_hop s0 = default_hop s" "fw_nextInterest s0 = fw_nextInterest s" "with_in_record r f s0 = with_in_record r f s"
    by (simp_all add: s0_def fw_defs fun_eq_iff default_hop_def with_in_record_def)
  have r0: "ready r e s0" by (rule ready_stable [OF _ a0]) (use assms m in \<open>auto simp: ready_def\<close>)
  obtain s1 t where s1: "insert_in_record r f e s0 = Inr s1" "acts s0 s1" "fw_out s1 = fw_out s" "fw_faces s1 = fw_faces s"
      "interest_of s1 = (interest_of s)(r := default_hop s (interest_of s r))"
      "entry_of s1 = (entry_of s)(e := (with_in_record r f s (entry_of s e))\<lparr>pe_expiryTimer := Some t\<rparr>)"
    using insert_in_record_ok [of r s0 e f] assms(3) m(1) unfolding s0 by metis
  note a01 = acts_trans [OF a0 s1(2)]
  have A: "fw_assist s1 = fw_assist s" "pit_nt (fw_pit s1) = pit_nt (fw_pit s)" "fw_nextInterest s \<le> fw_nextInterest s1"
    using actsD(1) [OF a01] by (auto simp: stable_def)
  define s2 where "s2 = modify_interest r (\<lambda>i. i\<lparr>i_pitToken := Some (setPitToken (fst (nameToToken (fw_assist s1) (i_name i))))\<rparr>) s1"
  have a2: "acts s1 s2" by (simp add: s2_def acts_interest)
  note a02 = acts_trans [OF a01 a2]
  have s2: "interest_of s2 r = (default_hop s (interest_of s r))\<lparr>i_pitToken := tok\<rparr>" "entry_of s2 = entry_of s1" "fw_out s2 = fw_out s"
      "fw_faces s2 = fw_faces s" "fw_assist s2 = fw_assist s" "pit_nt (fw_pit s2) = pit_nt (fw_pit s)" "fw_nextInterest s2 = fw_nextInterest s1"
    using s1 A by (auto simp: s2_def tok_def modify_interest_def interest_of_def entry_of_def fun_eq_iff)
  have r2: "ready r e s2" by (rule ready_stable [OF ready_stable [OF r0 s1(2)] a2])
  have key: "same_key (pit_interest s e) (pit_interest s2 e)" by (rule stable_pit_interest [OF actsD(1) [OF a02] assms(1,2)])
  have hint: "i_forwardingHint (pit_interest s2 e) = []" "i_name (pit_interest s2 e) = i_name (pit_interest s e)"
    using key m(2) same_key_name [OF key] by (auto simp: same_key_def)
  have st2: "effective_strategy e s2 = Inr st" using effective_strategy_ok [of s2 e] r2 assms(11) hint(2) s2(6) by (auto simp: ready_def)
  have np2: "isReflexiveInterestFromProducer (interest_of s2 r) = Inr False" using assms(6) by (simp add: s2(1))
  have "can_go (fw_faces s2) f (interest_of s2 r) = can_go (fw_faces s) f (interest_of s r)"
    by (rule ext) (simp add: can_go_def wouldViolateScope_def s2)
  then obtain s3 where s3: "bestRoute_afterReceiveInterest (st_retx st) r f e s2 = Inr s3" "acts s2 s3" "fw_out s3 = fw_out s2 @ sent r (nh_face nh) e None s2"
      "\<And>e'. pe_in (entry_of s3 e') = pe_in (entry_of s2 e')"
      "i_pitToken (interest_of s2 r) \<noteq> None \<longrightarrow> (\<forall>r' < fw_nextInterest s2. interest_of s3 r' = interest_of s2 r')"
    using bestRoute_new_out [OF r2 np2 _ hint(1), of f nh "st_retx st"] assms(10,13) s1(6) hint(2) s2(2,6)
    by (auto simp: with_in_record_def)
  have "sent r (nh_face nh) e None s2 = [OutInterest (nh_face nh) ((default_hop s (interest_of s r))\<lparr>i_pitToken := tok\<rparr>)]"
    using assms(6,7,14) s2 by (simp add: sent_def hop_limit_drop_def token_for_def isReflexiveInterest_def face_of_def tok_def)
  moreover have "onContentStoreMiss r f e s = Inr s3"
    using assms(7,8,12) s1 st2 s3(1) unfolding onContentStoreMiss_def s0_def [symmetric] s1(1) bind_res_Inr
    by (simp add: isReflexiveInterest_def s2_def [symmetric] afterReceiveInterest_def)
  moreover have "pe_in (entry_of s3 e) = [inRecord_update (fw_now s) r (interest_of s r) (new_in_record f)]"
    using s3(4) s2(2) s1(6) assms(9) by (simp add: with_in_record_def upsert_def)
  moreover have "i_pitToken (interest_of s3 r) = tok" using s3(5) s2(1,7) A(3) assms(3) by (simp add: tok_def)
  ultimately show ?thesis
    using acts_trans [OF a02 s3(2)] s3(3) s2(3)
    by (intro exI [of _ s3] exI [of _ "inRecord_update (fw_now s) r (interest_of s r) (new_in_record f)"])
      (auto simp: inRecord_update_def new_in_record_def)
qed

text \<open>What the theorems on the consumer's Interest assume of the state and the Interest.\<close>

definition consumer_case :: "fw \<Rightarrow> face_id \<Rightarrow> interest \<Rightarrow> 32 word \<Rightarrow> 32 word \<Rightarrow> next_hop \<Rightarrow> bool" where
  "consumer_case s f i nonce t0 nh \<longleftrightarrow>
     accepts s f i nonce \<and> interest_ok i \<and> readInterestPitToken i = Inr t0 \<and> isReflexiveInterestFromProducer i = Inr False \<and>
     isReflexiveInterest i \<and> i_nextHopFaceId i = None \<and> \<not> existName (fw_assist s) (i_name i) \<and>
     (\<forall>e. attached (fw_pit s) e \<longrightarrow> i_name (pit_interest s e) \<noteq> i_name i) \<and>
     cs_findImpl (fw_now s) (received f i) (fw_cs s) = Inr (None, fw_cs s) \<and>
     (\<exists>st. effective (sc_at (pit_nt (fw_pit s))) (i_name i) = Some st \<and> st_type st = BestRouteStrategy) \<and>
     find (can_go (fw_faces s) f i) (fe_nextHops (fib_findLongestPrefixMatch (pit_nt (fw_pit s)) (i_name i))) = Some nh \<and>
     \<not> (i_hopLimit (default_hop s (received f i)) = Some 0 \<and> f_scope (face_of s (nh_face nh)) = NON_LOCAL)"

lemma register_new:
  assumes "fw_inv s" "interest_ok (interest_of s r)" "tokens_available s" "isReflexiveInterest (interest_of s r)"
    and "\<not> existName (fw_assist s) (i_name (interest_of s r))" "readInterestPitToken (interest_of s r) = Inr t0"
  obtains t k where "usable_token (fw_assist s) t" "assist_inv (recordToken (fw_assist s) (i_name (interest_of s r)) t t0)"
    "register_token r s = Inr (s\<lparr>fw_assist := recordToken (fw_assist s) (i_name (interest_of s r)) t t0, fw_drawn := k\<rparr>)"
  using register_token_ok [OF assms(1-3)] assms(4-6) that by auto

lemma entry_at_update:
  "fib_at nt = fib_at nt' \<Longrightarrow> fib_findLongestPrefixMatch nt n = fib_findLongestPrefixMatch nt' n"
  unfolding fib_findLongestPrefixMatch_def by (simp only: fib_table.lpm_at entry_at_def)

lemma consumer_forwarded:
  assumes "fw_inv s" "tokens_available s" "consumer_case s f i nonce t0 nh"
  shows "\<exists>s' t e rec. onIncomingInterest i f s = Inr s' \<and> fw_inv s' \<and> usable_token (fw_assist s) t \<and>
    fw_assist s' = recordToken (fw_assist s) (i_name i) t t0 \<and>
    fw_out s' = fw_out s @ [OutInterest (nh_face nh) (forwarded s f i (Some (setPitToken t)))] \<and>
    only_entry s' (i_name i) e \<and> pe_in (entry_of s' e) = [rec] \<and> ir_face rec = f \<and> ir_expiry rec = expiry_of (fw_now s) i \<and>
    i_pitToken (interest_of s' (ir_interest rec)) = Some (setPitToken t) \<and>
    sc_at (pit_nt (fw_pit s')) = sc_at (pit_nt (fw_pit s)) \<and> fw_now s' = fw_now s \<and> matchesInterest (pit_interest s' e) i \<and>
    fw_dnl s' = fw_dnl s \<and> fw_defaultHopLimit s' = fw_defaultHopLimit s \<and>
    (\<forall>g. f_scope (face_of s' g) = f_scope (face_of s g) \<and> f_linkType (face_of s' g) = f_linkType (face_of s g) \<and> f_inTable (face_of s' g) = f_inTable (face_of s g)) \<and>
    (\<forall>e'. attached (fw_pit s') e' \<longrightarrow> e' = e \<or> attached (fw_pit s) e' \<and> same_key (pit_interest s e') (pit_interest s' e'))"
proof -
  note C = assms(3) [unfolded consumer_case_def]
  have acc: "accepts s f i nonce" and np: "isReflexiveInterestFromProducer i = Inr False" using C by auto
  obtain st where st: "effective (sc_at (pit_nt (fw_pit s))) (i_name i) = Some st" "st_type st = BestRouteStrategy" using C by auto
  define r where "r = fw_nextInterest s"
  obtain p e new where p: "findOrInsert (fw_interests (stored s f i)) r True (fw_pit s) = Inr (p, Some e, new)"
    "fw_inv ((stored s f i)\<lparr>fw_pit := p\<rparr>)" "attached p e"
    "matchesInterest (pit_interest ((stored s f i)\<lparr>fw_pit := p\<rparr>) e) (received f i)"
    "\<And>e'. attached (fw_pit s) e' \<Longrightarrow> attached p e' \<and> pit_entries p e' = pit_entries (fw_pit s) e'"
    "\<And>e'. attached p e' \<Longrightarrow> attached (fw_pit s) e' \<or> e' = e"
    "new \<Longrightarrow> pe_in (pit_entries p e) = [] \<and> pe_out (pit_entries p e) = [] \<and> pe_expiryTimer (pit_entries p e) = None \<and>
       pe_interest (pit_entries p e) = r"
    "new \<longleftrightarrow> \<not> (\<exists>e'. attached (fw_pit s) e' \<and> matchesInterest (pit_interest s e') i)"
    "fib_at (pit_nt p) = fib_at (pit_nt (fw_pit s))" "sc_at (pit_nt p) = sc_at (pit_nt (fw_pit s))"
    unfolding r_def by (rule accepted_entry [OF assms(1) acc]) blast
  define s2 where "s2 = (stored s f i)\<lparr>fw_pit := p\<rparr>"
  have i2: "fw_inv s2" using p(2) by (simp add: s2_def)
  have r2: "interest_of s2 r = received f i" "r < fw_nextInterest s2" "fw_assist s2 = fw_assist s" "fw_pit s2 = p" "entry_of s2 = pit_entries p"
    by (simp_all add: s2_def r_def)
  have new: new unfolding p(8) using C by (auto simp: matchesInterest_def)
  note E = p(7) [OF new]
  have pe: "pit_interest s2 e = received f i" using E r2 by (simp add: pit_interest_def)
  have avail: "tokens_available s2" using assms(2) by (simp add: tokens_available_def s2_def)
  obtain t k where t: "usable_token (fw_assist s2) t" "assist_inv (recordToken (fw_assist s2) (i_name (interest_of s2 r)) t t0)"
      "register_token r s2 = Inr (s2\<lparr>fw_assist := recordToken (fw_assist s2) (i_name (interest_of s2 r)) t t0, fw_drawn := k\<rparr>)"
    by (rule register_new [where s = s2 and r = r and ?t0.0 = t0])
      (use C i2 avail in \<open>auto simp: r2 isReflexiveInterest_def readInterestPitToken_def\<close>)
  define a where "a = recordToken (fw_assist s) (i_name i) t t0"
  define s3 where "s3 = s2\<lparr>fw_assist := a, fw_drawn := k\<rparr>"
  have t': "usable_token (fw_assist s) t" "register_token r s2 = Inr s3" "assist_inv a" using t by (simp_all add: a_def s3_def r2)
  have i3: "fw_inv s3" unfolding s3_def by (rule fw_inv_assist [OF i2 t'(3)])
  have s3: "interest_of s3 = interest_of s2" "entry_of s3 = pit_entries p" "pit_interest s3 = pit_interest s2" "fw_pit s3 = p" "fw_assist s3 = a"
      "fw_out s3 = fw_out s" "fw_faces s3 = fw_faces s" "face_of s3 = face_of s" "fw_cs s3 = fw_cs s" "fw_now s3 = fw_now s" "default_hop s3 = default_hop s"
      "fw_nextInterest s3 = fw_nextInterest s2" "s3\<lparr>fw_cs := fw_cs s\<rparr> = s3"
    by (simp_all add: s3_def fw_defs fun_eq_iff default_hop_def) (simp_all add: s2_def)
  have loop: "\<not> isInterestLoop nonce f e s3"
    using E findDuplicateNonce_none [of "entry_of s3 e" nonce f] by (auto simp: isInterestLoop_def s3 Let_def)
  have "onIncomingInterest i f s = cs_lookup r f e s3"
    unfolding accepts_process [OF acc] r_def [symmetric] process_stored [OF acc p(1) [unfolded r_def] np, folded r_def] Let_def
    using loop E t'(2) by (simp add: s2_def [symmetric] s3)
  also have "\<dots> = onContentStoreMiss r f e s3" using C by (simp add: cs_lookup_def s3 r2 Let_def)
  finally have run: "onIncomingInterest i f s = onContentStoreMiss r f e s3" .
  have go: "can_go (fw_faces s) f (received f i) = can_go (fw_faces s) f i"
    by (rule ext) (simp add: can_go_def wouldViolateScope_def)
  have tok: "fst (nameToToken a (i_name i)) = t" by (simp add: a_def recordToken_def nameToToken_def)
  obtain s' rec where s': "onContentStoreMiss r f e s3 = Inr s'" "acts s3 s'"
      "fw_out s' = fw_out s @ [OutInterest (nh_face nh) (forwarded s f i (Some (setPitToken t)))]"
      "pe_in (entry_of s' e) = [rec]" "ir_face rec = f" "ir_interest rec = r" "ir_expiry rec = expiry_of (fw_now s) (received f i)"
      "i_pitToken (interest_of s' r) = Some (setPitToken t)"
    using miss_out [where s = s3 and e = e and r = r and f = f and nh = nh and st = st] i3 p(3,10) E C st r2 pe go tok
      entry_at_update [OF p(9), of "i_name i"]
    by (auto simp: s3 isReflexiveInterest_def accepts_def forwarded_def)
  have key: "i_name (pit_interest s' e') = i_name (pit_interest s2 e')" "attached (fw_pit s') e'" if "attached p e'" for e'
    using same_key_name [OF stable_pit_interest [OF actsD(1) [OF s'(2)] i3, of e']] stable_attached [OF actsD(1) [OF s'(2)]] that
    by (simp_all add: s3)
  have same: "pit_interest s2 e' = pit_interest s e'" if "attached (fw_pit s) e'" for e'
    using stored_inv(3) [OF assms(1) that, of f i] p(5) [OF that] by (simp add: s2_def pit_interest_def entry_of_def)
  then have old: "i_name (pit_interest s2 e') \<noteq> i_name i" if "attached (fw_pit s) e'" for e' using C that by auto
  have frame: "\<forall>e'. attached (fw_pit s') e' \<longrightarrow> e' = e \<or> attached (fw_pit s) e' \<and> same_key (pit_interest s e') (pit_interest s' e')"
    using stable_pit_interest [OF actsD(1) [OF s'(2)] i3] stable_attached [OF actsD(1) [OF s'(2)]] p(6) same s3(3,4) by metis
  have "only_entry s' (i_name i) e"
    using key p(3,6) old pe stable_attached [OF actsD(1) [OF s'(2)]] s3(4) by (fastforce simp: only_entry_def)
  moreover have "matchesInterest (pit_interest s' e) i"
    using stable_pit_interest [OF actsD(1) [OF s'(2)] i3, of e] p(3) pe by (simp add: s3 same_key_def matchesInterest_def)
  moreover have "fw_dnl s3 = fw_dnl s" "fw_defaultHopLimit s3 = fw_defaultHopLimit s" by (simp_all add: s3_def s2_def stored_def fw_defs)
  moreover have "fw_assist s' = a" "pit_nt (fw_pit s') = pit_nt p" "fw_now s' = fw_now s" "fw_dnl s' = fw_dnl s3" "fw_defaultHopLimit s' = fw_defaultHopLimit s3"
      "\<forall>g. f_scope (face_of s' g) = f_scope (face_of s g) \<and> f_linkType (face_of s' g) = f_linkType (face_of s g) \<and> f_inTable (face_of s' g) = f_inTable (face_of s g)"
    using actsD(1) [OF s'(2)] s3 by (auto simp: stable_def)
  ultimately show ?thesis
    using run s' actsD(2) [OF s'(2) i3] t'(1) p(10) frame
    by (intro exI [of _ s'] exI [of _ t] exI [of _ e] exI [of _ rec]) (auto simp: a_def expiry_of_def)
qed

section \<open>The exchange\<close>

lemma accepts_cong:
  assumes "fw_dnl s1 = fw_dnl s" "f_scope (face_of s1 g) = f_scope (face_of s g)"
  shows "accepts s1 g (j\<lparr>i_pitToken := tok\<rparr>) nonce = accepts s g j nonce"
  using assms by (simp add: accepts_def)

lemma exchange_run:
  assumes "fw_inv s" "tokens_available s" "consumer_case s f i nonce t0 nh" "nteDepth (i_name i) = length (i_name i)"
    and "accepts s g j nonce'" "isReflexiveInterestFromProducer j = Inr True"
    and "effective (sc_at (pit_nt (fw_pit s))) (i_name j) = Some st" "st_type st = BestRouteStrategy"
    and "\<not> (i_hopLimit (default_hop s (received g j)) = Some 0 \<and> f_scope (face_of s f) = NON_LOCAL)"
  obtains s1 s2 t e where "onIncomingInterest i f s = Inr s1" "t \<noteq> 0"
    "fw_out s1 = fw_out s @ [OutInterest (nh_face nh) (forwarded s f i (Some (setPitToken t)))]"
    "onIncomingInterest (j\<lparr>i_pitToken := Some (setPitToken t)\<rparr>) g s1 = Inr s2" "fw_inv s2"
    "fw_out s2 = fw_out s1 @ [OutInterest f (forwarded s g j (Some (setPitToken t0)))]"
    "fw_now s1 = fw_now s" "fw_now s2 = fw_now s"
    "\<forall>g. f_scope (face_of s2 g) = f_scope (face_of s g) \<and> f_linkType (face_of s2 g) = f_linkType (face_of s g) \<and> f_inTable (face_of s2 g) = f_inTable (face_of s g)"
    "matchesInterest (pit_interest s1 e) i"
    "\<forall>e'. attached (fw_pit s1) e' \<longrightarrow> e' = e \<or> attached (fw_pit s) e' \<and> same_key (pit_interest s e') (pit_interest s1 e')"
    "(\<forall>e. attached (fw_pit s1) e \<longrightarrow> \<not> matchesInterest (pit_interest s1 e) j) \<longrightarrow> answered_on s1 s2 g j (setPitToken t0)"
proof -
  obtain s1 t e rec where s1: "onIncomingInterest i f s = Inr s1" "fw_inv s1" "usable_token (fw_assist s) t"
      "fw_assist s1 = recordToken (fw_assist s) (i_name i) t t0"
      "fw_out s1 = fw_out s @ [OutInterest (nh_face nh) (forwarded s f i (Some (setPitToken t)))]"
      "only_entry s1 (i_name i) e" "pe_in (entry_of s1 e) = [rec]" "ir_face rec = f"
      "sc_at (pit_nt (fw_pit s1)) = sc_at (pit_nt (fw_pit s))" "fw_dnl s1 = fw_dnl s" "fw_defaultHopLimit s1 = fw_defaultHopLimit s"
      "\<forall>g. f_scope (face_of s1 g) = f_scope (face_of s g) \<and> f_linkType (face_of s1 g) = f_linkType (face_of s g) \<and> f_inTable (face_of s1 g) = f_inTable (face_of s g)"
      "fw_now s1 = fw_now s" "matchesInterest (pit_interest s1 e) i"
      "\<forall>e'. attached (fw_pit s1) e' \<longrightarrow> e' = e \<or> attached (fw_pit s) e' \<and> same_key (pit_interest s e') (pit_interest s1 e')"
    using consumer_forwarded [OF assms(1-3)] by metis
  have np: "isReflexiveInterestFromProducer i = Inr False" using assms(3) by (simp add: consumer_case_def)
  have t: "t \<noteq> 0" using s1(3) assist_invD(1) [OF fw_invD(6) [OF assms(1)]] by (auto simp: usable_token_def)
  define j' where "j' = j\<lparr>i_pitToken := Some (setPitToken t)\<rparr>"
  have acc: "accepts s1 g j' nonce'" unfolding j'_def using accepts_cong [of s1 s] s1(10,12) assms(5) by simp
  have p: "isReflexiveInterestFromProducer j' = Inr True" using assms(6) fromProducer_name_cong [of j' j] by (simp add: j'_def)
  have tok: "readInterestPitToken j' = Inr t" by (simp add: j'_def readInterestPitToken_def)
  have known: "tokenToName (fw_assist s1) t = (i_name i, True)" "fst (nameToPrevToken (fw_assist s1) (i_name i)) = t0"
    by (simp_all add: s1(4) recordToken_def nameToPrevToken_def)
  have ne: "i_name j' \<noteq> i_name i" using p np fromProducer_name_cong [of j' i] by auto
  have eff: "effective (sc_at (pit_nt (fw_pit s1))) (i_name j') = Some st" using assms(7) s1(9) by (simp add: j'_def)
  have out: "forwarded s1 g j' (Some (setPitToken t0)) = forwarded s g j (Some (setPitToken t0))"
    using s1(11) by (simp add: forwarded_def j'_def received_def default_hop_def)
  have hop: "i_hopLimit (forwarded s g j (Some (setPitToken t0))) = i_hopLimit (default_hop s (received g j))" by (simp add: forwarded_def)
  obtain s2 where "onIncomingInterest j' g s1 = Inr s2" "fw_inv s2" "fw_out s2 = fw_out s1 @ [OutInterest f (forwarded s g j (Some (setPitToken t0)))]"
      "fw_now s2 = fw_now s1" "\<forall>g. f_scope (face_of s2 g) = f_scope (face_of s1 g) \<and> f_linkType (face_of s2 g) = f_linkType (face_of s1 g) \<and>
        f_inTable (face_of s2 g) = f_inTable (face_of s1 g)"
      "(\<forall>e. attached (fw_pit s1) e \<longrightarrow> \<not> matchesInterest (pit_interest s1 e) j') \<longrightarrow> answered_on s1 s2 g j' (setPitToken t0)"
    using ri_delivered [OF s1(2) acc p tok t known(1) s1(6) assms(4) ne s1(7) eff assms(8)] assms(9) s1(8,12) hop unfolding known(2) out by auto
  moreover have "matchesInterest x j' = matchesInterest x j" for x by (simp add: j'_def matchesInterest_def)
  moreover have "answered_on s1 s2 g j' tok = answered_on s1 s2 g j tok" for s2 tok
    unfolding answered_on_def by (simp add: j'_def matchesInterest_def expiry_of_def)
  ultimately show ?thesis using that [of s1 t s2 e] s1 t unfolding j'_def by simp
qed

lemma exchange:
  assumes "fw_inv s" "tokens_available s" "consumer_case s f i nonce t0 nh" "nteDepth (i_name i) = length (i_name i)"
    and "accepts s g j nonce'" "isReflexiveInterestFromProducer j = Inr True"
    and "effective (sc_at (pit_nt (fw_pit s))) (i_name j) = Some st" "st_type st = BestRouteStrategy"
    and "\<not> (i_hopLimit (default_hop s (received g j)) = Some 0 \<and> f_scope (face_of s f) = NON_LOCAL)"
  shows "\<exists>s1 s2 t. onIncomingInterest i f s = Inr s1 \<and> t \<noteq> 0 \<and>
    fw_out s1 = fw_out s @ [OutInterest (nh_face nh) (forwarded s f i (Some (setPitToken t)))] \<and>
    onIncomingInterest (j\<lparr>i_pitToken := Some (setPitToken t)\<rparr>) g s1 = Inr s2 \<and> fw_inv s2 \<and>
    fw_out s2 = fw_out s1 @ [OutInterest f (forwarded s g j (Some (setPitToken t0)))]"
  by (rule exchange_run [OF assms]) blast

text \<open>Data for the reflexive Interest goes back to the producer.\<close>

lemma exchange_data:
  assumes "fw_inv s" "tokens_available s" "consumer_case s f i nonce t0 nh" "nteDepth (i_name i) = length (i_name i)"
    and "accepts s g j nonce'" "isReflexiveInterestFromProducer j = Inr True"
    and "effective (sc_at (pit_nt (fw_pit s))) (i_name j) = Some st" "st_type st = BestRouteStrategy"
    and "\<not> (i_hopLimit (default_hop s (received g j)) = Some 0 \<and> f_scope (face_of s f) = NON_LOCAL)"
    and "data_ok d" "matchesData j d" "\<not> matchesData i d" "\<forall>e. attached (fw_pit s) e \<longrightarrow> \<not> matchesData (pit_interest s e) d"
    and "\<not> isPrefixOf LOCALHOST (d_name d)" "g \<noteq> f" "f_inTable (face_of s g)" "0 < i_lifetime j"
  shows "\<exists>s1 s2 s3 t. onIncomingInterest i f s = Inr s1 \<and> t \<noteq> 0 \<and>
    fw_out s1 = fw_out s @ [OutInterest (nh_face nh) (forwarded s f i (Some (setPitToken t)))] \<and>
    onIncomingInterest (j\<lparr>i_pitToken := Some (setPitToken t)\<rparr>) g s1 = Inr s2 \<and>
    fw_out s2 = fw_out s1 @ [OutInterest f (forwarded s g j (Some (setPitToken t0)))] \<and>
    onIncomingData d f s2 = Inr s3 \<and> fw_inv s3 \<and>
    fw_out s3 = fw_out s2 @ [OutData g (d\<lparr>d_incomingFaceId := Some f, d_pitToken := Some (setPitToken t0)\<rparr>)]"
proof -
  obtain s1 s2 t e1 where x: "onIncomingInterest i f s = Inr s1" "t \<noteq> 0"
    "fw_out s1 = fw_out s @ [OutInterest (nh_face nh) (forwarded s f i (Some (setPitToken t)))]"
    "onIncomingInterest (j\<lparr>i_pitToken := Some (setPitToken t)\<rparr>) g s1 = Inr s2" "fw_inv s2"
    "fw_out s2 = fw_out s1 @ [OutInterest f (forwarded s g j (Some (setPitToken t0)))]" "fw_now s1 = fw_now s" "fw_now s2 = fw_now s"
    "\<forall>g. f_scope (face_of s2 g) = f_scope (face_of s g) \<and> f_linkType (face_of s2 g) = f_linkType (face_of s g) \<and> f_inTable (face_of s2 g) = f_inTable (face_of s g)"
    "matchesInterest (pit_interest s1 e1) i"
    "\<forall>e'. attached (fw_pit s1) e' \<longrightarrow> e' = e1 \<or> attached (fw_pit s) e' \<and> same_key (pit_interest s e') (pit_interest s1 e')"
    "(\<forall>e. attached (fw_pit s1) e \<longrightarrow> \<not> matchesInterest (pit_interest s1 e) j) \<longrightarrow> answered_on s1 s2 g j (setPitToken t0)"
    by (rule exchange_run [OF assms(1-9)])
  have none: "\<not> matchesData (pit_interest s1 e) d" if "attached (fw_pit s1) e" for e
    using x(10,11) that assms(12,13) matchesData_matches matchesData_same_key by metis
  then have "\<forall>e. attached (fw_pit s1) e \<longrightarrow> \<not> matchesInterest (pit_interest s1 e) j" using assms(11) matchesData_matches by blast
  then obtain e rec where e: "attached (fw_pit s2) e" "matchesInterest (pit_interest s2 e) j" "pe_in (entry_of s2 e) = [rec]" "ir_face rec = g"
      "ir_expiry rec = expiry_of (fw_now s) j" "i_pitToken (interest_of s2 (ir_interest rec)) = Some (setPitToken t0)"
      "\<forall>e'. attached (fw_pit s2) e' \<longrightarrow> e' = e \<or> attached (fw_pit s1) e' \<and> same_key (pit_interest s1 e') (pit_interest s2 e')"
    using x(12) by (auto simp: answered_on_def x(7))
  have "matchesData (pit_interest s2 e) d" using e(2) assms(11) matchesData_matches by blast
  then have one: "{e. attached (fw_pit s2) e \<and> matchesData (pit_interest s2 e) d} = {e}"
    using e(1,7) none matchesData_same_key by blast
  have "0 < min (i_lifetime j) MAX_LIFETIME" using assms(17) by (simp add: MAX_LIFETIME_def)
  then have "pending s2 f rec" using e(4,5) x(8) assms(15) by (simp add: pending_def expiry_of_def)
  moreover have "delivered (d\<lparr>d_incomingFaceId := Some f\<rparr>) rec s2 = [OutData g (d\<lparr>d_incomingFaceId := Some f, d_pitToken := Some (setPitToken t0)\<rparr>)]"
    using e(4,6) x(9) assms(14,16) by (simp add: delivered_def data_allowed_def data_for_def)
  ultimately obtain s3 where "onIncomingData d f s2 = Inr s3" "fw_inv s3"
      "fw_out s3 = fw_out s2 @ [OutData g (d\<lparr>d_incomingFaceId := Some f, d_pitToken := Some (setPitToken t0)\<rparr>)]"
    using onIncomingData_single [OF x(5) assms(10) _ one, of f] assms(14) e(3) by auto
  then show ?thesis using x(1-4,6) by blast
qed

text \<open>The consumer's Data comes back with the token of the next hop.\<close>

lemma consumer_pending:
  assumes "fw_inv s" "tokens_available s" "consumer_case s f i nonce t0 nh"
    and "matchesData i d" "\<forall>e. attached (fw_pit s) e \<longrightarrow> \<not> matchesData (pit_interest s e) d"
    and "\<not> isPrefixOf LOCALHOST (d_name d)" "g \<noteq> f" "f_inTable (face_of s f)" "0 < i_lifetime i"
  obtains s1 t e rec where "onIncomingInterest i f s = Inr s1" "fw_inv s1" "usable_token (fw_assist s) t"
    "{e. attached (fw_pit s1) e \<and> matchesData (pit_interest s1 e) d} = {e}" "pe_in (entry_of s1 e) = [rec]" "pending s1 g rec"
    "delivered (d\<lparr>d_incomingFaceId := Some g\<rparr>) rec s1 = [OutData f (d\<lparr>d_incomingFaceId := Some g, d_pitToken := Some (setPitToken t)\<rparr>)]"
proof -
  obtain s1 t e rec where s1: "onIncomingInterest i f s = Inr s1" "fw_inv s1" "usable_token (fw_assist s) t"
      "only_entry s1 (i_name i) e" "pe_in (entry_of s1 e) = [rec]" "ir_face rec = f" "ir_expiry rec = expiry_of (fw_now s) i"
      "i_pitToken (interest_of s1 (ir_interest rec)) = Some (setPitToken t)" "fw_now s1 = fw_now s" "matchesInterest (pit_interest s1 e) i"
      "\<forall>g. f_inTable (face_of s1 g) = f_inTable (face_of s g)"
      "\<forall>e'. attached (fw_pit s1) e' \<longrightarrow> e' = e \<or> attached (fw_pit s) e' \<and> same_key (pit_interest s e') (pit_interest s1 e')"
    using consumer_forwarded [OF assms(1-3)] by metis
  have "attached (fw_pit s1) e" using s1(4) by (auto simp: only_entry_def)
  moreover have "matchesData (pit_interest s1 e) d" using s1(10) assms(4) matchesData_matches by blast
  ultimately have one: "{e. attached (fw_pit s1) e \<and> matchesData (pit_interest s1 e) d} = {e}"
    using s1(12) assms(5) matchesData_same_key by blast
  have "0 < min (i_lifetime i) MAX_LIFETIME" using assms(9) by (simp add: MAX_LIFETIME_def)
  then have "pending s1 g rec" using s1(6,7,9) assms(7) by (simp add: pending_def expiry_of_def)
  moreover have "delivered (d\<lparr>d_incomingFaceId := Some g\<rparr>) rec s1 = [OutData f (d\<lparr>d_incomingFaceId := Some g, d_pitToken := Some (setPitToken t)\<rparr>)]"
    using s1(6,8,11) assms(6,8) by (simp add: delivered_def data_allowed_def data_for_def)
  ultimately show ?thesis using that s1(1-3,5) one by blast
qed

lemma data_token:
  assumes "fw_inv s" "tokens_available s" "consumer_case s f i nonce t0 nh"
    and "data_ok d" "matchesData i d" "\<forall>e. attached (fw_pit s) e \<longrightarrow> \<not> matchesData (pit_interest s e) d"
    and "\<not> isPrefixOf LOCALHOST (d_name d)" "g \<noteq> f" "f_inTable (face_of s f)" "0 < i_lifetime i"
  shows "\<exists>s1 s2 t. onIncomingInterest i f s = Inr s1 \<and> usable_token (fw_assist s) t \<and> onIncomingData d g s1 = Inr s2 \<and>
    fw_out s2 = fw_out s1 @ [OutData f (d\<lparr>d_incomingFaceId := Some g, d_pitToken := Some (setPitToken t)\<rparr>)]"
proof -
  obtain s1 t e rec where s1: "onIncomingInterest i f s = Inr s1" "fw_inv s1" "usable_token (fw_assist s) t"
    "{e. attached (fw_pit s1) e \<and> matchesData (pit_interest s1 e) d} = {e}" "pe_in (entry_of s1 e) = [rec]" "pending s1 g rec"
    "delivered (d\<lparr>d_incomingFaceId := Some g\<rparr>) rec s1 = [OutData f (d\<lparr>d_incomingFaceId := Some g, d_pitToken := Some (setPitToken t)\<rparr>)]"
    by (rule consumer_pending [OF assms(1-3,5-10)])
  then show ?thesis using onIncomingData_single [OF s1(2) assms(4) _ s1(4), of g] assms(7) by auto
qed

section \<open>Rejected reflexive Interests\<close>

text \<open>
  A producer's Interest without a token, or with one that is not registered, is answered with a
  Nack; the PIT entry made for it stays, without records and without a timer.
\<close>

lemma ri_rejected_entry:
  assumes "fw_inv s" "accepts s f i nonce" "isReflexiveInterestFromProducer i = Inr True"
    and "readInterestPitToken i = Inr t" "t = 0 \<or> \<not> snd (tokenToName (fw_assist s) t)"
    and "\<forall>e. attached (fw_pit s) e \<longrightarrow> \<not> matchesInterest (pit_interest s e) i"
  shows "\<exists>s' e. onIncomingInterest i f s = Inr s' \<and> fw_inv s' \<and>
    fw_out s' = fw_out s @ [OutNack f \<lparr>n_interest = received f i, n_reason = (if t = 0 then NONE else NO_ROUTE)\<rparr>] \<and>
    \<not> attached (fw_pit s) e \<and> attached (fw_pit s') e \<and> pe_in (entry_of s' e) = [] \<and> pe_expiryTimer (entry_of s' e) = None"
proof -
  obtain p e new where p: "findOrInsert (fw_interests (stored s f i)) (fw_nextInterest s) True (fw_pit s) = Inr (p, Some e, new)"
    "fw_inv ((stored s f i)\<lparr>fw_pit := p\<rparr>)" "attached p e"
    "matchesInterest (pit_interest ((stored s f i)\<lparr>fw_pit := p\<rparr>) e) (received f i)"
    "\<And>e'. attached (fw_pit s) e' \<Longrightarrow> attached p e' \<and> pit_entries p e' = pit_entries (fw_pit s) e'"
    "new \<Longrightarrow> pe_in (pit_entries p e) = [] \<and> pe_out (pit_entries p e) = [] \<and> pe_expiryTimer (pit_entries p e) = None \<and>
       pe_interest (pit_entries p e) = fw_nextInterest s"
    "new \<longleftrightarrow> \<not> (\<exists>e'. attached (fw_pit s) e' \<and> matchesInterest (pit_interest s e') i)"
    by (rule accepted_entry [OF assms(1,2)]) blast
  define s2 where "s2 = (stored s f i)\<lparr>fw_pit := p\<rparr>"
  have E: "pe_in (pit_entries p e) = []" "pe_expiryTimer (pit_entries p e) = None" "pe_interest (pit_entries p e) = fw_nextInterest s"
    using p(6,7) assms(6) by auto
  have "\<not> attached (fw_pit s) e" using fw_invD(2) [OF assms(1), of e] E(3) p(5) [of e] by (auto simp: records_inv_def entry_of_def)
  moreover have tok: "readInterestPitToken (received f i) = Inr t" using assms(4) by (simp add: readInterestPitToken_def)
  have "onSendingRI (fw_nextInterest s) f e s2 = Inr (send_nack f (received f i) (if t = 0 then NONE else NO_ROUTE) s2)"
    using tok assms(5) by (cases "m_Token_to_Name (fw_assist s) t") (auto simp: onSendingRI_def s2_def tokenToName_def)
  moreover have "fw_inv (send_nack f j reason s2)" for j reason by (rule actsD(2) [OF acts_send_nack]) (use p(2) in \<open>simp add: s2_def\<close>)
  moreover have "fw_out (send_nack f j reason s2) = fw_out s @ [OutNack f \<lparr>n_interest = j, n_reason = reason\<rparr>]"
      "fw_pit (send_nack f j reason s2) = p" for j reason
    by (simp_all add: send_nack_def count_def emit_def s2_def)
  ultimately show ?thesis
    using p(3) E unfolding accepts_process [OF assms(2)] process_stored [OF assms(2) p(1) assms(3)] Let_def s2_def [symmetric]
    by (simp add: entry_of_def) blast
qed

section \<open>Where best-route sends\<close>

definition event_ok :: "faces \<Rightarrow> face_id \<Rightarrow> interest \<Rightarrow> fw_event \<Rightarrow> bool" where
  "event_ok faces f i ev =
     (case ev of OutInterest g j \<Rightarrow> i_name j = i_name i \<and> can_go faces f i \<lparr>nh_face = g, nh_cost = 0\<rparr>
      | OutNack g n \<Rightarrow> g = f | OutData g d \<Rightarrow> False)"

lemma sent_ok:
  assumes "can_go faces f (interest_of s r) nh"
  shows "list_all (event_ok faces f (interest_of s r)) (sent r (nh_face nh) e other s)"
  using assms by (simp add: sent_def event_ok_def can_go_def)

lemma nack_no_route_out: "\<exists>evs. fw_out (nack_no_route f e s) = fw_out s @ evs \<and> list_all (event_ok faces f i) evs"
  by (auto simp: nack_no_route_def rejectPendingInterest_def setExpiryTimer_def onOutgoingNack_def send_nack_def fw_defs
      event_ok_def Let_def split: option.splits)

lemma bestRoute_sends_ok:
  assumes "ready r e s" "isReflexiveInterestFromProducer (interest_of s r) = Inr False"
  shows "\<exists>s' evs. bestRoute_afterReceiveInterest rp r f e s = Inr s' \<and> acts s s' \<and> fw_out s' = fw_out s @ evs \<and>
    list_all (event_ok (fw_faces s) f (interest_of s r)) evs"
proof -
  obtain d x where d: "decidePerPitEntry rp (fw_now s) (entry_of s e) = Inr (d, x)"
    using decidePerPitEntry_total [of rp "fw_now s" "entry_of s e"] by auto
  define s1 where "s1 = modify_entry e (\<lambda>_. x) s"
  have s1: "interest_of s1 = interest_of s" "fw_faces s1 = fw_faces s" "fw_out s1 = fw_out s" by (simp_all add: s1_def fw_defs fun_eq_iff)
  have a1: "acts s s1" unfolding s1_def by (rule acts_decide [OF d])
  have r1: "ready r e s1" by (rule ready_stable [OF assms(1) a1])
  obtain fe where fe: "lookupFib e s1 = Inr fe" using lookupFib_total r1 by (auto simp: ready_def)
  define ok where "ok m \<longleftrightarrow> (\<exists>s' evs. m = Inr s' \<and> acts s s' \<and> fw_out s' = fw_out s @ evs \<and> list_all (event_ok (fw_faces s) f (interest_of s r)) evs)" for m :: "fw res"
  have stay: "ok (Inr s1)" using a1 s1 by (auto simp: ok_def)
  have send: "ok (drop_result (sendInterest r (nh_face nh) e s1))" if "eligible (fw_faces s) f (interest_of s r) y nh" for nh y
  proof -
    have "can_go (fw_faces s) f (interest_of s1 r) nh" using that unfolding eligible_can_go s1 .
    from sent_ok [OF this, of e None] show ?thesis
      using drop_sendInterest_ok [OF r1, of "nh_face nh"] acts_trans [OF a1] unfolding ok_def s1 by metis
  qed
  have nack: "ok (Inr (nack_no_route f e s1))"
    using nack_no_route_out [of f e s1 "fw_faces s" "interest_of s r"] acts_trans [OF a1 acts_nack_no_route] s1 by (auto simp: ok_def)
  define unused where "unused = find (\<lambda>nh. isNextHopEligible (fw_faces s) f (interest_of s r) nh (entry_of s1 e) True (fw_now s1)) (fe_nextHops fe)"
  have late: "ok (case unused of Some nh \<Rightarrow> drop_result (sendInterest r (nh_face nh) e s1)
      | None \<Rightarrow> bind_res (findEligibleNextHopWithEarliestOutRecord (fw_faces s) f (interest_of s r) (fe_nextHops fe) (entry_of s1 e))
          (\<lambda>found. case found of None \<Rightarrow> Inr s1 | Some nh \<Rightarrow> drop_result (sendInterest r (nh_face nh) e s1)))"
  proof (cases unused)
    case None
    then obtain found where "findEligibleNextHopWithEarliestOutRecord (fw_faces s) f (interest_of s r) (fe_nextHops fe) (entry_of s1 e) = Inr found"
        "\<And>nh. found = Some nh \<Longrightarrow> eligible (fw_faces s) f (interest_of s r) (entry_of s1 e) nh"
      unfolding unused_def using earliest_after_unused by blast
    with None send stay show ?thesis by (cases found) auto
  next
    case (Some nh)
    then have "isNextHopEligible (fw_faces s) f (interest_of s r) nh (entry_of s1 e) True (fw_now s1)"
      unfolding unused_def using find_SomeD by fast
    with Some send [OF eligible_unused_imp] show ?thesis by simp
  qed
  have new: "ok (case find (eligible (fw_faces s) f (interest_of s r) (entry_of s1 e)) (fe_nextHops fe) of
      None \<Rightarrow> Inr (nack_no_route f e s1) | Some nh \<Rightarrow> drop_result (sendInterest r (nh_face nh) e s1))"
    using nack send find_SomeD by (fastforce split: option.splits)
  have "ok (bestRoute_afterReceiveInterest rp r f e s)"
    unfolding bestRoute_afterReceiveInterest_def assms(2) bind_res_Inr d prod.case Let_def s1_def [symmetric] s1 fe
    using stay new late by (auto simp: unused_def)
  then show ?thesis by (simp add: ok_def)
qed

end
