(* ===== verification/Scenario.thy ===== *)
theory Scenario
  imports Reflexive
begin

text \<open>
  A small network for the examples of the development: a forwarder with a consumer on face 1 and
  the default route to face 2, a consumer's Interest with a reflexive name component, the
  producer's reflexive Interest, and the consumer's Data.
\<close>

definition up_face :: face where
  "up_face = no_face\<lparr>f_inTable := True\<rparr>"

definition demo_tree :: fw_tree where
  "demo_tree = [([], new_nte\<lparr>nte_sc := Some default_strategy,
     nte_fib := Some \<lparr>fe_prefix = [], fe_nextHops = [\<lparr>nh_face = 2, nh_cost = 0\<rparr>]\<rparr>\<rparr>)]"

definition demo :: fw where
  "demo = \<lparr>fw_now = 0, fw_faces = (\<lambda>f. if f = 1 \<or> f = 2 then up_face else no_face), fw_interests = (\<lambda>_. no_interest),
     fw_nextInterest = 0, fw_pit = empty_pit\<lparr>pit_nt := demo_tree\<rparr>, fw_fibItems = 1, fw_random = (\<lambda>k. word_of_nat (Suc k)),
     fw_drawn = 0, fw_assist = new_pit_assist, fw_cs = new_cs 100, fw_dnl = new_dnl, fw_dnlLifetime = 6000000000,
     fw_regions = [], fw_defaultHopLimit = 0, fw_unsolicited = DropAll, fw_counters = INITIAL_COUNTERS, fw_out = []\<rparr>"

definition demo_interest :: interest where
  "demo_interest = no_interest\<lparr>i_name := [Component 8 [97], Component 59 [1]], i_nonce := Some 7, i_pitToken := Some (setPitToken 42)\<rparr>"

definition demo_reflexive :: interest where
  "demo_reflexive = no_interest\<lparr>i_name := [Component 8 [98], Component 59 [0x39, 0x39, 0x39, 0x39]], i_nonce := Some 9\<rparr>"

definition demo_data :: data where
  "demo_data = \<lparr>d_name = [Component 8 [97], Component 59 [1]], d_freshnessPeriod = 1000, d_digest = replicate 32 0,
     d_incomingFaceId = None, d_pitToken = None, d_cachePolicy = None\<rparr>"

lemma demo_at:
  "fib_at demo_tree m = (if m = [] then Some \<lparr>fe_prefix = [], fe_nextHops = [\<lparr>nh_face = 2, nh_cost = 0\<rparr>]\<rparr> else None)"
  "sc_at demo_tree m = (if m = [] then Some default_strategy else None)" "pit_at demo_tree m = []"
  by (auto simp: fib_at_def sc_at_def pit_at_def nt_content_def nte_content_def demo_tree_def new_nte_def)

lemma demo_inv: "fw_inv demo"
proof -
  have "nt_inv demo_tree" by (auto simp: nt_inv_def demo_tree_def new_nte_def getMaxDepth_def)
  moreover have "nt_tight demo_tree" by (auto simp: nt_tight_def demo_tree_def isEmpty_nte_def hasTableEntries_def)
  moreover have "records_ok (new_pit_entry 0)" by (simp add: records_ok_def new_pit_entry_def)
  ultimately have "pit_inv h (empty_pit\<lparr>pit_nt := demo_tree\<rparr>)" for h
    by (simp add: pit_inv_def demo_at)
  moreover have "fib_routed demo_tree" by (auto simp: fib_routed_def demo_at fib_entry_ok_def nexthops_ok_def split: if_splits)
  ultimately show ?thesis
    by (simp add: fw_inv_def demo_def demo_at assist_inv_new dnl_inv_new cs_inv_new) (simp add: new_cs_def)
qed

lemma demo_tokens: "tokens_available demo"
  unfolding tokens_available_def
proof
  fix k
  have "(word_of_nat (Suc k) :: 32 word) \<noteq> 0 \<or> (word_of_nat (Suc (Suc k)) :: 32 word) \<noteq> 0"
    by (metis add_0 of_nat_Suc one_neq_zero add.commute)
  then show "\<exists>j \<ge> k. usable_token (fw_assist demo) (fw_random demo j)"
    by (auto simp: usable_token_def demo_def new_pit_assist_def intro: exI [of _ k] exI [of _ "Suc k"])
qed

lemma demo_wire:
  "name_wireEncode (i_name demo_interest) = [7, 6, 8, 1, 97, 59, 1, 1]"
  "name_wireEncode (i_name demo_reflexive) = [7, 9, 8, 1, 98, 59, 4, 0x39, 0x39, 0x39, 0x39]"
  by (simp_all add: demo_interest_def demo_reflexive_def) code_simp+

lemma demo_seed:
  "be_nat (rev (be_bytes 4 (unat (7 :: nonce)))) = 0x7000000" "be_nat (rev (be_bytes 4 (unat (9 :: nonce)))) = 0x9000000"
  by (simp_all add: be_nat_def be_bytes_def upt_rec)

lemma demo_makeEntry:
  "\<exists>e. makeEntry (i_name demo_interest) 7 = Inr e \<and> e \<noteq> 0" "\<exists>e. makeEntry (i_name demo_reflexive) 9 = Inr e \<and> e \<noteq> 0"
  unfolding makeEntry_def demo_wire demo_seed
  by (simp_all add: CityHash64WithSeed_def CityHash64WithSeeds_def CityHash64_def HashLen0to16_def Fetch64_def
      be_nat_def k2_def Rotate_def HashLen16_mul_def HashLen16_def Hash128to64_def Let_def)

lemma demo_hash:
  "dnl_has (i_name demo_interest) 7 new_dnl = Inr False" "dnl_has (i_name demo_reflexive) 9 new_dnl = Inr False"
  using demo_makeEntry by (auto simp: dnl_has_def new_dnl_def MARK_def)

lemma demo_fields [simp]:
  "fw_pit demo = empty_pit\<lparr>pit_nt := demo_tree\<rparr>" "fw_assist demo = new_pit_assist" "fw_dnl demo = new_dnl" "fw_cs demo = new_cs 100"
  "fw_defaultHopLimit demo = 0" "fw_out demo = []" "fw_now demo = 0" "fw_faces demo 1 = up_face" "fw_faces demo 2 = up_face"
  "fw_faces demo (Suc 0) = up_face"
  by (simp_all add: demo_def)

lemma demo_producer: "isReflexiveInterestFromProducer demo_interest = Inr False" "isReflexiveInterestFromProducer demo_reflexive = Inr True"
  by (simp_all add: isReflexiveInterestFromProducer_def demo_interest_def demo_reflexive_def isRN9999_def toNumber_def isNumber_def
      g_conventionDecoding_def canDecodeTypedConvention_def canDecodeMarkerConvention_def readNonNegativeInteger_def readNumber_fast_def big_to_native_def be_nat_def)

lemma demo_effective: "effective (sc_at demo_tree) (i_name demo_interest) = Some default_strategy"
  "effective (sc_at demo_tree) (i_name demo_reflexive) = Some default_strategy"
  by (simp_all add: effective_def candidates_def demo_at demo_interest_def demo_reflexive_def getMaxDepth_def numeral_2_eq_2)

lemma demo_accepts: "accepts demo f demo_interest 7" "accepts demo f demo_reflexive 9"
  using demo_hash by (simp_all add: accepts_def demo_interest_def demo_reflexive_def no_interest_def isPrefixOf_def LOCALHOST_def ascii_def)

lemma demo_names: "query_name (i_name demo_interest)" "isReflexiveInterest demo_interest"
  by (simp_all add: query_name_def demo_interest_def isReflexiveInterest_def isReflexiveName_def isReflexive_def isNumber_def
      g_conventionDecoding_def canDecodeTypedConvention_def valid_name_def valid_component_def ensureValid_def isImplicitSha256Digest_def isParametersSha256Digest_def)

lemma demo_fib: "fib_findLongestPrefixMatch demo_tree (i_name demo_interest) = \<lparr>fe_prefix = [], fe_nextHops = [\<lparr>nh_face = 2, nh_cost = 0\<rparr>]\<rparr>"
  by code_simp

lemma demo_consumer: "consumer_case demo 1 demo_interest 7 42 \<lparr>nh_face = 2, nh_cost = 0\<rparr>"
proof -
  have "readInterestPitToken demo_interest = Inr 42" by (simp add: demo_interest_def readInterestPitToken_def)
  moreover have "interest_ok demo_interest" using demo_names demo_producer by (auto simp: interest_ok_def demo_interest_def)
  moreover have "cs_findImpl 0 (received 1 demo_interest) (new_cs 100) = Inr (None, new_cs 100)"
    using findPrefixRange_prefix [of "[]"] demo_names by (simp add: cs_findImpl_def new_cs_def)
  moreover have "can_go (fw_faces demo) 1 demo_interest \<lparr>nh_face = 2, nh_cost = 0\<rparr>"
    by (simp add: can_go_def wouldViolateScope_def demo_interest_def isPrefixOf_def LOCALHOST_def LOCALHOP_def ascii_def)
  moreover have "st_type default_strategy = BestRouteStrategy" by (simp add: default_strategy_def)
  moreover have "i_nextHopFaceId demo_interest = None" "i_hopLimit demo_interest = None" by (simp_all add: demo_interest_def no_interest_def)
  moreover have "\<not> existName new_pit_assist n" for n by (simp add: existName_def new_pit_assist_def)
  ultimately show ?thesis using demo_accepts demo_effective demo_producer demo_names demo_fib
    by (simp add: consumer_case_def default_hop_def) (simp add: received_def)
qed

lemma demo_data_ok: "data_ok demo_data" "matchesData demo_interest demo_data" "\<not> isPrefixOf LOCALHOST (d_name demo_data)"
  "0 < i_lifetime demo_interest"
  by (simp_all add: data_ok_def cacheable_def demo_data_def plain_name_def valid_name_def valid_component_def ensureValid_def
      isImplicitSha256Digest_def isParametersSha256Digest_def matchesData_def demo_interest_def no_interest_def
      isPrefixOf_def LOCALHOST_def ascii_def DEFAULT_INTEREST_LIFETIME_def)

end
