(* ===== verification/Client_Face.thy ===== *)
theory Client_Face
  imports Packets "HOL-Library.Multiset"
begin

text \<open>
  The client face of an application: \<open>ndn-cxx/face.cpp\<close>, \<open>impl/face-impl.hpp\<close>,
  \<open>impl/pending-interest.hpp\<close>, \<open>impl/record-container.hpp\<close>, \<open>impl/interest-filter-record.hpp\<close> and
  \<open>interest-filter.cpp\<close>.  A callback is a value of a type of the application's choosing; invoking it appends
  it with its arguments to \<open>cf_calls\<close>.  This is faithful because every operation an application may call
  on the face is posted to the event queue and runs after the current one; the queue is \<open>cf_tasks\<close>.  A
  packet handed to the transport is appended to \<open>cf_out\<close> with the tags the link layer carries; the size of its
  encoding is a function given as an argument.  A received packet carries the tags the link layer extracts: the
  incoming face, the congestion mark and the PIT token.  Sockets and prefix registration with the forwarder are not
  modelled, except that a successful registration installs the filter.
\<close>

section \<open>Record containers\<close>

type_synonym record_id = nat

text \<open>\<open>std::map\<close> from identifiers to records, in the order of the identifiers, and the last identifier given out.\<close>

record 'r container =
  rc_records :: "(record_id \<times> 'r) list"
  rc_lastId :: record_id

definition new_container :: "'r container" where
  "new_container = \<lparr>rc_records = [], rc_lastId = 0\<rparr>"

definition rc_get :: "record_id \<Rightarrow> 'r container \<Rightarrow> 'r option" where
  "rc_get i c = map_of (rc_records c) i"

definition rc_put :: "record_id \<Rightarrow> 'r \<Rightarrow> 'r container \<Rightarrow> 'r container res" where
  "rc_put i r c =
     assert_res (i \<noteq> 0) (assert_res (rc_get i c = None) (Inr (c\<lparr>rc_records := insort_key fst (i, r) (rc_records c)\<rparr>)))"

definition allocateId :: "'r container \<Rightarrow> record_id \<times> 'r container" where
  "allocateId c = (let i = (rc_lastId c + 1) mod 2 ^ 64 in (i, c\<lparr>rc_lastId := i\<rparr>))"

definition rc_insert :: "'r \<Rightarrow> 'r container \<Rightarrow> (record_id \<times> 'r container) res" where
  "rc_insert r c = (let (i, c) = allocateId c in bind_res (rc_put i r c) (\<lambda>c. Inr (i, c)))"

definition rc_erase :: "record_id \<Rightarrow> 'r container \<Rightarrow> 'r container" where
  "rc_erase i c = c\<lparr>rc_records := filter (\<lambda>(j, _). j \<noteq> i) (rc_records c)\<rparr>"

definition rc_clear :: "'r container \<Rightarrow> 'r container" where
  "rc_clear c = c\<lparr>rc_records := []\<rparr>"

text \<open>The visitor may change the record and asks for its erasure with True.\<close>

fun removeIf :: "(record_id \<Rightarrow> 'r \<Rightarrow> 's \<Rightarrow> (bool \<times> 'r \<times> 's) res) \<Rightarrow> (record_id \<times> 'r) list \<Rightarrow> 's \<Rightarrow> ((record_id \<times> 'r) list \<times> 's) res" where
  "removeIf f [] s = Inr ([], s)"
| "removeIf f ((i, r) # rs) s =
     bind_res (f i r s) (\<lambda>(wantErase, r, s).
     bind_res (removeIf f rs s) (\<lambda>(rs, s).
     Inr (if wantErase then rs else (i, r) # rs, s)))"

text \<open>References to records: an update of the record with a given identifier.\<close>

definition rc_update :: "record_id \<Rightarrow> ('r \<Rightarrow> 'r) \<Rightarrow> 'r container \<Rightarrow> 'r container" where
  "rc_update i f c = c\<lparr>rc_records := map (\<lambda>(j, r). (j, if j = i then f r else r)) (rc_records c)\<rparr>"

section \<open>Filters\<close>

text \<open>A regular expression is the test of its matcher on a name, a position and a length.\<close>

record interest_filter =
  if_prefix :: name
  if_regex :: "(name \<Rightarrow> nat \<Rightarrow> nat \<Rightarrow> bool) option"
  if_loopback :: bool

definition new_filter :: "name \<Rightarrow> interest_filter" where
  "new_filter p = \<lparr>if_prefix = p, if_regex = None, if_loopback = True\<rparr>"

definition filter_doesMatch :: "interest_filter \<Rightarrow> name \<Rightarrow> bool" where
  "filter_doesMatch f n =
     (let res0 = (if isReflexiveName (if_prefix f) \<or> isReflexiveName n
                  then isPrefixOf (getnonReflexiveName (if_prefix f)) (getnonReflexiveName n)
                  else isPrefixOf (if_prefix f) n)
      in res0 \<and> (case if_regex f of None \<Rightarrow> True
                 | Some match \<Rightarrow> match n (length (if_prefix f)) (nat ((int (length n) - int (length (if_prefix f))) mod 2 ^ 64))))"

section \<open>Pending Interests\<close>

datatype pending_origin = APP | FORWARDER

record 'cb pending_interest =
  pi_interest :: interest
  pi_origin :: pending_origin
  pi_dataCallback :: "'cb option"
  pi_nackCallback :: "'cb option"
  pi_timeoutCallback :: "'cb option"
  pi_timeout :: time
  pi_nNotNacked :: int
  pi_leastSevereNack :: "nack option"

text \<open>The two constructors; lifetimes are in milliseconds, points in time in nanoseconds.\<close>

definition new_pending :: "time \<Rightarrow> interest \<Rightarrow> 'cb option \<Rightarrow> 'cb option \<Rightarrow> 'cb option \<Rightarrow> 'cb pending_interest" where
  "new_pending now i dcb ncb tcb =
     \<lparr>pi_interest = i, pi_origin = APP, pi_dataCallback = dcb, pi_nackCallback = ncb, pi_timeoutCallback = tcb,
      pi_timeout = now + i_lifetime i * 1000000, pi_nNotNacked = 0, pi_leastSevereNack = None\<rparr>"

definition new_pending_forwarder :: "time \<Rightarrow> interest \<Rightarrow> 'cb pending_interest" where
  "new_pending_forwarder now i = (new_pending now i None None None)\<lparr>pi_origin := FORWARDER\<rparr>"

definition recordForwarding :: "'cb pending_interest \<Rightarrow> 'cb pending_interest" where
  "recordForwarding e = e\<lparr>pi_nNotNacked := pi_nNotNacked e + 1\<rparr>"

definition recordNack :: "nack \<Rightarrow> 'cb pending_interest \<Rightarrow> ('cb pending_interest \<times> nack option) res" where
  "recordNack n e =
     (let e = e\<lparr>pi_nNotNacked := pi_nNotNacked e - 1\<rparr>
      in assert_res (pi_nNotNacked e \<ge> 0)
        (let e = (case pi_leastSevereNack e of
                    None \<Rightarrow> e\<lparr>pi_leastSevereNack := Some n\<rparr>
                  | Some m \<Rightarrow> if isLessSevere (n_reason n) (n_reason m) then e\<lparr>pi_leastSevereNack := Some n\<rparr> else e)
         in Inr (e, if pi_nNotNacked e > 0 then None else pi_leastSevereNack e)))"

section \<open>The face\<close>

record 'cb filter_record =
  fr_filter :: interest_filter
  fr_callback :: "'cb option"

definition record_doesMatch :: "'cb filter_record \<Rightarrow> 'cb pending_interest \<Rightarrow> bool" where
  "record_doesMatch r e \<longleftrightarrow>
     (pi_origin e = FORWARDER \<or> if_loopback (fr_filter r)) \<and> filter_doesMatch (fr_filter r) (i_name (pi_interest e))"

datatype client_out = SentInterest interest | SentData data | SentNack nack

datatype 'cb call =
    DataCall record_id 'cb interest data
  | NackCall record_id 'cb interest nack
  | TimeoutCall record_id 'cb interest
  | InterestCall 'cb interest_filter interest

datatype 'cb task =
    ExpressInterest record_id interest "'cb option" "'cb option" "'cb option"
  | RemovePendingInterest record_id
  | RemoveAllPendingInterests
  | PutData data
  | PutNack nack
  | SetInterestFilter record_id interest_filter "'cb option"
  | UnsetInterestFilter record_id
  | Shutdown

record 'cb client_face =
  cf_now :: time
  cf_pending :: "'cb pending_interest container"
  cf_filters :: "'cb filter_record container"
  cf_tasks :: "'cb task list"
  cf_calls :: "'cb call list"
  cf_out :: "client_out list"
  cf_drawn :: nat

definition new_client_face :: "time \<Rightarrow> 'cb client_face" where
  "new_client_face now = \<lparr>cf_now = now, cf_pending = new_container, cf_filters = new_container, cf_tasks = [], cf_calls = [], cf_out = [], cf_drawn = 0\<rparr>"

definition MAX_NDN_PACKET_SIZE :: nat where "MAX_NDN_PACKET_SIZE = 8800"

text \<open>\<open>finishEncoding\<close> and \<open>Transport::send\<close>.\<close>

definition client_send :: "(client_out \<Rightarrow> nat) \<Rightarrow> client_out \<Rightarrow> 'cb client_face \<Rightarrow> 'cb client_face res" where
  "client_send sz p cf = (if sz p > MAX_NDN_PACKET_SIZE then Inl OversizedPacket else Inr (cf\<lparr>cf_out := cf_out cf @ [p]\<rparr>))"

fun dispatch_loop :: "(record_id \<times> 'cb filter_record) list \<Rightarrow> 'cb pending_interest \<Rightarrow> 'cb call list \<Rightarrow> 'cb pending_interest \<times> 'cb call list" where
  "dispatch_loop [] e cs = (e, cs)"
| "dispatch_loop ((_, r) # rs) e cs =
     (if \<not> record_doesMatch r e then dispatch_loop rs e cs
      else dispatch_loop rs (recordForwarding e)
             (case fr_callback r of None \<Rightarrow> cs | Some cb \<Rightarrow> cs @ [InterestCall cb (fr_filter r) (pi_interest e)]))"

definition dispatchInterest :: "record_id \<Rightarrow> 'cb client_face \<Rightarrow> 'cb client_face" where
  "dispatchInterest i cf =
     (case rc_get i (cf_pending cf) of
        None \<Rightarrow> cf
      | Some e \<Rightarrow>
          let (e, cs) = dispatch_loop (rc_records (cf_filters cf)) e (cf_calls cf)
          in cf\<lparr>cf_pending := rc_update i (\<lambda>_. e) (cf_pending cf), cf_calls := cs\<rparr>)"

text \<open>Of the tags of an Interest the link layer carries the next hop and the PIT token.\<close>

definition impl_expressInterest ::
  "(client_out \<Rightarrow> nat) \<Rightarrow> record_id \<Rightarrow> interest \<Rightarrow> 'cb option \<Rightarrow> 'cb option \<Rightarrow> 'cb option \<Rightarrow> 'cb client_face \<Rightarrow> 'cb client_face res" where
  "impl_expressInterest sz rid i dcb ncb tcb cf =
     bind_res (rc_put rid (new_pending (cf_now cf) i dcb ncb tcb) (cf_pending cf)) (\<lambda>pt.
     let cf = cf\<lparr>cf_pending := rc_update rid recordForwarding pt\<rparr>
     in bind_res (client_send sz (SentInterest (i\<lparr>i_incomingFaceId := None\<rparr>)) cf) (\<lambda>cf.
        Inr (dispatchInterest rid cf)))"

definition processIncomingInterest :: "interest \<Rightarrow> 'cb client_face \<Rightarrow> 'cb client_face res" where
  "processIncomingInterest i cf =
     bind_res (rc_insert (new_pending_forwarder (cf_now cf) i) (cf_pending cf)) (\<lambda>(rid, pt).
     Inr (dispatchInterest rid (cf\<lparr>cf_pending := pt\<rparr>)))"

text \<open>The visitor's state: an application's Interest matched, a forwarder's Interest matched, the calls so far.\<close>

definition satisfy_visitor ::
  "data \<Rightarrow> record_id \<Rightarrow> 'cb pending_interest \<Rightarrow> bool \<times> bool \<times> 'cb call list \<Rightarrow> (bool \<times> 'cb pending_interest \<times> bool \<times> bool \<times> 'cb call list) res" where
  "satisfy_visitor d rid e = (\<lambda>(app, fwd, cs).
     if \<not> matchesData (pi_interest e) d then Inr (False, e, app, fwd, cs)
     else case pi_origin e of
       APP \<Rightarrow> Inr (True, e, True, fwd, case pi_dataCallback e of None \<Rightarrow> cs | Some cb \<Rightarrow> cs @ [DataCall rid cb (pi_interest e) d])
     | FORWARDER \<Rightarrow> Inr (True, e, app, True, cs))"

definition satisfyPendingInterests :: "data \<Rightarrow> 'cb client_face \<Rightarrow> (bool \<times> 'cb client_face) res" where
  "satisfyPendingInterests d cf =
     bind_res (removeIf (satisfy_visitor d) (rc_records (cf_pending cf)) (False, False, cf_calls cf)) (\<lambda>(rs, hasAppMatch, hasForwarderMatch, cs).
     Inr (hasForwarderMatch \<or> \<not> hasAppMatch, cf\<lparr>cf_pending := (cf_pending cf)\<lparr>rc_records := rs\<rparr>, cf_calls := cs\<rparr>))"

definition nack_visitor ::
  "nack \<Rightarrow> record_id \<Rightarrow> 'cb pending_interest \<Rightarrow> nack option \<times> 'cb call list \<Rightarrow> (bool \<times> 'cb pending_interest \<times> nack option \<times> 'cb call list) res" where
  "nack_visitor n rid e = (\<lambda>(out, cs).
     if \<not> matchesInterest (n_interest n) (pi_interest e) then Inr (False, e, out, cs)
     else bind_res (recordNack n e) (\<lambda>(e, out1).
       case out1 of
         None \<Rightarrow> Inr (False, e, out, cs)
       | Some m \<Rightarrow> (case pi_origin e of
           APP \<Rightarrow> Inr (True, e, out, case pi_nackCallback e of None \<Rightarrow> cs | Some cb \<Rightarrow> cs @ [NackCall rid cb (pi_interest e) m])
         | FORWARDER \<Rightarrow> Inr (True, e, Some m, cs))))"

definition nackPendingInterests :: "nack \<Rightarrow> 'cb client_face \<Rightarrow> (nack option \<times> 'cb client_face) res" where
  "nackPendingInterests n cf =
     bind_res (removeIf (nack_visitor n) (rc_records (cf_pending cf)) (None, cf_calls cf)) (\<lambda>(rs, out, cs).
     Inr (out, cf\<lparr>cf_pending := (cf_pending cf)\<lparr>rc_records := rs\<rparr>, cf_calls := cs\<rparr>))"

definition putData :: "(client_out \<Rightarrow> nat) \<Rightarrow> data \<Rightarrow> 'cb client_face \<Rightarrow> 'cb client_face res" where
  "putData sz d cf =
     bind_res (satisfyPendingInterests d cf) (\<lambda>(shouldSendToForwarder, cf).
     if \<not> shouldSendToForwarder then Inr cf else client_send sz (SentData (d\<lparr>d_incomingFaceId := None\<rparr>)) cf)"

text \<open>A Nack is sent without the tags of its Interest.\<close>

definition putNack :: "(client_out \<Rightarrow> nat) \<Rightarrow> nack \<Rightarrow> 'cb client_face \<Rightarrow> 'cb client_face res" where
  "putNack sz n cf =
     bind_res (nackPendingInterests n cf) (\<lambda>(out, cf).
     case out of
       None \<Rightarrow> Inr cf
     | Some m \<Rightarrow> client_send sz (SentNack (m\<lparr>n_interest := (n_interest m)\<lparr>i_incomingFaceId := None, i_nextHopFaceId := None, i_pitToken := None\<rparr>\<rparr>)) cf)"

definition impl_setInterestFilter :: "record_id \<Rightarrow> interest_filter \<Rightarrow> 'cb option \<Rightarrow> 'cb client_face \<Rightarrow> 'cb client_face res" where
  "impl_setInterestFilter rid f cb cf =
     bind_res (rc_put rid \<lparr>fr_filter = f, fr_callback = cb\<rparr> (cf_filters cf)) (\<lambda>ft. Inr (cf\<lparr>cf_filters := ft\<rparr>))"

definition unsetInterestFilter :: "record_id \<Rightarrow> 'cb client_face \<Rightarrow> 'cb client_face" where
  "unsetInterestFilter rid cf =
     (case rc_get rid (cf_filters cf) of None \<Rightarrow> cf | Some _ \<Rightarrow> cf\<lparr>cf_filters := rc_erase rid (cf_filters cf)\<rparr>)"

text \<open>The continuation of \<open>registerPrefix\<close> once the forwarder has accepted the registration.\<close>

definition prefix_registered :: "interest_filter option \<Rightarrow> 'cb option \<Rightarrow> 'cb client_face \<Rightarrow> 'cb client_face res" where
  "prefix_registered f cb cf =
     (case f of
        None \<Rightarrow> Inr cf
      | Some f \<Rightarrow> bind_res (rc_insert \<lparr>fr_filter = f, fr_callback = cb\<rparr> (cf_filters cf)) (\<lambda>(_, ft). Inr (cf\<lparr>cf_filters := ft\<rparr>)))"

definition impl_shutdown :: "'cb client_face \<Rightarrow> 'cb client_face" where
  "impl_shutdown cf = cf\<lparr>cf_pending := rc_clear (cf_pending cf)\<rparr>"

section \<open>Events\<close>

definition run_task :: "(client_out \<Rightarrow> nat) \<Rightarrow> 'cb task \<Rightarrow> 'cb client_face \<Rightarrow> 'cb client_face res" where
  "run_task sz t cf =
     (case t of
        ExpressInterest rid i dcb ncb tcb \<Rightarrow> impl_expressInterest sz rid i dcb ncb tcb cf
      | RemovePendingInterest rid \<Rightarrow> Inr (cf\<lparr>cf_pending := rc_erase rid (cf_pending cf)\<rparr>)
      | RemoveAllPendingInterests \<Rightarrow> Inr (cf\<lparr>cf_pending := rc_clear (cf_pending cf)\<rparr>)
      | PutData d \<Rightarrow> putData sz d cf
      | PutNack n \<Rightarrow> putNack sz n cf
      | SetInterestFilter rid f cb \<Rightarrow> impl_setInterestFilter rid f cb cf
      | UnsetInterestFilter rid \<Rightarrow> Inr (unsetInterestFilter rid cf)
      | Shutdown \<Rightarrow> Inr (impl_shutdown cf))"

definition run_next :: "(client_out \<Rightarrow> nat) \<Rightarrow> 'cb client_face \<Rightarrow> 'cb client_face res" where
  "run_next sz cf = (case cf_tasks cf of [] \<Rightarrow> Inr cf | t # ts \<Rightarrow> run_task sz t (cf\<lparr>cf_tasks := ts\<rparr>))"

definition invokeTimeoutCallback :: "record_id \<Rightarrow> 'cb client_face \<Rightarrow> 'cb client_face" where
  "invokeTimeoutCallback rid cf =
     (case rc_get rid (cf_pending cf) of
        None \<Rightarrow> cf
      | Some e \<Rightarrow> cf\<lparr>cf_calls := (case pi_timeoutCallback e of None \<Rightarrow> cf_calls cf | Some cb \<Rightarrow> cf_calls cf @ [TimeoutCall rid cb (pi_interest e)]),
                     cf_pending := rc_erase rid (cf_pending cf)\<rparr>)"

text \<open>\<open>onReceiveElement\<close> on a decoded packet; a face ignores the Nack it could answer with.\<close>

definition onReceiveElement :: "client_out \<Rightarrow> 'cb client_face \<Rightarrow> 'cb client_face res" where
  "onReceiveElement p cf =
     (case p of
        SentInterest i \<Rightarrow> processIncomingInterest i cf
      | SentNack n \<Rightarrow> bind_res (nackPendingInterests n cf) (\<lambda>(_, cf). Inr cf)
      | SentData d \<Rightarrow> bind_res (satisfyPendingInterests d cf) (\<lambda>(_, cf). Inr cf))"

section \<open>What an application calls\<close>

definition post :: "'cb task \<Rightarrow> 'cb client_face \<Rightarrow> 'cb client_face" where
  "post t cf = cf\<lparr>cf_tasks := cf_tasks cf @ [t]\<rparr>"

definition expressInterest ::
  "random_source \<Rightarrow> interest \<Rightarrow> 'cb option \<Rightarrow> 'cb option \<Rightarrow> 'cb option \<Rightarrow> 'cb client_face \<Rightarrow> record_id \<times> 'cb client_face" where
  "expressInterest rnd i dcb ncb tcb cf =
     (let (rid, pt) = allocateId (cf_pending cf); (_, i, k) = getNonce rnd (cf_drawn cf) i
      in (rid, post (ExpressInterest rid i dcb ncb tcb) (cf\<lparr>cf_pending := pt, cf_drawn := k\<rparr>)))"

definition put_data :: "data \<Rightarrow> 'cb client_face \<Rightarrow> 'cb client_face" where
  "put_data d = post (PutData d)"

definition put_nack :: "nack \<Rightarrow> 'cb client_face \<Rightarrow> 'cb client_face" where
  "put_nack n = post (PutNack n)"

definition setInterestFilter :: "interest_filter \<Rightarrow> 'cb option \<Rightarrow> 'cb client_face \<Rightarrow> record_id \<times> 'cb client_face" where
  "setInterestFilter f cb cf =
     (let (rid, ft) = allocateId (cf_filters cf) in (rid, post (SetInterestFilter rid f cb) (cf\<lparr>cf_filters := ft\<rparr>)))"

definition removePendingInterest :: "record_id \<Rightarrow> 'cb client_face \<Rightarrow> 'cb client_face" where
  "removePendingInterest rid = post (RemovePendingInterest rid)"

definition removeAllPendingInterests :: "'cb client_face \<Rightarrow> 'cb client_face" where
  "removeAllPendingInterests = post RemoveAllPendingInterests"

definition unset_filter :: "record_id \<Rightarrow> 'cb client_face \<Rightarrow> 'cb client_face" where
  "unset_filter rid = post (UnsetInterestFilter rid)"

definition shutdown :: "'cb client_face \<Rightarrow> 'cb client_face" where
  "shutdown = post Shutdown"


section \<open>Runs\<close>

text \<open>
  What can happen to a face: a call by the application, the next task of the queue, a packet from the
  forwarder, a timer, a registration that succeeded, time passing.
\<close>

datatype 'cb client_event =
    CallExpress interest "'cb option" "'cb option" "'cb option"
  | CallPutData data
  | CallPutNack nack
  | CallSetFilter interest_filter "'cb option"
  | CallCancel record_id
  | CallCancelAll
  | CallUnsetFilter record_id
  | CallShutdown
  | RunNext
  | Receive client_out
  | Timeout record_id
  | Registered "interest_filter option" "'cb option"
  | Tick time

definition client_process :: "(client_out \<Rightarrow> nat) \<Rightarrow> random_source \<Rightarrow> 'cb client_event \<Rightarrow> 'cb client_face \<Rightarrow> 'cb client_face res" where
  "client_process sz rnd ev cf =
     (case ev of
        CallExpress i dcb ncb tcb \<Rightarrow> Inr (snd (expressInterest rnd i dcb ncb tcb cf))
      | CallPutData d \<Rightarrow> Inr (put_data d cf)
      | CallPutNack n \<Rightarrow> Inr (put_nack n cf)
      | CallSetFilter f cb \<Rightarrow> Inr (snd (setInterestFilter f cb cf))
      | CallCancel rid \<Rightarrow> Inr (removePendingInterest rid cf)
      | CallCancelAll \<Rightarrow> Inr (removeAllPendingInterests cf)
      | CallUnsetFilter rid \<Rightarrow> Inr (unset_filter rid cf)
      | CallShutdown \<Rightarrow> Inr (shutdown cf)
      | RunNext \<Rightarrow> run_next sz cf
      | Receive p \<Rightarrow> onReceiveElement p cf
      | Timeout rid \<Rightarrow> Inr (invokeTimeoutCallback rid cf)
      | Registered f cb \<Rightarrow> prefix_registered f cb cf
      | Tick t \<Rightarrow> Inr (cf\<lparr>cf_now := cf_now cf + t\<rparr>))"

text \<open>A timer fires when it is due; fewer than \<open>2 ^ 64\<close> identifiers are given out.\<close>

definition client_admissible :: "'cb client_event \<Rightarrow> 'cb client_face \<Rightarrow> bool" where
  "client_admissible ev cf \<longleftrightarrow>
     rc_lastId (cf_pending cf) + 1 < 2 ^ 64 \<and> rc_lastId (cf_filters cf) + 1 < 2 ^ 64 \<and>
     (case ev of Timeout rid \<Rightarrow> (case rc_get rid (cf_pending cf) of None \<Rightarrow> False | Some e \<Rightarrow> pi_timeout e \<le> cf_now cf)
      | Tick t \<Rightarrow> 0 \<le> t | _ \<Rightarrow> True)"

inductive client_reach :: "(client_out \<Rightarrow> nat) \<Rightarrow> random_source \<Rightarrow> 'cb client_face \<Rightarrow> bool" for sz rnd where
  init: "client_reach sz rnd (new_client_face now)"
| step: "client_reach sz rnd cf \<Longrightarrow> client_admissible ev cf \<Longrightarrow> client_process sz rnd ev cf = Inr cf' \<Longrightarrow> client_reach sz rnd cf'"

section \<open>Identifiers\<close>

text \<open>The identifiers of Interests an application expressed: still queued, pending, or with an outcome.\<close>

definition express_ids :: "'cb task list \<Rightarrow> record_id multiset" where
  "express_ids ts = mset (concat (map (\<lambda>t. case t of ExpressInterest rid _ _ _ _ \<Rightarrow> [rid] | _ \<Rightarrow> []) ts))"

definition outcomes :: "'cb call list \<Rightarrow> record_id list" where
  "outcomes cs = concat (map (\<lambda>c. case c of DataCall rid _ _ _ \<Rightarrow> [rid] | NackCall rid _ _ _ \<Rightarrow> [rid] | TimeoutCall rid _ _ \<Rightarrow> [rid] | InterestCall _ _ _ \<Rightarrow> []) cs)"

definition pending_ids :: "'cb client_face \<Rightarrow> record_id multiset" where
  "pending_ids cf = mset (map fst (rc_records (cf_pending cf)))"

definition client_ids :: "'cb client_face \<Rightarrow> record_id multiset" where
  "client_ids cf = pending_ids cf + express_ids (cf_tasks cf) + mset (outcomes (cf_calls cf))"

definition filter_ids :: "'cb client_face \<Rightarrow> record_id multiset" where
  "filter_ids cf = mset (map fst (rc_records (cf_filters cf))) +
     mset (concat (map (\<lambda>t. case t of SetInterestFilter rid _ _ \<Rightarrow> [rid] | _ \<Rightarrow> []) (cf_tasks cf)))"

definition ids_ok :: "record_id multiset \<Rightarrow> record_id \<Rightarrow> bool" where
  "ids_ok M n \<longleftrightarrow> n < 2 ^ 64 \<and> (\<forall>x. count M x \<le> 1) \<and> (\<forall>x \<in># M. 0 < x \<and> x \<le> n)"

text \<open>
  The invariant: identifiers are used once; a pending Interest waits for at least one destination, unless it
  came from the forwarder and no filter took it.
\<close>

definition waits :: "'cb pending_interest \<Rightarrow> bool" where
  "waits e \<longleftrightarrow> 0 \<le> pi_nNotNacked e \<and> (pi_origin e = APP \<longrightarrow> 0 < pi_nNotNacked e)"

definition client_inv :: "'cb client_face \<Rightarrow> bool" where
  "client_inv cf \<longleftrightarrow> ids_ok (client_ids cf) (rc_lastId (cf_pending cf)) \<and> ids_ok (filter_ids cf) (rc_lastId (cf_filters cf)) \<and>
     (\<forall>(rid, e) \<in> set (rc_records (cf_pending cf)). waits e)"

lemma ids_ok_mono: "ids_ok M n \<Longrightarrow> M' \<subseteq># M \<Longrightarrow> ids_ok M' n"
  unfolding ids_ok_def by (meson le_trans mset_subset_eq_count mset_subset_eqD)

lemma ids_ok_add:
  assumes "ids_ok M n" "n + 1 < 2 ^ 64" "M' \<subseteq># add_mset (n + 1) M"
  shows "ids_ok M' (n + 1)"
proof -
  have "n + 1 \<notin># M" using assms(1) by (force simp: ids_ok_def)
  then have "ids_ok (add_mset (n + 1) M) (n + 1)" using assms(1,2) by (auto simp: ids_ok_def not_in_iff)
  then show ?thesis using assms(3) by (rule ids_ok_mono)
qed

lemma express_ids_simps [simp]: "express_ids [] = {#}" "express_ids (ts @ us) = express_ids ts + express_ids us"
  "express_ids (ExpressInterest rid i a b c # ts) = add_mset rid (express_ids ts)" "express_ids (RemovePendingInterest rid # ts) = express_ids ts"
  "express_ids (RemoveAllPendingInterests # ts) = express_ids ts" "express_ids (PutData d # ts) = express_ids ts"
  "express_ids (PutNack n # ts) = express_ids ts" "express_ids (SetInterestFilter rid f cb # ts) = express_ids ts"
  "express_ids (UnsetInterestFilter rid # ts) = express_ids ts" "express_ids (Shutdown # ts) = express_ids ts"
  by (simp_all add: express_ids_def)

lemma outcomes_simps [simp]: "outcomes [] = []" "outcomes (cs @ ds) = outcomes cs @ outcomes ds" "outcomes [DataCall rid cb i d] = [rid]"
  "outcomes [NackCall rid cb i n] = [rid]" "outcomes [TimeoutCall rid cb i] = [rid]" "outcomes [InterestCall cb f i] = []"
  by (simp_all add: outcomes_def)

lemma mset_rc_put: "rc_put rid r c = Inr c' \<Longrightarrow> mset (rc_records c') = add_mset (rid, r) (mset (rc_records c)) \<and> rc_lastId c' = rc_lastId c"
  by (auto simp: rc_put_def assert_res_eq_Inr)

lemma rc_update_ids [simp]: "map fst (rc_records (rc_update rid f c)) = map fst (rc_records c)" "rc_lastId (rc_update rid f c) = rc_lastId c"
  by (auto simp: rc_update_def)

lemma rc_get_update [simp]: "rc_get rid (rc_update rid f c) = map_option f (rc_get rid c)"
proof -
  have "map_of (map (\<lambda>(j, r). (j, if j = rid then f r else r)) rs) rid = map_option f (map_of rs rid)" for rs
    by (induction rs) auto
  then show ?thesis by (simp add: rc_get_def rc_update_def)
qed

lemma rc_erase_ids: "mset (map fst (rc_records (rc_erase rid c))) \<subseteq># mset (map fst (rc_records c))"
  "rc_get rid c = Some e \<Longrightarrow> add_mset rid (mset (map fst (rc_records (rc_erase rid c)))) \<subseteq># mset (map fst (rc_records c))"
  "rc_lastId (rc_erase rid c) = rc_lastId c"
proof -
  have sub: "mset (map fst (filter (\<lambda>(j, _). j \<noteq> rid) rs)) \<subseteq># mset (map fst rs)" for rs :: "(record_id \<times> 'a) list"
    by (simp add: image_mset_subseteq_mono)
  then show "mset (map fst (rc_records (rc_erase rid c))) \<subseteq># mset (map fst (rc_records c))" by (simp add: rc_erase_def)
  assume "rc_get rid c = Some e"
  then have "(rid, e) \<in> set (rc_records c)" by (auto simp: rc_get_def dest: map_of_SomeD)
  then obtain as bs where "rc_records c = as @ (rid, e) # bs" by (meson split_list)
  then show "add_mset rid (mset (map fst (rc_records (rc_erase rid c)))) \<subseteq># mset (map fst (rc_records c))"
    using subset_mset.add_mono [OF sub [of as] sub [of bs]] by (simp add: rc_erase_def)
qed (simp add: rc_erase_def)

text \<open>A visitor that reports the identifier of a record only when it has the record erased.\<close>

lemma removeIf_ids:
  assumes "removeIf f rs s = Inr (rs', s')"
    and "\<And>rid r s w r' s'. f rid r s = Inr (w, r', s') \<Longrightarrow> M s' \<subseteq># M s + (if w then {#rid#} else {#})"
  shows "mset (map fst rs') + M s' \<subseteq># mset (map fst rs) + M s"
  using assms(1)
proof (induction rs arbitrary: s rs' s')
  case (Cons x rs)
  obtain rid r where x: "x = (rid, r)" by fastforce
  then obtain w r1 s1 rs1 where f: "f rid r s = Inr (w, r1, s1)" and r: "removeIf f rs s1 = Inr (rs1, s')"
    and rs': "rs' = (if w then rs1 else (rid, r1) # rs1)"
    using Cons.prems by (auto simp: bind_res_eq_Inr)
  have "mset (map fst rs') + M s' \<subseteq># (if w then {#} else {#rid#}) + (mset (map fst rs) + M s1)" using Cons.IH [OF r] rs' by auto
  also have "\<dots> \<subseteq># mset (map fst (x # rs)) + M s" using assms(2) [OF f] x by (cases w) (auto simp: subset_mset.add_left_mono)
  finally show ?case .
qed simp

lemma removeIf_pred:
  assumes "removeIf f rs s = Inr (rs', s')" "\<forall>(rid, e) \<in> set rs. P e"
    and "\<And>rid r s w r' s'. P r \<Longrightarrow> f rid r s = Inr (w, r', s') \<Longrightarrow> w \<or> P r'"
  shows "\<forall>(rid, e) \<in> set rs'. P e"
  using assms(1,2)
proof (induction rs arbitrary: s rs' s')
  case (Cons x rs)
  then show ?case using assms(3) by (cases x) (fastforce simp: bind_res_eq_Inr split: if_splits)
qed simp


section \<open>The invariant is kept\<close>

lemma client_inv_mono:
  assumes "client_inv cf" "client_ids cf' \<subseteq># client_ids cf" "filter_ids cf' \<subseteq># filter_ids cf"
    and "rc_lastId (cf_pending cf') = rc_lastId (cf_pending cf)" "rc_lastId (cf_filters cf') = rc_lastId (cf_filters cf)"
    and "\<forall>(rid, e) \<in> set (rc_records (cf_pending cf')). waits e"
  shows "client_inv cf'"
  using assms ids_ok_mono unfolding client_inv_def by metis

lemma dispatch_loop_frame:
  "dispatch_loop rs e cs = (e', cs') \<Longrightarrow> pi_origin e' = pi_origin e \<and> pi_interest e' = pi_interest e \<and> pi_nNotNacked e \<le> pi_nNotNacked e' \<and>
     outcomes cs' = outcomes cs"
  by (induction rs e cs arbitrary: e' cs' rule: dispatch_loop.induct)
    (fastforce simp: recordForwarding_def split: if_splits option.splits)+

lemma rc_get_mem: "rc_get rid c = Some e \<Longrightarrow> (rid, e) \<in> set (rc_records c)"
  by (auto simp: rc_get_def dest: map_of_SomeD)

lemma dispatchInterest_inv: "client_inv cf \<Longrightarrow> client_inv (dispatchInterest rid cf)"
proof (cases "rc_get rid (cf_pending cf)")
  case (Some e)
  assume inv: "client_inv cf"
  obtain e' cs' where d: "dispatch_loop (rc_records (cf_filters cf)) e (cf_calls cf) = (e', cs')" by fastforce
  have cf': "dispatchInterest rid cf = cf\<lparr>cf_pending := rc_update rid (\<lambda>_. e') (cf_pending cf), cf_calls := cs'\<rparr>"
    using Some d by (simp add: dispatchInterest_def)
  have "waits e" using inv rc_get_mem [OF Some] by (auto simp: client_inv_def)
  then have "waits e'" using dispatch_loop_frame [OF d] by (auto simp: waits_def)
  then have "\<forall>(i, e) \<in> set (rc_records (cf_pending (dispatchInterest rid cf))). waits e"
    using inv unfolding cf' by (auto simp: client_inv_def rc_update_def)
  then show ?thesis
    by (intro client_inv_mono [OF inv])
      (use dispatch_loop_frame [OF d] in \<open>simp_all add: cf' client_ids_def pending_ids_def filter_ids_def\<close>)
qed (simp add: dispatchInterest_def)

lemma client_send_frame:
  "client_send sz p cf = Inr cf' \<Longrightarrow> cf' = cf\<lparr>cf_out := cf_out cf @ [p]\<rparr>"
  by (auto simp: client_send_def split: if_splits)

lemma client_inv_out [simp]: "client_inv (cf\<lparr>cf_out := ps\<rparr>) = client_inv cf"
  by (simp add: client_inv_def client_ids_def pending_ids_def filter_ids_def)

lemma waits_forwarding [simp]: "waits e \<Longrightarrow> waits (recordForwarding e)" "waits (recordForwarding (new_pending now i a b c))"
  by (auto simp: waits_def recordForwarding_def new_pending_def)

lemma express_inv:
  assumes "client_inv cf" "cf_tasks cf = ExpressInterest rid i a b c # ts" "impl_expressInterest sz rid i a b c (cf\<lparr>cf_tasks := ts\<rparr>) = Inr cf'"
  shows "client_inv cf'"
proof -
  let ?e = "new_pending (cf_now cf) i a b c"
  obtain pt cf1 where pt: "rc_put rid ?e (cf_pending cf) = Inr pt"
    and cf1: "client_send sz (SentInterest (i\<lparr>i_incomingFaceId := None\<rparr>)) (cf\<lparr>cf_tasks := ts, cf_pending := rc_update rid recordForwarding pt\<rparr>) = Inr cf1"
    and cf': "cf' = dispatchInterest rid cf1"
    using assms(3) by (auto simp: impl_expressInterest_def bind_res_eq_Inr Let_def)
  note P = mset_rc_put [OF pt]
  then have set: "set (rc_records pt) = insert (rid, ?e) (set (rc_records (cf_pending cf)))" by (metis set_mset_add_mset_insert set_mset_mset)
  have ids: "mset (map fst (rc_records pt)) = add_mset rid (mset (map fst (rc_records (cf_pending cf))))" using P by simp
  let ?cf = "cf\<lparr>cf_tasks := ts, cf_pending := rc_update rid recordForwarding pt\<rparr>"
  have "\<forall>(j, e) \<in> set (rc_records (cf_pending ?cf)). waits e"
    using assms(1) set waits_forwarding by (auto simp: client_inv_def rc_update_def)
  moreover have "client_ids ?cf \<subseteq># client_ids cf" "filter_ids ?cf \<subseteq># filter_ids cf" "rc_lastId (cf_pending ?cf) = rc_lastId (cf_pending cf)"
    using assms(2) ids P by (simp_all add: client_ids_def pending_ids_def filter_ids_def)
  ultimately have "client_inv ?cf" using client_inv_mono [OF assms(1), of ?cf] by simp
  then have "client_inv cf1" using client_send_frame [OF cf1] by simp
  then show ?thesis unfolding cf' by (rule dispatchInterest_inv)
qed

text \<open>Every other operation uses no new identifier.\<close>

lemma satisfy_visitor_result:
  assumes "satisfy_visitor d rid e s = Inr (w, e', s')"
  shows "e' = e" "mset (outcomes (snd (snd s'))) \<subseteq># mset (outcomes (snd (snd s))) + (if w then {#rid#} else {#})"
  using assms by (cases s; cases "pi_origin e"; cases "pi_dataCallback e"; auto simp: satisfy_visitor_def split: if_splits)+

lemma satisfy_inv:
  assumes "client_inv cf" "satisfyPendingInterests d cf = Inr (b, cf')"
  shows "client_inv cf'"
proof -
  obtain rs x y cs where r: "removeIf (satisfy_visitor d) (rc_records (cf_pending cf)) (False, False, cf_calls cf) = Inr (rs, x, y, cs)"
    and cf': "cf' = cf\<lparr>cf_pending := (cf_pending cf)\<lparr>rc_records := rs\<rparr>, cf_calls := cs\<rparr>"
    using assms(2) by (auto simp: satisfyPendingInterests_def bind_res_eq_Inr)
  have "mset (map fst rs) + mset (outcomes cs) \<subseteq># mset (map fst (rc_records (cf_pending cf))) + mset (outcomes (cf_calls cf))"
    using removeIf_ids [where M = "\<lambda>s. mset (outcomes (snd (snd s)))", OF r satisfy_visitor_result(2)] by simp
  moreover have "\<forall>(rid, e) \<in> set rs. waits e"
    using removeIf_pred [OF r, of waits] assms(1) satisfy_visitor_result(1) unfolding client_inv_def by blast
  ultimately show ?thesis
    by (intro client_inv_mono [OF assms(1)]) (simp_all add: cf' client_ids_def pending_ids_def filter_ids_def algebra_simps)
qed

lemma recordNack_cases:
  assumes "recordNack n e = Inr (e', out)"
  shows "pi_origin e' = pi_origin e" "pi_interest e' = pi_interest e" "out = None \<Longrightarrow> 0 < pi_nNotNacked e'"
proof -
  have "pi_origin e' = pi_origin e \<and> pi_interest e' = pi_interest e \<and> (out = None \<longrightarrow> 0 < pi_nNotNacked e')"
    using assms by (cases "pi_leastSevereNack e") (auto simp: recordNack_def Let_def assert_res_eq_Inr split: if_splits dest: sym)
  then show "pi_origin e' = pi_origin e" "pi_interest e' = pi_interest e" "out = None \<Longrightarrow> 0 < pi_nNotNacked e'" by auto
qed

lemma nack_visitor_result:
  assumes "nack_visitor n rid e s = Inr (w, e', s')"
  shows "e' = e \<or> w \<or> 0 < pi_nNotNacked e'" "mset (outcomes (snd s')) \<subseteq># mset (outcomes (snd s)) + (if w then {#rid#} else {#})"
proof -
  have "(e' = e \<or> w \<or> 0 < pi_nNotNacked e') \<and> mset (outcomes (snd s')) \<subseteq># mset (outcomes (snd s)) + (if w then {#rid#} else {#})"
  proof (cases "matchesInterest (n_interest n) (pi_interest e)")
    case True
    then obtain e1 out where r: "recordNack n e = Inr (e1, out)"
      using assms by (cases s; cases "recordNack n e") (auto simp: nack_visitor_def)
    show ?thesis using assms True r recordNack_cases(3) [OF r]
      by (cases s; cases out; cases "pi_origin e1"; cases "pi_nackCallback e1") (auto simp: nack_visitor_def)
  qed (use assms in \<open>cases s; simp add: nack_visitor_def\<close>)
  then show "e' = e \<or> w \<or> 0 < pi_nNotNacked e'" "mset (outcomes (snd s')) \<subseteq># mset (outcomes (snd s)) + (if w then {#rid#} else {#})" by auto
qed

lemma nack_inv:
  assumes "client_inv cf" "nackPendingInterests n cf = Inr (out, cf')"
  shows "client_inv cf'"
proof -
  obtain rs o' cs where r: "removeIf (nack_visitor n) (rc_records (cf_pending cf)) (None, cf_calls cf) = Inr (rs, o', cs)"
    and cf': "cf' = cf\<lparr>cf_pending := (cf_pending cf)\<lparr>rc_records := rs\<rparr>, cf_calls := cs\<rparr>"
    using assms(2) by (auto simp: nackPendingInterests_def bind_res_eq_Inr)
  have "mset (map fst rs) + mset (outcomes cs) \<subseteq># mset (map fst (rc_records (cf_pending cf))) + mset (outcomes (cf_calls cf))"
    using removeIf_ids [where M = "\<lambda>s. mset (outcomes (snd s))", OF r nack_visitor_result(2)] by simp
  moreover have "\<forall>(rid, e) \<in> set rs. waits e"
  proof (rule removeIf_pred [OF r])
    show "\<forall>(rid, e) \<in> set (rc_records (cf_pending cf)). waits e" using assms(1) by (simp add: client_inv_def)
    fix rid and r r' :: "'a pending_interest" and s s' :: "nack option \<times> 'a call list" and w
    assume "waits r" "nack_visitor n rid r s = Inr (w, r', s')"
    then show "w \<or> waits r'" using nack_visitor_result(1) by (fastforce simp: waits_def)
  qed
  ultimately show ?thesis
    by (intro client_inv_mono [OF assms(1)]) (simp_all add: cf' client_ids_def pending_ids_def filter_ids_def algebra_simps)
qed


lemma allocateId_next: "rc_lastId c + 1 < 2 ^ 64 \<Longrightarrow> allocateId c = (rc_lastId c + 1, c\<lparr>rc_lastId := rc_lastId c + 1\<rparr>)"
  by (simp add: allocateId_def Let_def)

lemma client_inv_fresh:
  assumes "client_inv cf" "rc_lastId (cf_pending cf) + 1 < 2 ^ 64"
    and "client_ids cf' \<subseteq># add_mset (rc_lastId (cf_pending cf) + 1) (client_ids cf)" "filter_ids cf' \<subseteq># filter_ids cf"
    and "rc_lastId (cf_pending cf') = rc_lastId (cf_pending cf) + 1" "rc_lastId (cf_filters cf') = rc_lastId (cf_filters cf)"
    and "\<forall>(rid, e) \<in> set (rc_records (cf_pending cf')). waits e"
  shows "client_inv cf'"
  using assms(1,3-) ids_ok_add [OF _ assms(2,3)] ids_ok_mono unfolding client_inv_def by metis

lemma client_inv_fresh_filter:
  assumes "client_inv cf" "rc_lastId (cf_filters cf) + 1 < 2 ^ 64"
    and "filter_ids cf' \<subseteq># add_mset (rc_lastId (cf_filters cf) + 1) (filter_ids cf)" "client_ids cf' \<subseteq># client_ids cf"
    and "rc_lastId (cf_pending cf') = rc_lastId (cf_pending cf)" "rc_lastId (cf_filters cf') = rc_lastId (cf_filters cf) + 1"
    and "\<forall>(rid, e) \<in> set (rc_records (cf_pending cf')). waits e"
  shows "client_inv cf'"
  using assms(1,3-) ids_ok_add [OF _ assms(2,3)] ids_ok_mono unfolding client_inv_def by metis

lemmas ids_defs = client_ids_def pending_ids_def filter_ids_def

lemma incoming_inv:
  assumes "client_inv cf" "rc_lastId (cf_pending cf) + 1 < 2 ^ 64" "processIncomingInterest i cf = Inr cf'"
  shows "client_inv cf'"
proof -
  let ?k = "rc_lastId (cf_pending cf) + 1" and ?e = "new_pending_forwarder (cf_now cf) i"
  obtain pt where pt: "rc_put ?k ?e ((cf_pending cf)\<lparr>rc_lastId := ?k\<rparr>) = Inr pt" and cf': "cf' = dispatchInterest ?k (cf\<lparr>cf_pending := pt\<rparr>)"
    using assms(3) by (auto simp: processIncomingInterest_def rc_insert_def allocateId_next [OF assms(2)] bind_res_eq_Inr)
  note P = mset_rc_put [OF pt]
  then have "set (rc_records pt) = insert (?k, ?e) (set (rc_records (cf_pending cf)))" by (metis container.select_convs(1) container.surjective container.update_convs(2) set_mset_add_mset_insert set_mset_mset)
  then have "\<forall>(rid, e) \<in> set (rc_records pt). waits e"
    using assms(1) by (auto simp: client_inv_def waits_def new_pending_forwarder_def new_pending_def)
  then have "client_inv (cf\<lparr>cf_pending := pt\<rparr>)"
    using P by (intro client_inv_fresh [OF assms(1,2)]) (simp_all add: ids_defs)
  then show ?thesis unfolding cf' by (rule dispatchInterest_inv)
qed

lemma filter_put_inv:
  assumes "client_inv cf" "rc_put rid fr (cf_filters cf) = Inr ft" "cf_tasks cf = SetInterestFilter rid f cb # ts"
  shows "client_inv (cf\<lparr>cf_tasks := ts, cf_filters := ft\<rparr>)"
  using mset_rc_put [OF assms(2)] assms(1,3) by (intro client_inv_mono [OF assms(1)]) (simp_all add: ids_defs client_inv_def)

lemma client_inv_pop:
  assumes "client_inv cf" "cf_tasks cf = t # ts"
  shows "client_inv (cf\<lparr>cf_tasks := ts\<rparr>)"
  using assms by (intro client_inv_mono [OF assms(1)]; cases t; simp add: ids_defs client_inv_def)

lemma erase_inv:
  assumes "client_inv cf" "mset (map fst (rc_records pt)) \<subseteq># mset (map fst (rc_records (cf_pending cf)))" "rc_lastId pt = rc_lastId (cf_pending cf)"
    and "set (rc_records pt) \<subseteq> set (rc_records (cf_pending cf))"
  shows "client_inv (cf\<lparr>cf_pending := pt\<rparr>)"
  using assms by (intro client_inv_mono [OF assms(1)]) (auto simp: ids_defs client_inv_def)

lemma rc_erase_inv: "client_inv cf \<Longrightarrow> client_inv (cf\<lparr>cf_pending := rc_erase rid (cf_pending cf)\<rparr>)"
  "client_inv cf \<Longrightarrow> client_inv (cf\<lparr>cf_pending := rc_clear (cf_pending cf)\<rparr>)"
  by (rule erase_inv; use rc_erase_ids in \<open>auto simp: rc_erase_def rc_clear_def\<close>)+

lemma unset_inv: "client_inv cf \<Longrightarrow> client_inv (unsetInterestFilter rid cf)"
proof (cases "rc_get rid (cf_filters cf)")
  case (Some r)
  assume inv: "client_inv cf"
  show ?thesis using rc_erase_ids(1) [of rid "cf_filters cf"] inv Some
    by (intro client_inv_mono [OF inv]) (simp_all add: unsetInterestFilter_def ids_defs rc_erase_ids(3) client_inv_def)
qed (simp add: unsetInterestFilter_def)

lemma run_next_inv:
  assumes "client_inv cf" "run_next sz cf = Inr cf'"
  shows "client_inv cf'"
proof (cases "cf_tasks cf")
  case (Cons t ts)
  let ?cf = "cf\<lparr>cf_tasks := ts\<rparr>"
  have inv: "client_inv ?cf" using client_inv_pop [OF assms(1) Cons] .
  have run: "run_task sz t ?cf = Inr cf'" using assms(2) Cons by (simp add: run_next_def)
  show ?thesis
  proof (cases t)
    case (ExpressInterest rid i a b c)
    then show ?thesis using run express_inv [OF assms(1), of rid i a b c ts] Cons by (simp add: run_task_def)
  next
    case (PutData d)
    then obtain b cf1 where "satisfyPendingInterests d ?cf = Inr (b, cf1)" "\<not> b \<and> cf' = cf1 \<or> client_send sz (SentData (d\<lparr>d_incomingFaceId := None\<rparr>)) cf1 = Inr cf'"
      using run by (auto simp: run_task_def putData_def bind_res_eq_Inr split: if_splits)
    then show ?thesis using satisfy_inv [OF inv] client_send_frame client_inv_out by metis
  next
    case (PutNack n)
    then obtain b cf1 m where "nackPendingInterests n ?cf = Inr (b, cf1)" "cf' = cf1 \<or> client_send sz m cf1 = Inr cf'"
      using run by (auto simp: run_task_def putNack_def bind_res_eq_Inr split: option.splits)
    then show ?thesis using nack_inv [OF inv] client_send_frame client_inv_out by metis
  next
    case (SetInterestFilter rid f cb)
    then show ?thesis using run filter_put_inv [OF assms(1)] Cons
      by (auto simp: run_task_def impl_setInterestFilter_def bind_res_eq_Inr)
  qed (use run rc_erase_inv(1) [OF inv] rc_erase_inv(2) [OF inv] unset_inv [OF inv] in \<open>auto simp: run_task_def impl_shutdown_def\<close>)
qed (use assms in \<open>simp add: run_next_def\<close>)


lemma timeout_inv: "client_inv cf \<Longrightarrow> client_inv (invokeTimeoutCallback rid cf)"
proof (cases "rc_get rid (cf_pending cf)")
  case (Some e)
  assume inv: "client_inv cf"
  let ?cf = "invokeTimeoutCallback rid cf"
  have "\<forall>(j, e) \<in> set (rc_records (cf_pending ?cf)). waits e" using inv Some by (auto simp: invokeTimeoutCallback_def rc_erase_def client_inv_def)
  moreover have "client_ids ?cf \<subseteq># client_ids cf"
  proof -
    have "pending_ids ?cf + mset (outcomes (cf_calls ?cf)) \<subseteq># add_mset rid (mset (map fst (rc_records (rc_erase rid (cf_pending cf))))) + mset (outcomes (cf_calls cf))"
      using Some by (cases "pi_timeoutCallback e") (auto simp: invokeTimeoutCallback_def pending_ids_def)
    also have "\<dots> \<subseteq># pending_ids cf + mset (outcomes (cf_calls cf))" using rc_erase_ids(2) [OF Some] by (simp add: pending_ids_def)
    finally show ?thesis using Some by (simp add: client_ids_def invokeTimeoutCallback_def algebra_simps)
  qed
  ultimately show ?thesis using Some by (intro client_inv_mono [OF inv]) (simp_all add: invokeTimeoutCallback_def filter_ids_def rc_erase_ids(3))
qed (simp add: invokeTimeoutCallback_def)

lemma post_inv:
  assumes "client_inv cf" "express_ids [t] = {#}" "\<And>rid f cb. t \<noteq> SetInterestFilter rid f cb"
  shows "client_inv (post t cf)"
  using assms by (intro client_inv_mono [OF assms(1)]; cases t; simp add: post_def ids_defs client_inv_def)

lemma expressInterest_inv:
  assumes "client_inv cf" "rc_lastId (cf_pending cf) + 1 < 2 ^ 64"
  shows "client_inv (snd (expressInterest rnd i a b c cf))"
proof -
  obtain n i' k where "getNonce rnd (cf_drawn cf) i = (n, i', k)" by (metis prod_cases3)
  then show ?thesis using assms allocateId_next [OF assms(2)]
    by (intro client_inv_fresh [OF assms]) (simp_all add: expressInterest_def post_def ids_defs client_inv_def)
qed

lemma setFilter_inv:
  assumes "client_inv cf" "rc_lastId (cf_filters cf) + 1 < 2 ^ 64"
  shows "client_inv (snd (setInterestFilter f cb cf))"
  using assms allocateId_next [OF assms(2)]
  by (intro client_inv_fresh_filter [OF assms]) (simp_all add: setInterestFilter_def post_def ids_defs client_inv_def)

lemma registered_inv:
  assumes "client_inv cf" "rc_lastId (cf_filters cf) + 1 < 2 ^ 64" "prefix_registered f cb cf = Inr cf'"
  shows "client_inv cf'"
proof (cases f)
  case (Some g)
  then obtain ft where ft: "rc_put (rc_lastId (cf_filters cf) + 1) \<lparr>fr_filter = g, fr_callback = cb\<rparr> ((cf_filters cf)\<lparr>rc_lastId := rc_lastId (cf_filters cf) + 1\<rparr>) = Inr ft"
    "cf' = cf\<lparr>cf_filters := ft\<rparr>"
    using assms(3) allocateId_next [OF assms(2)] by (auto simp: prefix_registered_def rc_insert_def bind_res_eq_Inr)
  then show ?thesis using mset_rc_put [OF ft(1)] assms(1)
    by (intro client_inv_fresh_filter [OF assms(1,2)]) (simp_all add: ids_defs client_inv_def)
qed (use assms in \<open>simp add: prefix_registered_def\<close>)

lemma client_step_inv:
  assumes "client_inv cf" "client_admissible ev cf" "client_process sz rnd ev cf = Inr cf'"
  shows "client_inv cf'"
proof -
  have last: "rc_lastId (cf_pending cf) + 1 < 2 ^ 64" "rc_lastId (cf_filters cf) + 1 < 2 ^ 64" using assms(2) by (auto simp: client_admissible_def)
  show ?thesis
  proof (cases ev)
    case (Receive p)
    then show ?thesis using assms(1,3) incoming_inv [OF assms(1) last(1)] satisfy_inv [OF assms(1)] nack_inv [OF assms(1)]
      by (cases p) (auto simp: client_process_def onReceiveElement_def bind_res_eq_Inr)
  next
    case (Tick t)
    have "client_inv (cf\<lparr>cf_now := u\<rparr>) = client_inv cf" for u by (simp add: client_inv_def ids_defs)
    with Tick assms show ?thesis by (auto simp: client_process_def)
  qed (use assms(1,3) post_inv [OF assms(1)] expressInterest_inv [OF assms(1) last(1)] setFilter_inv [OF assms(1) last(2)]
        registered_inv [OF assms(1) last(2)] run_next_inv [OF assms(1)] timeout_inv [OF assms(1)]
      in \<open>auto simp: client_process_def put_data_def put_nack_def removePendingInterest_def removeAllPendingInterests_def unset_filter_def shutdown_def\<close>)
qed

lemma client_reach_inv: "client_reach sz rnd cf \<Longrightarrow> client_inv cf"
proof (induction rule: client_reach.induct)
  case (init now)
  show ?case by (simp add: client_inv_def new_client_face_def new_container_def ids_defs ids_ok_def)
next
  case (step cf ev cf')
  then show ?case using client_step_inv by blast
qed

section \<open>Failures\<close>

text \<open>A record no destination of which is left to answer a Nack.\<close>

definition unclaimed :: "nack \<Rightarrow> 'cb client_face \<Rightarrow> bool" where
  "unclaimed n cf \<longleftrightarrow> (\<exists>(rid, e) \<in> set (rc_records (cf_pending cf)).
     matchesInterest (n_interest n) (pi_interest e) \<and> pi_origin e = FORWARDER \<and> pi_nNotNacked e = 0)"

lemma nack_visitor_fails:
  assumes "waits e"
  shows "nack_visitor n rid e s = Inl f \<longleftrightarrow> f = AssertionFailed \<and> matchesInterest (n_interest n) (pi_interest e) \<and> pi_origin e = FORWARDER \<and> pi_nNotNacked e = 0"
proof (cases "matchesInterest (n_interest n) (pi_interest e) \<and> 0 < pi_nNotNacked e")
  case True
  then obtain e1 out where "recordNack n e = Inr (e1, out)" by (auto simp: recordNack_def Let_def assert_res_def)
  then show ?thesis using True by (cases s; cases out; cases "pi_origin e1") (auto simp: nack_visitor_def)
next
  case False
  then show ?thesis using assms
    by (cases s; cases "pi_origin e") (auto simp: nack_visitor_def recordNack_def Let_def assert_res_def waits_def)
qed

lemma removeIf_fails:
  assumes "\<And>rid r s f. (rid, r) \<in> set rs \<Longrightarrow> (v rid r s = Inl f \<longleftrightarrow> f = E \<and> B r)"
  shows "removeIf v rs s = Inl f \<longleftrightarrow> f = E \<and> (\<exists>(rid, r) \<in> set rs. B r)"
  using assms
proof (induction rs arbitrary: s)
  case (Cons x rs)
  obtain rid r where x: "x = (rid, r)" by fastforce
  have IH: "removeIf v rs s = Inl f \<longleftrightarrow> f = E \<and> (\<exists>(rid, r) \<in> set rs. B r)" for s using Cons by auto
  show ?case
  proof (cases "v rid r s")
    case (Inl g)
    then show ?thesis using Cons.prems [of rid r s g] x by auto
  next
    case (Inr y)
    then have "\<not> B r" using Cons.prems [of rid r s E] x by auto
    then show ?thesis using Inr IH x by (cases y) (auto simp: bind_res_eq_Inl)
  qed
qed simp

lemma nackPending_fails:
  assumes "client_inv cf"
  shows "nackPendingInterests n cf = Inl f \<longleftrightarrow> f = AssertionFailed \<and> unclaimed n cf"
proof -
  have "removeIf (nack_visitor n) (rc_records (cf_pending cf)) s = Inl f \<longleftrightarrow> f = AssertionFailed \<and>
    (\<exists>(rid, e) \<in> set (rc_records (cf_pending cf)). matchesInterest (n_interest n) (pi_interest e) \<and> pi_origin e = FORWARDER \<and> pi_nNotNacked e = 0)" for s
  proof (rule removeIf_fails)
    fix rid and e :: "'a pending_interest" and s f
    assume "(rid, e) \<in> set (rc_records (cf_pending cf))"
    then have "waits e" using assms by (auto simp: client_inv_def)
    then show "nack_visitor n rid e s = Inl f \<longleftrightarrow> f = AssertionFailed \<and>
      matchesInterest (n_interest n) (pi_interest e) \<and> pi_origin e = FORWARDER \<and> pi_nNotNacked e = 0" by (rule nack_visitor_fails)
  qed
  then show ?thesis by (auto simp: nackPendingInterests_def bind_res_eq_Inl unclaimed_def)
qed


lemma rc_put_ok: "0 < rid \<Longrightarrow> rid \<notin> fst ` set (rc_records c) \<Longrightarrow> \<exists>c'. rc_put rid r c = Inr c'"
  by (simp add: rc_put_def rc_get_def map_of_eq_None_iff [symmetric])

lemma ids_ok_twice: "ids_ok (add_mset x M) n \<Longrightarrow> 0 < x \<and> x \<notin># M"
  by (auto simp: ids_ok_def not_in_iff dest: spec [of _ x])

lemma express_put_ok:
  assumes "client_inv cf" "cf_tasks cf = ExpressInterest rid i a b c # ts"
  shows "\<exists>pt. rc_put rid e (cf_pending cf) = Inr pt"
proof (rule rc_put_ok)
  have "ids_ok (add_mset rid (pending_ids cf + express_ids ts + mset (outcomes (cf_calls cf)))) (rc_lastId (cf_pending cf))"
    using assms by (simp add: client_inv_def client_ids_def)
  from ids_ok_twice [OF this] show "0 < rid" "rid \<notin> fst ` set (rc_records (cf_pending cf))" by (simp_all add: pending_ids_def)
qed

lemma filter_put_ok:
  assumes "client_inv cf" "cf_tasks cf = SetInterestFilter rid f cb # ts"
  shows "\<exists>ft. rc_put rid r (cf_filters cf) = Inr ft"
proof (rule rc_put_ok)
  let ?M = "mset (map fst (rc_records (cf_filters cf))) + mset (concat (map (\<lambda>t. case t of SetInterestFilter rid _ _ \<Rightarrow> [rid] | _ \<Rightarrow> []) ts))"
  have "ids_ok (add_mset rid ?M) (rc_lastId (cf_filters cf))" using assms by (simp add: client_inv_def filter_ids_def)
  from ids_ok_twice [OF this] show "0 < rid" "rid \<notin> fst ` set (rc_records (cf_filters cf))" by simp_all
qed

lemma fresh_put_ok:
  assumes "ids_ok (mset (map fst (rc_records c)) + M) (rc_lastId c)"
  shows "\<exists>c'. rc_put (rc_lastId c + 1) r (c\<lparr>rc_lastId := rc_lastId c + 1\<rparr>) = Inr c'"
proof (rule rc_put_ok)
  have "x \<le> rc_lastId c" if "x \<in># mset (map fst (rc_records c))" for x using assms that unfolding ids_ok_def by (meson union_iff)
  from this [of "rc_lastId c + 1"] show "rc_lastId c + 1 \<notin> fst ` set (rc_records (c\<lparr>rc_lastId := rc_lastId c + 1\<rparr>))" by auto
qed simp

lemma incoming_ok:
  assumes "client_inv cf" "rc_lastId (cf_pending cf) + 1 < 2 ^ 64"
  shows "\<exists>cf'. processIncomingInterest i cf = Inr cf'"
proof -
  have "ids_ok (mset (map fst (rc_records (cf_pending cf))) + (express_ids (cf_tasks cf) + mset (outcomes (cf_calls cf)))) (rc_lastId (cf_pending cf))"
    using assms(1) by (simp add: client_inv_def client_ids_def pending_ids_def algebra_simps)
  then show ?thesis using fresh_put_ok [of "cf_pending cf" _ "new_pending_forwarder (cf_now cf) i"] allocateId_next [OF assms(2)]
    by (fastforce simp: processIncomingInterest_def rc_insert_def)
qed

lemma registered_ok:
  assumes "client_inv cf" "rc_lastId (cf_filters cf) + 1 < 2 ^ 64"
  shows "\<exists>cf'. prefix_registered f cb cf = Inr cf'"
proof (cases f)
  case (Some g)
  have "ids_ok (filter_ids cf) (rc_lastId (cf_filters cf))" using assms(1) by (simp add: client_inv_def)
  then show ?thesis using Some fresh_put_ok [of "cf_filters cf" _ "\<lparr>fr_filter = g, fr_callback = cb\<rparr>"] allocateId_next [OF assms(2)]
    by (fastforce simp: prefix_registered_def rc_insert_def filter_ids_def)
qed (simp add: prefix_registered_def)

text \<open>The effect of Data on the table: which records go, which callbacks run.\<close>

definition data_calls :: "data \<Rightarrow> (record_id \<times> 'cb pending_interest) list \<Rightarrow> 'cb call list" where
  "data_calls d rs = concat (map (\<lambda>(rid, e). if matchesData (pi_interest e) d \<and> pi_origin e = APP
     then (case pi_dataCallback e of None \<Rightarrow> [] | Some cb \<Rightarrow> [DataCall rid cb (pi_interest e) d]) else []) rs)"

definition data_matches :: "data \<Rightarrow> pending_origin \<Rightarrow> (record_id \<times> 'cb pending_interest) list \<Rightarrow> bool" where
  "data_matches d orig rs \<longleftrightarrow> list_ex (\<lambda>(_, e). matchesData (pi_interest e) d \<and> pi_origin e = orig) rs"

lemma satisfy_removeIf:
  "removeIf (satisfy_visitor d) rs (a, f, cs) =
     Inr (filter (\<lambda>(_, e). \<not> matchesData (pi_interest e) d) rs, a \<or> data_matches d APP rs, f \<or> data_matches d FORWARDER rs, cs @ data_calls d rs)"
proof (induction rs arbitrary: a f cs)
  case (Cons x rs)
  obtain rid e where x: "x = (rid, e)" by fastforce
  show ?case
  proof (cases "matchesData (pi_interest e) d")
    case True
    then show ?thesis using Cons x
      by (cases "pi_origin e"; cases "pi_dataCallback e") (simp_all add: satisfy_visitor_def data_matches_def data_calls_def)
  next
    case False
    then show ?thesis using Cons x by (simp add: satisfy_visitor_def data_matches_def data_calls_def)
  qed
qed (simp add: data_matches_def data_calls_def)

lemma satisfy_ok: "\<exists>b cf'. satisfyPendingInterests d cf = Inr (b, cf')"
  by (simp add: satisfyPendingInterests_def satisfy_removeIf)

lemma client_send_fails: "client_send sz p cf = Inl f \<Longrightarrow> f = OversizedPacket"
  by (simp add: client_send_def split: if_splits)

lemma unclaimed_pop [simp]: "unclaimed n (cf\<lparr>cf_tasks := ts\<rparr>) = unclaimed n cf"
  by (simp add: unclaimed_def)

lemma run_next_fails:
  assumes "client_inv cf"
  shows "run_next sz cf = Inl f \<Longrightarrow> f = OversizedPacket \<or> f = AssertionFailed"
    "run_next sz cf = Inl AssertionFailed \<longleftrightarrow> (\<exists>n ts. cf_tasks cf = PutNack n # ts \<and> unclaimed n cf)"
proof -
  have "(run_next sz cf = Inl f \<longrightarrow> f = OversizedPacket \<or> f = AssertionFailed) \<and>
    (run_next sz cf = Inl AssertionFailed \<longleftrightarrow> (\<exists>n ts. cf_tasks cf = PutNack n # ts \<and> unclaimed n cf))" for f
  proof (cases "cf_tasks cf")
    case (Cons t ts)
    let ?cf = "cf\<lparr>cf_tasks := ts\<rparr>"
    have inv: "client_inv ?cf" using client_inv_pop [OF assms Cons] .
    have run: "run_next sz cf = run_task sz t ?cf" using Cons by (simp add: run_next_def)
    show ?thesis
    proof (cases t)
      case (ExpressInterest rid i a b c)
      then obtain pt where "rc_put rid (new_pending (cf_now cf) i a b c) (cf_pending cf) = Inr pt"
        using express_put_ok [OF assms] Cons by blast
      then show ?thesis using ExpressInterest Cons run
        by (auto simp: run_task_def impl_expressInterest_def bind_res_eq_Inl Let_def dest: client_send_fails)
    next
      case (PutData d)
      obtain b cf1 where "satisfyPendingInterests d ?cf = Inr (b, cf1)" using satisfy_ok by blast
      then show ?thesis using PutData Cons run by (auto simp: run_task_def putData_def dest: client_send_fails)
    next
      case (PutNack n)
      show ?thesis
      proof (cases "nackPendingInterests n ?cf")
        case (Inl g)
        then show ?thesis using PutNack Cons run nackPending_fails [OF inv, of n g] by (auto simp: run_task_def putNack_def)
      next
        case (Inr y)
        have "\<not> unclaimed n cf" using nackPending_fails [OF inv, of n AssertionFailed] Inr by simp
        then show ?thesis using PutNack Cons run Inr
          by (cases y; cases "fst y") (auto simp: run_task_def putNack_def dest: client_send_fails)
      qed
    next
      case (SetInterestFilter rid g cb)
      then obtain ft where "rc_put rid \<lparr>fr_filter = g, fr_callback = cb\<rparr> (cf_filters cf) = Inr ft"
        using filter_put_ok [OF assms] Cons by blast
      then show ?thesis using SetInterestFilter Cons run by (auto simp: run_task_def impl_setInterestFilter_def)
    qed (use Cons run in \<open>auto simp: run_task_def\<close>)
  qed (simp add: run_next_def)
  then show "run_next sz cf = Inl f \<Longrightarrow> f = OversizedPacket \<or> f = AssertionFailed"
    "run_next sz cf = Inl AssertionFailed \<longleftrightarrow> (\<exists>n ts. cf_tasks cf = PutNack n # ts \<and> unclaimed n cf)" by blast+
qed


lemma client_process_fails:
  assumes "client_inv cf" "client_admissible ev cf"
  shows "client_process sz rnd ev cf = Inl f \<Longrightarrow> f = OversizedPacket \<or> f = AssertionFailed"
    "client_process sz rnd ev cf = Inl AssertionFailed \<longleftrightarrow>
      (\<exists>n. unclaimed n cf \<and> (ev = Receive (SentNack n) \<or> ev = RunNext \<and> (\<exists>ts. cf_tasks cf = PutNack n # ts)))"
proof -
  have last: "rc_lastId (cf_pending cf) + 1 < 2 ^ 64" "rc_lastId (cf_filters cf) + 1 < 2 ^ 64" using assms(2) by (auto simp: client_admissible_def)
  have "(client_process sz rnd ev cf = Inl f \<longrightarrow> f = OversizedPacket \<or> f = AssertionFailed) \<and> (client_process sz rnd ev cf = Inl AssertionFailed \<longleftrightarrow>
      (\<exists>n. unclaimed n cf \<and> (ev = Receive (SentNack n) \<or> ev = RunNext \<and> (\<exists>ts. cf_tasks cf = PutNack n # ts))))" for f
  proof (cases ev)
    case RunNext
    then show ?thesis using run_next_fails [OF assms(1), of sz] by (auto simp: client_process_def)
  next
    case (Receive p)
    show ?thesis
    proof (cases p)
      case (SentInterest i)
      then show ?thesis using Receive incoming_ok [OF assms(1) last(1), of i] by (auto simp: client_process_def onReceiveElement_def)
    next
      case (SentData d)
      then show ?thesis using Receive satisfy_ok [of d cf] by (auto simp: client_process_def onReceiveElement_def)
    next
      case (SentNack n)
      then show ?thesis using Receive nackPending_fails [OF assms(1), of n] by (auto simp: client_process_def onReceiveElement_def bind_res_eq_Inl)
    qed
  next
    case (Registered g cb)
    then show ?thesis using registered_ok [OF assms(1) last(2), of g cb] by (auto simp: client_process_def)
  qed (simp_all add: client_process_def)
  then show "client_process sz rnd ev cf = Inl f \<Longrightarrow> f = OversizedPacket \<or> f = AssertionFailed"
    "client_process sz rnd ev cf = Inl AssertionFailed \<longleftrightarrow>
      (\<exists>n. unclaimed n cf \<and> (ev = Receive (SentNack n) \<or> ev = RunNext \<and> (\<exists>ts. cf_tasks cf = PutNack n # ts)))" by blast+
qed

section \<open>Properties\<close>

text \<open>
  C36: Whatever an application calls, whatever arrives and whatever times out: an Interest the application
  expressed gets at most one outcome (Data, Nack or timeout callback), and once it has one it is neither pending
  nor queued; a pending Interest of the application still has a destination that may answer.
\<close>

theorem one_outcome:
  assumes "client_reach sz rnd cf"
  shows "distinct (outcomes (cf_calls cf)) \<and>
    (\<forall>rid \<in> set (outcomes (cf_calls cf)). rc_get rid (cf_pending cf) = None \<and> rid \<notin># express_ids (cf_tasks cf)) \<and>
    (\<forall>(rid, e) \<in> set (rc_records (cf_pending cf)). pi_origin e = APP \<longrightarrow> 0 < pi_nNotNacked e)"
proof -
  have inv: "client_inv cf" using client_reach_inv [OF assms] .
  then have "count (client_ids cf) x \<le> 1" for x by (simp add: client_inv_def ids_ok_def)
  then have c: "count (pending_ids cf) x + count (express_ids (cf_tasks cf)) x + count (mset (outcomes (cf_calls cf))) x \<le> 1" for x
    by (simp add: client_ids_def)
  have "count (mset (outcomes (cf_calls cf))) x \<le> 1" for x using c [of x] by linarith
  then have "distinct (outcomes (cf_calls cf))" by (simp add: distinct_count_atmost_1 count_mset le_Suc_eq) (metis count_list_0_iff)
  moreover have "rc_get rid (cf_pending cf) = None \<and> rid \<notin># express_ids (cf_tasks cf)" if o: "rid \<in> set (outcomes (cf_calls cf))" for rid
  proof -
    have "0 < count (mset (outcomes (cf_calls cf))) rid" using o by simp
    then have "count (pending_ids cf) rid = 0" "count (express_ids (cf_tasks cf)) rid = 0" using c [of rid] by linarith+
    then show ?thesis by (auto simp: pending_ids_def rc_get_def map_of_eq_None_iff count_eq_zero_iff)
  qed
  ultimately show ?thesis using inv by (auto simp: client_inv_def waits_def)
qed


text \<open>An application that expresses one Interest, and the face after its callbacks.\<close>

definition demo_client_interest :: interest where
  "demo_client_interest = \<lparr>i_name = [Component 8 [97]], i_canBePrefix = False, i_mustBeFresh = False, i_forwardingHint = [], i_nonce = Some 1,
     i_lifetime = 4000, i_hopLimit = None, i_incomingFaceId = None, i_nextHopFaceId = None, i_pitToken = None\<rparr>"

definition demo_client_data :: data where
  "demo_client_data = \<lparr>d_name = [Component 8 [97]], d_freshnessPeriod = 0, d_digest = replicate 32 0, d_incomingFaceId = None, d_pitToken = None,
     d_cachePolicy = None\<rparr>"

fun client_run :: "(client_out \<Rightarrow> nat) \<Rightarrow> random_source \<Rightarrow> 'cb client_event list \<Rightarrow> 'cb client_face \<Rightarrow> 'cb client_face option" where
  "client_run sz rnd [] cf = Some cf"
| "client_run sz rnd (ev # evs) cf =
     (if client_admissible ev cf then (case client_process sz rnd ev cf of Inl _ \<Rightarrow> None | Inr cf \<Rightarrow> client_run sz rnd evs cf) else None)"

lemma client_run_reach: "client_reach sz rnd cf \<Longrightarrow> client_run sz rnd evs cf = Some cf' \<Longrightarrow> client_reach sz rnd cf'"
  by (induction evs arbitrary: cf) (auto split: if_splits sum.splits intro: client_reach.step)

lemmas client_eval = client_admissible_def client_process_def expressInterest_def post_def allocateId_def getNonce_def new_client_face_def
  new_container_def run_next_def run_task_def impl_expressInterest_def rc_put_def rc_get_def rc_update_def client_send_def dispatchInterest_def
  onReceiveElement_def satisfyPendingInterests_def satisfy_visitor_def new_pending_def recordForwarding_def MAX_NDN_PACKET_SIZE_def
  demo_client_interest_def demo_client_data_def matchesData_def processIncomingInterest_def rc_insert_def new_pending_forwarder_def

theorem one_outcome_witness:
  "\<exists>cf. client_run (\<lambda>_. 0) (\<lambda>_. 0) [CallExpress demo_client_interest (Some 0) (Some 1) (Some 2), RunNext, Receive (SentData demo_client_data)]
      (new_client_face 0) = Some (cf :: nat client_face) \<and>
    outcomes (cf_calls cf) = [1] \<and> distinct (outcomes (cf_calls cf)) \<and> rc_get 1 (cf_pending cf) = None"
proof -
  obtain cf :: "nat client_face" where r: "client_run (\<lambda>_. 0) (\<lambda>_. 0)
      [CallExpress demo_client_interest (Some 0) (Some 1) (Some 2), RunNext, Receive (SentData demo_client_data)] (new_client_face 0) = Some cf"
    and o: "outcomes (cf_calls cf) = [1]"
    by (simp add: client_eval)
  then show ?thesis using one_outcome [OF client_run_reach [OF client_reach.init r]] by auto
qed



text \<open>
  Data an application puts: every pending Interest it matches is removed, the Data callbacks of
  the application's own Interests among them run once each in the order they were expressed, and the Data is sent to
  the forwarder unless it matched only Interests of the application.
\<close>

theorem data_put:
  "putData sz d cf =
     (let rs = rc_records (cf_pending cf);
          cf' = cf\<lparr>cf_pending := (cf_pending cf)\<lparr>rc_records := filter (\<lambda>(_, e). \<not> matchesData (pi_interest e) d) rs\<rparr>,
                   cf_calls := cf_calls cf @ data_calls d rs\<rparr>
      in if data_matches d APP rs \<and> \<not> data_matches d FORWARDER rs then Inr cf' else client_send sz (SentData (d\<lparr>d_incomingFaceId := None\<rparr>)) cf')"
  by (simp add: putData_def satisfyPendingInterests_def satisfy_removeIf Let_def)

end
