(* ===== verification/Name_Uri.thy ===== *)
theory Name_Uri
  imports Names
begin

text \<open>
  URIs of names: \<open>util/string-helper.cpp\<close>, the printing and parsing rules of
  \<open>impl/name-component-types.hpp\<close>, \<open>name-component.cpp\<close> (\<open>fromEscapedString\<close>,
  \<open>RNfromEscapedString\<close>, \<open>toUri\<close>) and the constructors of \<open>name.cpp\<close> that read a URI, the one for
  reflexive names included.  A string is the list of its bytes; characters above 127, negative in
  the code, fail the range tests in the same way.  A call of \<open>NDN_CXX_UNREACHABLE\<close> is undefined behaviour.
\<close>

section \<open>Percent and hex encoding\<close>

definition toHexChar :: "nat \<Rightarrow> bool \<Rightarrow> byte" where
  "toHexChar n wantUpperCase =
     (if wantUpperCase then ascii ''0123456789ABCDEF'' else ascii ''0123456789abcdef'') ! (n mod 16)"

definition fromHexChar :: "byte \<Rightarrow> int" where
  "fromHexChar c =
     (if 48 \<le> c \<and> c \<le> 57 then uint c - 48
      else if 65 \<le> c \<and> c \<le> 70 then uint c - 65 + 10
      else if 97 \<le> c \<and> c \<le> 102 then uint c - 97 + 10
      else -1)"

definition unreserved :: "byte \<Rightarrow> bool" where
  "unreserved c \<longleftrightarrow> (97 \<le> c \<and> c \<le> 122) \<or> (65 \<le> c \<and> c \<le> 90) \<or> (48 \<le> c \<and> c \<le> 57) \<or> c \<in> {45, 46, 95, 126}"

definition escape_char :: "byte \<Rightarrow> bytes" where
  "escape_char c =
     (if unreserved c then [c] else [37, toHexChar (unat (c AND 0xf0) div 16) True, toHexChar (unat (c AND 0xf)) True])"

definition escape :: "bytes \<Rightarrow> bytes" where
  "escape str = concat (map escape_char str)"

definition hex_byte :: "int \<Rightarrow> int \<Rightarrow> byte" where
  "hex_byte hi lo = word_of_int (push_bit 4 hi OR lo)"

fun unescape :: "bytes \<Rightarrow> bytes" where
  "unescape (c # a # b # rest) =
     (if c = 37 then
        (if fromHexChar a < 0 \<or> fromHexChar b < 0 then [c, a, b] else [hex_byte (fromHexChar a) (fromHexChar b)]) @ unescape rest
      else c # unescape (a # b # rest))"
| "unescape cs = cs"

text \<open>\<open>printHex\<close> with lower-case digits, and \<open>fromHex\<close>; the error of the latter is rethrown as a component error.\<close>

definition printHex :: "bytes \<Rightarrow> bytes" where
  "printHex buffer = concat (map (\<lambda>b. [toHexChar (unat b div 16) False, toHexChar (unat b mod 16) False]) buffer)"

fun fromHex :: "bytes \<Rightarrow> bytes res" where
  "fromHex [] = Inr []"
| "fromHex [a] = Inl TlvError"
| "fromHex (a # b # rest) =
     (if fromHexChar a < 0 \<or> fromHexChar b < 0 then Inl TlvError
      else bind_res (fromHex rest) (\<lambda>bs. Inr (hex_byte (fromHexChar a) (fromHexChar b) # bs)))"

section \<open>Decimal numbers\<close>

text \<open>\<open>std::to_string\<close>, \<open>std::strtoul\<close> and \<open>std::stoull\<close> of the standard library, base ten, 64 bits.\<close>

fun to_string :: "nat \<Rightarrow> bytes" where
  "to_string n = (if n < 10 then [48 + word_of_nat n] else to_string (n div 10) @ [48 + word_of_nat (n mod 10)])"

declare to_string.simps [simp del]

definition isdigit :: "byte \<Rightarrow> bool" where
  "isdigit c \<longleftrightarrow> 48 \<le> c \<and> c \<le> 57"

definition isspace :: "byte \<Rightarrow> bool" where
  "isspace c \<longleftrightarrow> c = 32 \<or> (9 \<le> c \<and> c \<le> 13)"

definition digits_value :: "bytes \<Rightarrow> nat" where
  "digits_value ds = foldl (\<lambda>v d. v * 10 + (unat d - 48)) 0 ds"

definition number_prefix :: "bytes \<Rightarrow> bool \<times> bytes" where
  "number_prefix str =
     (case dropWhile isspace str of
        [] \<Rightarrow> (False, [])
      | c # cs \<Rightarrow> if c = 43 then (False, takeWhile isdigit cs)
                  else if c = 45 then (True, takeWhile isdigit cs)
                  else (False, takeWhile isdigit (c # cs)))"

definition strtoul :: "bytes \<Rightarrow> nat" where
  "strtoul str =
     (let (neg, ds) = number_prefix str; v = digits_value ds
      in if v \<ge> 2 ^ 64 then 2 ^ 64 - 1 else if neg then (2 ^ 64 - v) mod 2 ^ 64 else v)"

definition stoull :: "bytes \<Rightarrow> nat res" where
  "stoull str =
     (let (neg, ds) = number_prefix str
      in if ds = [] then Inl InvalidArgument else if digits_value ds \<ge> 2 ^ 64 then Inl OutOfRange else Inr (strtoul str))"

section \<open>Component types\<close>

datatype component_type =
    BaseType
  | ReflexiveNameComponentType nat bytes
  | GenericNameComponentType
  | Sha256ComponentType nat bytes
  | DecimalComponentType nat bytes

definition component_type_table :: "(nat \<times> component_type) list" where
  "component_type_table =
     [(ImplicitSha256DigestComponent, Sha256ComponentType ImplicitSha256DigestComponent (ascii ''sha256digest'')),
      (ParametersSha256DigestComponent, Sha256ComponentType ParametersSha256DigestComponent (ascii ''params-sha256'')),
      (GenericNameComponent, GenericNameComponentType),
      (KeywordNameComponent, BaseType),
      (SegmentNameComponent, DecimalComponentType SegmentNameComponent (ascii ''seg'')),
      (ByteOffsetNameComponent, DecimalComponentType ByteOffsetNameComponent (ascii ''off'')),
      (VersionNameComponent, DecimalComponentType VersionNameComponent (ascii ''v'')),
      (TimestampNameComponent, DecimalComponentType TimestampNameComponent (ascii ''t'')),
      (SequenceNumNameComponent, DecimalComponentType SequenceNumNameComponent (ascii ''seq'')),
      (ReflexiveNameComponent, ReflexiveNameComponentType ReflexiveNameComponent (ascii ''RN''))]"

fun getAltUriPrefix :: "component_type \<Rightarrow> bytes" where
  "getAltUriPrefix (ReflexiveNameComponentType _ uriPrefix) = uriPrefix"
| "getAltUriPrefix (Sha256ComponentType _ uriPrefix) = uriPrefix"
| "getAltUriPrefix (DecimalComponentType _ uriPrefix) = uriPrefix"
| "getAltUriPrefix _ = []"

definition get_type :: "nat \<Rightarrow> component_type" where
  "get_type type = (case map_of component_type_table type of None \<Rightarrow> BaseType | Some ct \<Rightarrow> ct)"

definition findByUriPrefix :: "bytes \<Rightarrow> component_type option" where
  "findByUriPrefix uriPrefix =
     find (\<lambda>ct. getAltUriPrefix ct \<noteq> [] \<and> getAltUriPrefix ct = uriPrefix) (map snd component_type_table)"

definition writeUriEscapedValue :: "component \<Rightarrow> bytes" where
  "writeUriEscapedValue c = (if list_all (\<lambda>x. x = 46) (comp_value c) then ascii ''...'' else []) @ escape (comp_value c)"

definition base_writeUri :: "component \<Rightarrow> bytes" where
  "base_writeUri c = to_string (comp_type c) @ [61] @ writeUriEscapedValue c"

fun writeUri :: "component_type \<Rightarrow> component \<Rightarrow> bytes res" where
  "writeUri BaseType c = Inr (base_writeUri c)"
| "writeUri (ReflexiveNameComponentType _ uriPrefix) c = Inr (uriPrefix @ [61] @ writeUriEscapedValue c)"
| "writeUri GenericNameComponentType c = Inr (writeUriEscapedValue c)"
| "writeUri (Sha256ComponentType _ uriPrefix) c = Inr (uriPrefix @ [61] @ printHex (comp_value c))"
| "writeUri (DecimalComponentType _ uriPrefix) c =
     (if isNumber c then bind_res (toNumber c) (\<lambda>n. Inr (uriPrefix @ [61] @ to_string (unat n)))
      else Inr (base_writeUri c))"

text \<open>The reflexive type does not override \<open>parseAltUriValue\<close> of the base class.\<close>

fun parseAltUriValue :: "component_type \<Rightarrow> bytes \<Rightarrow> component res" where
  "parseAltUriValue (Sha256ComponentType type _) input = bind_res (fromHex input) (\<lambda>value. ensureValid (Component type value))"
| "parseAltUriValue (DecimalComponentType type _) input =
     (case stoull input of
        Inl _ \<Rightarrow> Inl TlvError
      | Inr n \<Rightarrow> if to_string n \<noteq> input then Inl TlvError else Inr (fromNumber (word_of_nat n) type))"
| "parseAltUriValue _ input = Inl UndefinedBehavior"

section \<open>Components\<close>

definition parseUriEscapedValue :: "nat \<Rightarrow> bytes \<Rightarrow> component res" where
  "parseUriEscapedValue type input =
     (let value = unescape input
      in if list_all (\<lambda>x. x = 46) value then
           (if length value < 3 then Inl TlvError else ensureValid (Component type (take (length value - 3) value)))
         else ensureValid (Component type value))"

definition find_char :: "byte \<Rightarrow> bytes \<Rightarrow> nat option" where
  "find_char c str = (if c \<in> set str then Some (length (takeWhile (\<lambda>x. x \<noteq> c) str)) else None)"

definition fromEscapedString :: "bytes \<Rightarrow> component res" where
  "fromEscapedString input =
     (case find_char 61 input of
        None \<Rightarrow> parseUriEscapedValue GenericNameComponent input
      | Some equalPos \<Rightarrow>
          let typePrefix = take equalPos input; type = strtoul typePrefix; rest = drop (equalPos + 1) input
          in if NameComponentMin \<le> type \<and> type \<le> NameComponentMax \<and> to_string type = typePrefix
             then parseUriEscapedValue type rest
             else case findByUriPrefix typePrefix of None \<Rightarrow> Inl TlvError | Some ct \<Rightarrow> parseAltUriValue ct rest)"

definition RNfromEscapedString :: "bytes \<Rightarrow> component res" where
  "RNfromEscapedString input =
     (case find_char 61 input of
        None \<Rightarrow> parseUriEscapedValue ReflexiveNameComponent input
      | Some _ \<Rightarrow> Inl UndefinedBehavior)"

datatype UriFormat = CANONICAL | ALTERNATE | ENV_OR_CANONICAL | ENV_OR_ALTERNATE

text \<open>The argument \<open>env\<close> is the choice of the environment variable \<open>NDN_NAME_ALT_URI\<close>, if it makes one.\<close>

definition wantAltUri :: "bool option \<Rightarrow> UriFormat \<Rightarrow> bool" where
  "wantAltUri env format =
     (case format of
        ENV_OR_CANONICAL \<Rightarrow> (case env of None \<Rightarrow> False | Some b \<Rightarrow> b)
      | ENV_OR_ALTERNATE \<Rightarrow> (case env of None \<Rightarrow> True | Some b \<Rightarrow> b)
      | _ \<Rightarrow> format = ALTERNATE)"

definition comp_toUri :: "bool option \<Rightarrow> UriFormat \<Rightarrow> component \<Rightarrow> bytes res" where
  "comp_toUri env format c = (if wantAltUri env format then writeUri (get_type (comp_type c)) c else Inr (base_writeUri c))"

section \<open>Names\<close>

fun write_components :: "bool option \<Rightarrow> UriFormat \<Rightarrow> name \<Rightarrow> bytes res" where
  "write_components env format [] = Inr []"
| "write_components env format (c # cs) =
     bind_res (comp_toUri env format c) (\<lambda>s. bind_res (write_components env format cs) (\<lambda>r. Inr (47 # s @ r)))"

definition name_toUri :: "bool option \<Rightarrow> UriFormat \<Rightarrow> name \<Rightarrow> bytes res" where
  "name_toUri env format n = (if n = [] then Inr [47] else write_components env format n)"

definition strip_scheme :: "bytes \<Rightarrow> bytes" where
  "strip_scheme uri =
     (case find_char 58 uri of
        None \<Rightarrow> uri
      | Some iColon \<Rightarrow> (case find_char 47 uri of
            None \<Rightarrow> drop (iColon + 1) uri
          | Some iFirstSlash \<Rightarrow> if iColon < iFirstSlash then drop (iColon + 1) uri else uri))"

text \<open>No result when there is only an authority.\<close>

definition strip_authority :: "bytes \<Rightarrow> bytes option" where
  "strip_authority uri =
     (if length uri \<ge> 1 \<and> uri ! 0 = 47 then
        (if length uri \<ge> 2 \<and> uri ! 1 = 47 then
           (case find_char 47 (drop 2 uri) of None \<Rightarrow> None | Some k \<Rightarrow> Some (drop (2 + k + 1) uri))
         else Some (drop 1 uri))
      else Some uri)"

function parse_uri :: "bytes \<Rightarrow> name res" where
  "parse_uri uri =
     (if uri = [] then Inr []
      else let component = takeWhile (\<lambda>x. x \<noteq> 47) uri
           in bind_res (fromEscapedString component) (\<lambda>c.
              if length component + 1 \<ge> length uri then Inr [c]
              else bind_res (parse_uri (drop (length component + 1) uri)) (\<lambda>cs. Inr (c # cs))))"
  by auto
termination
  by (relation "measure length") auto

function parse_uri_RN :: "bytes \<Rightarrow> name res" where
  "parse_uri_RN uri =
     (if uri = [] then Inr []
      else let component = takeWhile (\<lambda>x. x \<noteq> 47) uri
           in if length component + 1 \<ge> length uri
              then bind_res (RNfromEscapedString component) (\<lambda>c. Inr [c])
              else bind_res (fromEscapedString component) (\<lambda>c.
                   bind_res (parse_uri_RN (drop (length component + 1) uri)) (\<lambda>cs. Inr (c # cs))))"
  by auto
termination
  by (relation "measure length") auto

declare parse_uri.simps [simp del] parse_uri_RN.simps [simp del]

definition Name_uri :: "bytes \<Rightarrow> name res" where
  "Name_uri uri =
     (if uri = [] then Inr []
      else case strip_authority (strip_scheme uri) of None \<Rightarrow> Inr [] | Some rest \<Rightarrow> parse_uri rest)"

definition Name_uri_RN :: "bytes \<Rightarrow> bool \<Rightarrow> name res" where
  "Name_uri_RN uri isRN =
     (if \<not> isRN then Name_uri uri
      else if uri = [] then Inr []
      else case strip_authority (strip_scheme uri) of None \<Rightarrow> Inr [] | Some rest \<Rightarrow> parse_uri_RN rest)"


section \<open>Percent encoding is undone\<close>

lemma hex_table: "list_all (\<lambda>m. fromHexChar (toHexChar m u) = int m \<and> unreserved (toHexChar m u)) [0..<16]"
  by (cases u; simp only:; code_simp)

lemma hex_digit: "fromHexChar (toHexChar n u) = int (n mod 16) \<and> unreserved (toHexChar n u)"
proof -
  have "toHexChar n u = toHexChar (n mod 16) u" by (simp add: toHexChar_def)
  then show ?thesis using hex_table [of u] by (simp add: list_all_iff)
qed

lemmas hex_digit_simps [simp] = hex_digit [THEN conjunct1] hex_digit [THEN conjunct2]

lemma hex_byte_nibbles: "b < 16 \<Longrightarrow> hex_byte (int a) (int b) = word_of_nat (a * 16 + b)"
proof -
  assume "b < 16"
  then have "take_bit 4 (int b) = int b" by (simp add: take_bit_int_eq_self)
  then have "bit (int b) n \<Longrightarrow> n < 4" for n by (metis bit_take_bit_iff)
  then have "push_bit 4 (int a) OR int b = push_bit 4 (int a) + int b"
    by (intro disjunctive_add [symmetric]) (metis bit_push_bit_iff not_le)
  then show ?thesis by (simp add: hex_byte_def push_bit_eq_mult)
qed

lemma byte_nibbles [simp]: "hex_byte (int (unat c div 16 mod 16)) (int (unat c mod 16)) = (c :: byte)"
proof -
  have "unat c div 16 < 16" using unat_byte [of c] by linarith
  then show ?thesis using hex_byte_nibbles [of "unat c mod 16" "unat c div 16"] by simp
qed

lemma byte_masks [simp]: "unat (c AND 0xf0 :: byte) div 16 = unat c div 16" "unat (c AND 0xf :: byte) mod 16 = unat c mod 16"
proof -
  have "c AND 0xf = take_bit 4 c" by (simp add: take_bit_eq_mask mask_eq_exp_minus_1)
  then have "unat (c AND 0xf) = take_bit 4 (unat c)" by (simp only: unsigned_take_bit_eq)
  then show "unat (c AND 0xf :: byte) mod 16 = unat c mod 16" by (simp add: take_bit_eq_mod)
  have "drop_bit 4 (c AND 0xf0) = drop_bit 4 c"
    by (rule bit_word_eqI) (auto simp: bit_simps bit_numeral_rec(1) less_Suc_eq numeral_eq_Suc dest: bit_imp_le_length)
  then have "unat (drop_bit 4 (c AND 0xf0)) = unat (drop_bit 4 c)" by (rule arg_cong)
  then have "drop_bit 4 (unat (c AND 0xf0)) = drop_bit 4 (unat c)" by (simp only: unat_drop_bit_eq)
  then show "unat (c AND 0xf0 :: byte) div 16 = unat c div 16" by (simp add: drop_bit_eq_div)
qed

lemma unescape_cons: "c \<noteq> 37 \<Longrightarrow> unescape (c # cs) = c # unescape cs"
  by (cases cs; cases "tl cs") auto

lemma unescape_escape_char: "unescape (escape_char c @ rest) = c # unescape rest"
proof (cases "unreserved c")
  case True
  then have "c \<noteq> 37" by (auto simp: unreserved_def)
  with True show ?thesis by (simp add: escape_char_def unescape_cons)
next
  case False
  have "unat c div 16 mod 16 = unat c div 16" using unat_byte [of c] by (simp add: less_mult_imp_div_less)
  then show ?thesis using False byte_nibbles [of c] by (simp add: escape_char_def)
qed

lemma unescape_escape [simp]: "unescape (escape v) = v"
proof (induction v)
  case (Cons c v)
  have "escape (c # v) = escape_char c @ escape v" by (simp add: escape_def)
  with Cons show ?case by (simp only: unescape_escape_char)
qed (simp add: escape_def)

lemma escape_chars: "x \<in> set (escape v) \<Longrightarrow> unreserved x \<or> x = 37"
  by (auto simp: escape_def escape_char_def split: if_splits)

lemma fromHex_printHex [simp]: "fromHex (printHex v) = Inr v"
proof (induction v)
  case (Cons c v)
  have "unat c div 16 mod 16 = unat c div 16" using unat_byte [of c] by (simp add: less_mult_imp_div_less)
  with Cons show ?case using byte_nibbles [of c] by (simp add: printHex_def)
qed (simp add: printHex_def)

section \<open>Decimal numbers are read back\<close>

lemma digit_char: "d < 10 \<Longrightarrow> isdigit (48 + word_of_nat d) \<and> unat (48 + word_of_nat d :: byte) = 48 + d"
proof -
  assume "d < 10"
  then have "unat (48 + word_of_nat d :: byte) = 48 + d" by (simp add: unat_word_ariths unat_of_nat)
  with \<open>d < 10\<close> show ?thesis by (simp add: isdigit_def word_le_nat_alt)
qed

lemma to_string_digits: "list_all isdigit (to_string n) \<and> to_string n \<noteq> []"
proof (induction n rule: to_string.induct)
  case (1 n)
  show ?case
  proof (cases "n < 10")
    case True
    then show ?thesis using digit_char [of n] by (simp add: to_string.simps [of n])
  next
    case False
    then show ?thesis using 1 digit_char [of "n mod 10"] by (simp add: to_string.simps [of n])
  qed
qed

lemma digits_value_to_string [simp]: "digits_value (to_string n) = n"
proof (induction n rule: to_string.induct)
  case (1 n)
  show ?case
  proof (cases "n < 10")
    case True
    then show ?thesis using digit_char [of n] by (simp add: to_string.simps [of n] digits_value_def)
  next
    case False
    then have "digits_value (to_string n) = digits_value (to_string (n div 10)) * 10 + n mod 10"
      using digit_char [of "n mod 10"] by (simp add: to_string.simps [of n] digits_value_def)
    with 1 False show ?thesis by simp
  qed
qed

lemma number_prefix_digits: "list_all isdigit ds \<Longrightarrow> number_prefix ds = (False, ds)"
proof (cases ds)
  case (Cons c cs)
  assume "list_all isdigit ds"
  with Cons have c: "isdigit c" and cs: "takeWhile isdigit ds = ds" by (auto simp: list_all_iff)
  then have "\<not> isspace c" "c \<noteq> 43" "c \<noteq> 45" by (auto simp: isdigit_def isspace_def word_le_nat_alt)
  with Cons c cs show ?thesis by (simp add: number_prefix_def)
qed (simp add: number_prefix_def)

lemma strtoul_to_string [simp]: "n < 2 ^ 64 \<Longrightarrow> strtoul (to_string n) = n"
  using to_string_digits [of n] by (simp add: strtoul_def number_prefix_digits)

lemma stoull_to_string [simp]: "n < 2 ^ 64 \<Longrightarrow> stoull (to_string n) = Inr n"
  using to_string_digits [of n] by (simp add: stoull_def number_prefix_digits)


section \<open>Components\<close>

lemma find_char_append: "c \<notin> set s \<Longrightarrow> find_char c (s @ c # r) = Some (length s)"
  unfolding find_char_def by (subst takeWhile_append2) auto

lemma find_char_None: "c \<notin> set s \<Longrightarrow> find_char c s = None"
  by (simp add: find_char_def)

lemma unescape_dots: "unescape (ascii ''...'' @ s) = ascii ''...'' @ unescape s"
  by (simp add: ascii_def unescape_cons)

lemma all_dots: "list_all (\<lambda>x. x = 46) v \<Longrightarrow> v = replicate (length v) 46"
  by (induction v) auto

lemma parse_escaped:
  assumes "ensureValid c = Inr c" "t = comp_type c"
  shows "parseUriEscapedValue t (writeUriEscapedValue c) = Inr c"
proof (cases "list_all (\<lambda>x. x = 46) (comp_value c)")
  case True
  then have "ascii ''...'' @ comp_value c = comp_value c @ ascii ''...''"
    using all_dots [OF True] replicate_add [of 3 "length (comp_value c)" "46::byte"] replicate_add [of "length (comp_value c)" 3 "46::byte"]
    by (simp add: ascii_def numeral_3_eq_3 add.commute)
  then have "unescape (writeUriEscapedValue c) = comp_value c @ ascii ''...''"
    using True by (simp add: writeUriEscapedValue_def unescape_dots)
  then show ?thesis using assms True by (simp add: parseUriEscapedValue_def ascii_def)
next
  case False
  then show ?thesis using assms by (simp add: parseUriEscapedValue_def writeUriEscapedValue_def)
qed

text \<open>Characters a printed component is made of.\<close>

definition uri_char :: "byte \<Rightarrow> bool" where
  "uri_char x \<longleftrightarrow> unreserved x \<or> x = 37"

lemma uri_char_not: "uri_char x \<Longrightarrow> x \<noteq> 47 \<and> x \<noteq> 58 \<and> x \<noteq> 61"
  by (auto simp: uri_char_def unreserved_def word_le_nat_alt)

lemma escaped_chars: "list_all uri_char (writeUriEscapedValue c) \<and> writeUriEscapedValue c \<noteq> []"
proof -
  have "list_all uri_char (escape (comp_value c))" using escape_chars by (auto simp: list_all_iff uri_char_def)
  moreover have "list_all uri_char (ascii ''...'')" by (simp add: ascii_def uri_char_def unreserved_def)
  moreover have "escape (comp_value c) = [] \<Longrightarrow> comp_value c = []" using unescape_escape [of "comp_value c"] by fastforce
  ultimately show ?thesis by (auto simp: writeUriEscapedValue_def ascii_def)
qed

lemma digits_uri_chars: "list_all uri_char (to_string n)"
  using to_string_digits [of n] by (auto simp: list_all_iff uri_char_def unreserved_def isdigit_def)

lemma hex_uri_chars: "list_all uri_char (printHex v)"
  by (auto simp: printHex_def list_all_iff uri_char_def)

text \<open>A type prefix in front of the equals sign.\<close>

lemma typed_component:
  assumes "list_all uri_char p"
  shows "fromEscapedString (p @ 61 # r) =
    (if 1 \<le> strtoul p \<and> strtoul p \<le> 65535 \<and> to_string (strtoul p) = p then parseUriEscapedValue (strtoul p) r
     else case findByUriPrefix p of None \<Rightarrow> Inl TlvError | Some ct \<Rightarrow> parseAltUriValue ct r)"
proof -
  have "61 \<notin> set p" using assms uri_char_not by (auto simp: list_all_iff)
  then show ?thesis by (simp add: fromEscapedString_def find_char_append Let_def)
qed

lemma parse_base:
  assumes "ensureValid c = Inr c"
  shows "fromEscapedString (base_writeUri c) = Inr c"
proof -
  have "1 \<le> comp_type c" "comp_type c \<le> 65535" using assms by (auto simp: ensureValid_def split: if_splits)
  then show ?thesis using parse_escaped [OF assms refl] by (simp add: base_writeUri_def typed_component digits_uri_chars)
qed

lemma parse_generic:
  assumes "ensureValid c = Inr c" "comp_type c = GenericNameComponent"
  shows "fromEscapedString (writeUriEscapedValue c) = Inr c"
proof -
  have "61 \<notin> set (writeUriEscapedValue c)" using escaped_chars [of c] uri_char_not by (auto simp: list_all_iff)
  then show ?thesis using parse_escaped [OF assms(1) refl] assms(2) by (simp add: fromEscapedString_def find_char_None)
qed

lemma ascii_prefixes:
  "ascii ''sha256digest'' = [115, 104, 97, 50, 53, 54, 100, 105, 103, 101, 115, 116]"
  "ascii ''params-sha256'' = [112, 97, 114, 97, 109, 115, 45, 115, 104, 97, 50, 53, 54]"
  "ascii ''seg'' = [115, 101, 103]" "ascii ''off'' = [111, 102, 102]" "ascii ''v'' = [118]" "ascii ''t'' = [116]"
  "ascii ''seq'' = [115, 101, 113]" "ascii ''RN'' = [82, 78]"
  by (simp_all add: ascii_def)

lemma table_prefixes:
  "list_all (\<lambda>(t, ct). getAltUriPrefix ct \<noteq> [] \<longrightarrow> findByUriPrefix (getAltUriPrefix ct) = Some ct \<and> strtoul (getAltUriPrefix ct) = 0 \<and>
     list_all uri_char (getAltUriPrefix ct)) component_type_table"
  by (simp add: component_type_table_def ascii_prefixes findByUriPrefix_def strtoul_def number_prefix_def digits_value_def isspace_def isdigit_def
      uri_char_def unreserved_def)

lemma table_entry: "map_of component_type_table t = Some ct \<Longrightarrow> getAltUriPrefix ct \<noteq> [] \<Longrightarrow>
    findByUriPrefix (getAltUriPrefix ct) = Some ct \<and> strtoul (getAltUriPrefix ct) = 0 \<and> list_all uri_char (getAltUriPrefix ct)"
  using table_prefixes by (auto simp: list_all_iff dest: map_of_SomeD)


text \<open>
  Components whose printed form is read back: in the alternate format a number is printed in decimal
  and read as its shortest encoding, and reflexive components are not read at all.
\<close>

definition uri_ok :: "bool \<Rightarrow> component \<Rightarrow> bool" where
  "uri_ok alt c \<longleftrightarrow> ensureValid c = Inr c \<and>
     (alt \<longrightarrow> (case get_type (comp_type c) of
        ReflexiveNameComponentType _ _ \<Rightarrow> False
      | DecimalComponentType _ _ \<Rightarrow> isNumber c \<longrightarrow> fromNumber (big_to_native (comp_value c)) (comp_type c) = c
      | _ \<Rightarrow> True))"

lemma table_types:
  "list_all (\<lambda>(t, ct). case ct of DecimalComponentType u p \<Rightarrow> u = t \<and> p \<noteq> [] | Sha256ComponentType u p \<Rightarrow> u = t \<and> p \<noteq> []
     | ReflexiveNameComponentType u p \<Rightarrow> u = t \<and> p \<noteq> [] | GenericNameComponentType \<Rightarrow> t = GenericNameComponent | BaseType \<Rightarrow> True) component_type_table"
  by (simp add: component_type_table_def ascii_def)

lemma get_type_entry:
  assumes "get_type t = ct" "ct \<noteq> BaseType"
  shows "map_of component_type_table t = Some ct"
  using assms by (auto simp: get_type_def split: option.splits)

lemma get_type_cases:
  "case get_type t of DecimalComponentType u p \<Rightarrow> u = t \<and> p \<noteq> [] | Sha256ComponentType u p \<Rightarrow> u = t \<and> p \<noteq> []
     | ReflexiveNameComponentType u p \<Rightarrow> u = t \<and> p \<noteq> [] | GenericNameComponentType \<Rightarrow> t = GenericNameComponent | BaseType \<Rightarrow> True"
proof (cases "get_type t = BaseType")
  case False
  then have "(t, get_type t) \<in> set component_type_table" using get_type_entry [OF refl] map_of_SomeD by fast
  then show ?thesis using table_types unfolding list_all_iff by fast
qed simp

lemma alt_component:
  assumes "get_type t = ct" "getAltUriPrefix ct = p" "p \<noteq> []"
  shows "fromEscapedString (p @ 61 # r) = parseAltUriValue ct r" "list_all uri_char p"
proof -
  have "ct \<noteq> BaseType" using assms(2,3) by auto
  then have t: "findByUriPrefix p = Some ct" "strtoul p = 0" "list_all uri_char p"
    using table_entry [OF get_type_entry [OF assms(1)]] assms(2,3) by auto
  then show "fromEscapedString (p @ 61 # r) = parseAltUriValue ct r" "list_all uri_char p" by (simp_all add: typed_component)
qed

definition uri_segment :: "bytes \<Rightarrow> bool" where
  "uri_segment s \<longleftrightarrow> s \<noteq> [] \<and> 47 \<notin> set s \<and> 58 \<notin> set s"

lemma uri_segmentI: "list_all uri_char p \<Longrightarrow> list_all uri_char r \<Longrightarrow> uri_segment (p @ 61 # r)"
  using uri_char_not by (fastforce simp: uri_segment_def list_all_iff)

lemma base_segment: "uri_segment (base_writeUri c)"
  using uri_segmentI [OF digits_uri_chars conjunct1 [OF escaped_chars]] by (simp add: base_writeUri_def)

lemma comp_segment: "\<exists>s. comp_toUri env format c = Inr s \<and> uri_segment s"
proof (cases "wantAltUri env format")
  case True
  have e: "uri_segment (writeUriEscapedValue c)" using escaped_chars [of c] uri_char_not by (auto simp: uri_segment_def list_all_iff)
  note d = alt_component(2) [OF refl refl, of "comp_type c"]
  show ?thesis using True e get_type_cases [of "comp_type c"] d uri_segmentI [OF _ digits_uri_chars] uri_segmentI [OF _ hex_uri_chars]
      uri_segmentI [OF _ conjunct1 [OF escaped_chars]] base_segment
    by (cases "get_type (comp_type c)") (auto simp: comp_toUri_def toNumber_cases)
qed (simp add: comp_toUri_def base_segment)

lemma comp_uri_roundtrip:
  assumes "uri_ok (wantAltUri env format) c" "comp_toUri env format c = Inr s"
  shows "fromEscapedString s = Inr c"
proof (cases "wantAltUri env format")
  case False
  then show ?thesis using assms parse_base by (auto simp: uri_ok_def comp_toUri_def)
next
  case True
  have v: "ensureValid c = Inr c" using assms(1) by (simp add: uri_ok_def)
  note d = alt_component(1) [OF refl refl, of "comp_type c"] get_type_cases [of "comp_type c"]
  show ?thesis
  proof (cases "get_type (comp_type c)")
    case BaseType
    then show ?thesis using True assms v parse_base by (auto simp: comp_toUri_def)
  next
    case GenericNameComponentType
    then show ?thesis using True assms v parse_generic d(2) by (auto simp: comp_toUri_def)
  next
    case (ReflexiveNameComponentType t p)
    then show ?thesis using True assms by (simp add: uri_ok_def)
  next
    case (Sha256ComponentType t p)
    then show ?thesis using True assms(2) v d by (cases c) (auto simp: comp_toUri_def)
  next
    case (DecimalComponentType t p)
    show ?thesis
    proof (cases "isNumber c")
      case True': True
      have "unat (big_to_native (comp_value c)) < 2 ^ 64" by (rule order_less_le_trans [OF unsigned_less]) simp
      then show ?thesis using True True' DecimalComponentType assms d by (auto simp: comp_toUri_def uri_ok_def toNumber_cases)
    next
      case False
      then show ?thesis using True DecimalComponentType assms v parse_base by (auto simp: comp_toUri_def)
    qed
  qed
qed


section \<open>Names\<close>

text \<open>The loop of both constructors over the segments of a URI.\<close>

lemma takeWhile_segment: "47 \<notin> set s \<Longrightarrow> takeWhile (\<lambda>x. x \<noteq> 47) (s @ 47 # r) = s" "47 \<notin> set s \<Longrightarrow> takeWhile (\<lambda>x. x \<noteq> 47) s = s"
  by (subst takeWhile_append2; auto) (auto simp: takeWhile_eq_all_conv)

lemma parse_uri_last: "uri_segment s \<Longrightarrow> parse_uri s = bind_res (fromEscapedString s) (\<lambda>c. Inr [c])"
  "uri_segment s \<Longrightarrow> parse_uri_RN s = bind_res (RNfromEscapedString s) (\<lambda>c. Inr [c])"
  by (subst parse_uri.simps parse_uri_RN.simps; simp add: uri_segment_def takeWhile_segment)+

lemma parse_uri_more:
  assumes "uri_segment s" "r \<noteq> []" "fromEscapedString s = Inr c"
  shows "parse_uri (s @ 47 # r) = bind_res (parse_uri r) (\<lambda>cs. Inr (c # cs))"
    "parse_uri_RN (s @ 47 # r) = bind_res (parse_uri_RN r) (\<lambda>cs. Inr (c # cs))"
  using assms by (subst parse_uri.simps parse_uri_RN.simps; simp add: uri_segment_def takeWhile_segment)+

lemma bind_res_assoc: "bind_res (bind_res m f) g = bind_res m (\<lambda>x. bind_res (f x) g)"
  by (cases m) simp_all

lemma write_components_Inr: "\<exists>u. write_components env format n = Inr u \<and> 58 \<notin> set u \<and> (n \<noteq> [] \<longrightarrow> (\<exists>v. u = 47 # v \<and> v \<noteq> [] \<and> hd v \<noteq> 47))"
proof (induction n)
  case (Cons c n)
  obtain s where "comp_toUri env format c = Inr s" "uri_segment s" using comp_segment by blast
  moreover obtain u where "write_components env format n = Inr u" "58 \<notin> set u" using Cons by blast
  ultimately show ?case by (cases s) (auto simp: uri_segment_def)
qed simp

lemma parse_prefix:
  assumes "list_all (uri_ok (wantAltUri env format)) p" "write_components env format p = Inr u" "r \<noteq> []"
  shows "parse_uri (tl (u @ 47 # r)) = bind_res (parse_uri r) (\<lambda>cs. Inr (p @ cs))"
    "parse_uri_RN (tl (u @ 47 # r)) = bind_res (parse_uri_RN r) (\<lambda>cs. Inr (p @ cs))"
  using assms
proof (induction p arbitrary: u)
  case Nil
  { case 1 then show ?case by (cases "parse_uri r") simp_all }
  { case 2 then show ?case by (cases "parse_uri_RN r") simp_all }
next
  case (Cons c p)
  have *: "parse_uri (tl (u @ 47 # r)) = bind_res (parse_uri r) (\<lambda>cs. Inr ((c # p) @ cs)) \<and>
     parse_uri_RN (tl (u @ 47 # r)) = bind_res (parse_uri_RN r) (\<lambda>cs. Inr ((c # p) @ cs))"
    if a: "list_all (uri_ok (wantAltUri env format)) (c # p)" "write_components env format (c # p) = Inr u" for u
  proof -
    obtain s u' where s: "comp_toUri env format c = Inr s" "write_components env format p = Inr u'" "u = 47 # s @ u'"
      using a(2) by (auto simp: bind_res_eq_Inr)
    then have seg: "uri_segment s" and c: "fromEscapedString s = Inr c"
      using comp_segment [of env format c] comp_uri_roundtrip [OF _ s(1)] a(1) by auto
    have "u' @ 47 # r = 47 # tl (u' @ 47 # r)"
      using write_components_Inr [of env format p] s(2) by (cases p) auto
    moreover have "tl (u' @ 47 # r) \<noteq> []" using assms(3) by (cases u') auto
    ultimately have "parse_uri (tl (u @ 47 # r)) = bind_res (parse_uri (tl (u' @ 47 # r))) (\<lambda>cs. Inr (c # cs))"
      "parse_uri_RN (tl (u @ 47 # r)) = bind_res (parse_uri_RN (tl (u' @ 47 # r))) (\<lambda>cs. Inr (c # cs))"
      using parse_uri_more [OF seg _ c, of "tl (u' @ 47 # r)"] s(3) by (metis append_Cons append_assoc list.sel(3))+
    then show ?thesis using Cons.IH [of u'] s(2) a(1) assms(3) by (simp add: bind_res_assoc)
  qed
  { case 1 then show ?case using * by blast }
  { case 2 then show ?case using * by blast }
qed

lemma strip_plain:
  assumes "58 \<notin> set u" "u = 47 # v" "v \<noteq> []" "hd v \<noteq> 47"
  shows "strip_authority (strip_scheme u) = Some v"
  using assms by (cases v) (auto simp: strip_scheme_def strip_authority_def find_char_None)

lemma write_components_append:
  "write_components env format (p @ q) = bind_res (write_components env format p) (\<lambda>a. bind_res (write_components env format q) (\<lambda>b. Inr (a @ b)))"
proof (induction p)
  case (Cons c p)
  then show ?case by (cases "comp_toUri env format c"; cases "write_components env format p"; cases "write_components env format q") auto
qed (cases "write_components env format q"; simp)

lemma Name_uri_written:
  assumes "list_all (uri_ok (wantAltUri env format)) p" "write_components env format p = Inr u" "uri_segment s"
  shows "Name_uri (u @ 47 # s) = bind_res (fromEscapedString s) (\<lambda>c. Inr (p @ [c]))"
    "Name_uri_RN (u @ 47 # s) True = bind_res (RNfromEscapedString s) (\<lambda>c. Inr (p @ [c]))"
proof -
  have s: "s \<noteq> []" "hd s \<noteq> 47" "58 \<notin> set s" using assms(3) by (cases s; auto simp: uri_segment_def)+
  have "58 \<notin> set (u @ 47 # s) \<and> (\<exists>v. u @ 47 # s = 47 # v \<and> v \<noteq> [] \<and> hd v \<noteq> 47)"
    using write_components_Inr [of env format p] assms(2) s by (cases p) auto
  then have "strip_authority (strip_scheme (u @ 47 # s)) = Some (tl (u @ 47 # s))" using strip_plain by (metis list.sel(3))
  then show "Name_uri (u @ 47 # s) = bind_res (fromEscapedString s) (\<lambda>c. Inr (p @ [c]))"
    "Name_uri_RN (u @ 47 # s) True = bind_res (RNfromEscapedString s) (\<lambda>c. Inr (p @ [c]))"
    using parse_prefix [OF assms(1,2) s(1)] parse_uri_last [OF assms(3)] by (simp_all add: Name_uri_def Name_uri_RN_def bind_res_assoc)
qed

lemma name_toUri_snoc:
  assumes "write_components env format p = Inr u" "comp_toUri env format c = Inr s"
  shows "name_toUri env format (p @ [c]) = Inr (u @ 47 # s)"
  using assms by (simp add: name_toUri_def write_components_append)


lemma parse_uri_error:
  assumes "uri_segment s" "fromEscapedString s = Inl e" "r = [] \<or> (\<exists>r'. r = 47 # r')"
  shows "parse_uri (s @ r) = Inl e"
  using assms by (subst parse_uri.simps) (auto simp: uri_segment_def takeWhile_segment)

lemma alt_reflexive_unreadable:
  assumes "wantAltUri env format" "comp_type c = ReflexiveNameComponent" "comp_toUri env format c = Inr s"
  shows "fromEscapedString s = Inl UndefinedBehavior"
proof -
  have t: "get_type ReflexiveNameComponent = ReflexiveNameComponentType ReflexiveNameComponent (ascii ''RN'')"
    by (simp add: get_type_def component_type_table_def)
  from alt_component(1) [OF this refl, of "writeUriEscapedValue c"] show ?thesis using assms t by (auto simp: comp_toUri_def ascii_prefixes)
qed

lemma RN_escaped:
  assumes "\<not> list_all (\<lambda>x. x = 46) v"
  shows "uri_segment (escape v)" "RNfromEscapedString (escape v) = Inr (Component ReflexiveNameComponent v)"
proof -
  have c: "x \<in> set (escape v) \<Longrightarrow> x \<noteq> 47 \<and> x \<noteq> 58 \<and> x \<noteq> 61" for x using escape_chars [of x v] uri_char_not by (auto simp: uri_char_def)
  have "v \<noteq> []" using assms by auto
  then have "escape v \<noteq> []" using unescape_escape [of v] by fastforce
  with c show "uri_segment (escape v)" by (auto simp: uri_segment_def)
  have "find_char 61 (escape v) = None" using c by (auto intro!: find_char_None)
  then show "RNfromEscapedString (escape v) = Inr (Component ReflexiveNameComponent v)"
    using assms by (simp add: RNfromEscapedString_def parseUriEscapedValue_def ensureValid_def)
qed

lemma reflexive_component_lengths:
  "isReflexive (Component ReflexiveNameComponent v) \<longleftrightarrow> length v \<in> {1, 2, 4, 8} \<or> (length v \<in> {3, 5, 9} \<and> v ! 0 = 0)"
  by (auto simp: isReflexive_def isNumber_def isNumberWithMarker_def g_conventionDecoding_def canDecodeMarkerConvention_def canDecodeTypedConvention_def)

text \<open>URIs of plain words.\<close>

definition plain_word :: "bytes \<Rightarrow> bool" where
  "plain_word s \<longleftrightarrow> list_all unreserved s \<and> \<not> list_all (\<lambda>x. x = 46) s"

lemma escape_plain [simp]: "plain_word s \<Longrightarrow> escape s = s"
proof -
  have "list_all unreserved s \<Longrightarrow> escape s = s" by (induction s) (simp_all add: escape_def escape_char_def)
  then show "plain_word s \<Longrightarrow> escape s = s" by (simp add: plain_word_def)
qed

lemma generic_type [simp]: "get_type 8 = GenericNameComponentType"
  by (simp add: get_type_def component_type_table_def)

lemma plain_component:
  assumes "plain_word s"
  shows "uri_ok True (Component 8 s)" "comp_toUri None ENV_OR_ALTERNATE (Component 8 s) = Inr s"
  using assms by (simp_all add: uri_ok_def ensureValid_def comp_toUri_def wantAltUri_def writeUriEscapedValue_def plain_word_def)

lemma plain_components:
  assumes "list_all plain_word ps"
  shows "list_all (uri_ok (wantAltUri None ENV_OR_ALTERNATE)) (map (Component 8) ps)"
    "write_components None ENV_OR_ALTERNATE (map (Component 8) ps) = Inr (concat (map ((#) 47) ps))"
  using assms by (induction ps) (simp_all add: plain_component wantAltUri_def)

lemma Name_uri_plain:
  assumes "list_all plain_word ps" "plain_word v"
  shows "Name_uri_RN (concat (map ((#) 47) ps) @ 47 # v) True = Inr (map (Component 8) ps @ [Component 59 v])"
    "Name_uri (concat (map ((#) 47) ps) @ 47 # v) = Inr (map (Component 8) (ps @ [v]))"
proof -
  have v: "\<not> list_all (\<lambda>x. x = 46) v" "escape v = v" using assms(2) by (auto simp: plain_word_def escape_plain)
  have seg: "uri_segment v" using RN_escaped(1) [OF v(1)] v(2) by simp
  have "fromEscapedString v = Inr (Component 8 v)"
    using comp_uri_roundtrip [OF _ plain_component(2) [OF assms(2)]] plain_component(1) [OF assms(2)] by (simp add: wantAltUri_def)
  then show "Name_uri_RN (concat (map ((#) 47) ps) @ 47 # v) True = Inr (map (Component 8) ps @ [Component 59 v])"
    "Name_uri (concat (map ((#) 47) ps) @ 47 # v) = Inr (map (Component 8) (ps @ [v]))"
    using Name_uri_written [OF plain_components [OF assms(1)] seg] RN_escaped(2) [OF v(1)] v(2) by simp_all
qed

section \<open>Properties\<close>

text \<open>
  C39: A name is read back from its URI.  In the canonical format this holds for every name of valid
  components, reflexive ones included; in the alternate format for names without reflexive components
  whose numeric components have the shortest encoding.
\<close>

theorem name_uri_roundtrip:
  assumes "list_all (uri_ok (wantAltUri env format)) n"
  shows "\<exists>u. name_toUri env format n = Inr u \<and> Name_uri u = Inr n"
proof (cases n rule: rev_cases)
  case Nil
  have "Name_uri [47] = Inr []" by (simp add: Name_uri_def strip_scheme_def strip_authority_def find_char_def parse_uri.simps)
  with Nil show ?thesis by (simp add: name_toUri_def)
next
  case (snoc p c)
  obtain u where u: "write_components env format p = Inr u" using write_components_Inr by blast
  obtain s where s: "comp_toUri env format c = Inr s" "uri_segment s" using comp_segment by blast
  have "fromEscapedString s = Inr c" using comp_uri_roundtrip [OF _ s(1)] assms snoc by simp
  then show ?thesis using name_toUri_snoc [OF u s(1)] Name_uri_written(1) [OF _ u s(2)] assms snoc by simp
qed

theorem name_uri_roundtrip_witness:
  "(\<exists>u. name_toUri None ENV_OR_CANONICAL [Component 8 [47, 58, 255], Component 8 [46], Component 59 [57, 57, 57, 57]] = Inr u \<and>
      Name_uri u = Inr [Component 8 [47, 58, 255], Component 8 [46], Component 59 [57, 57, 57, 57]]) \<and>
   (\<exists>u. name_toUri None ENV_OR_ALTERNATE [Component 8 [61], Component 54 [7]] = Inr u \<and> Name_uri u = Inr [Component 8 [61], Component 54 [7]])"
proof
  show "\<exists>u. name_toUri None ENV_OR_CANONICAL [Component 8 [47, 58, 255], Component 8 [46], Component 59 [57, 57, 57, 57]] = Inr u \<and>
      Name_uri u = Inr [Component 8 [47, 58, 255], Component 8 [46], Component 59 [57, 57, 57, 57]]"
    by (rule name_uri_roundtrip) (simp add: uri_ok_def wantAltUri_def ensureValid_def)
  show "\<exists>u. name_toUri None ENV_OR_ALTERNATE [Component 8 [61], Component 54 [7]] = Inr u \<and> Name_uri u = Inr [Component 8 [61], Component 54 [7]]"
    by (rule name_uri_roundtrip)
      (simp add: uri_ok_def wantAltUri_def ensureValid_def get_type_def component_type_table_def fromNumber_def big_to_native_def be_nat_def
        writeNonNegativeInteger_def)
qed

text \<open>
  C40: The reflexive-name constructor reads the last segment of a URI as a reflexive component of exactly
  its bytes, and the others as usual; the result is a reflexive name only if the number of those
  bytes is 1, 2, 4 or 8 (or 3, 5 or 9 after a zero byte).  The default, alternate, URI of such a name cannot
  be read again: reading it ends in code declared unreachable.
\<close>

theorem reflexive_name_uri:
  assumes "list_all (uri_ok True) p" "\<not> list_all (\<lambda>x. x = 46) v" "write_components None ENV_OR_ALTERNATE p = Inr u"
  shows "Name_uri_RN (u @ 47 # escape v) True = Inr (p @ [Component ReflexiveNameComponent v]) \<and>
    (isReflexive (Component ReflexiveNameComponent v) \<longleftrightarrow> length v \<in> {1, 2, 4, 8} \<or> (length v \<in> {3, 5, 9} \<and> v ! 0 = 0)) \<and>
    (\<exists>w. name_toUri None ENV_OR_ALTERNATE (p @ [Component ReflexiveNameComponent v]) = Inr w \<and> Name_uri w = Inl UndefinedBehavior)"
proof -
  have alt: "wantAltUri None ENV_OR_ALTERNATE" by (simp add: wantAltUri_def)
  then have p: "list_all (uri_ok (wantAltUri None ENV_OR_ALTERNATE)) p" using assms(1) by simp
  let ?c = "Component ReflexiveNameComponent v"
  obtain s where s: "comp_toUri None ENV_OR_ALTERNATE ?c = Inr s" "uri_segment s" using comp_segment by blast
  have "fromEscapedString s = Inl UndefinedBehavior" using alt_reflexive_unreadable [OF alt _ s(1)] by simp
  then have "Name_uri (u @ 47 # s) = Inl UndefinedBehavior" using Name_uri_written(1) [OF p assms(3) s(2)] by simp
  then show ?thesis
    using name_toUri_snoc [OF assms(3) s(1)] Name_uri_written(2) [OF p assms(3) RN_escaped(1) [OF assms(2)]] RN_escaped(2) [OF assms(2)]
      reflexive_component_lengths [of v] by simp
qed

theorem reflexive_name_uri_witness:
  "Name_uri_RN (ascii ''/testApp/12345'') True = Inr [Component 8 (ascii ''testApp''), Component 59 (ascii ''12345'')] \<and>
   \<not> isReflexive (Component 59 (ascii ''12345'')) \<and>
   (\<exists>w. name_toUri None ENV_OR_ALTERNATE [Component 8 (ascii ''testApp''), Component 59 (ascii ''12345'')] = Inr w \<and> Name_uri w = Inl UndefinedBehavior)"
proof -
  let ?c = "Component 8 (ascii ''testApp'')"
  have ok: "list_all (uri_ok True) [?c]" by (simp add: uri_ok_def ensureValid_def get_type_def component_type_table_def)
  have w: "write_components None ENV_OR_ALTERNATE [?c] = Inr (ascii ''/testApp'')"
    by (simp add: comp_toUri_def wantAltUri_def get_type_def component_type_table_def writeUriEscapedValue_def escape_def escape_char_def
        unreserved_def ascii_def)
  have e: "escape (ascii ''12345'') = ascii ''12345''" by (simp add: escape_def escape_char_def unreserved_def ascii_def)
  have u: "ascii ''/testApp'' @ 47 # ascii ''12345'' = ascii ''/testApp/12345''" "\<not> list_all (\<lambda>x. x = 46) (ascii ''12345'')"
    "length (ascii ''12345'') = 5" "ascii ''12345'' ! 0 \<noteq> 0" by (simp_all add: ascii_def)
  show ?thesis using reflexive_name_uri [OF ok u(2) w] u e by simp
qed

end
