(* ===== verification/Interest_Codec.thy ===== *)
theory Interest_Codec
  imports Packets
begin

text \<open>
  The wire format of Interests (\<open>ndn-cxx/interest.cpp\<close>): encoding, decoding with its checks on the
  order and the form of the elements, and the ParametersSha256Digest component that ties the name to
  the application parameters.  An element kept from a packet keeps the bytes it came with, because
  the digest is taken over them.  SHA-256 is a parameter.  The packet the forwarder works on is the
  view \<open>to_interest\<close>.
\<close>

section \<open>Elements with their bytes\<close>

type_synonym wire_block = "block \<times> bytes"

definition canonical :: "block \<Rightarrow> wire_block" where
  "canonical b = (b, block_wire b)"

function parse_wire :: "bytes \<Rightarrow> wire_block list res" where
  "parse_wire bs =
     (if bs = [] then Inr []
      else case fromBuffer bs of
        None \<Rightarrow> Inl TlvError
      | Some (b, rest) \<Rightarrow> bind_res (parse_wire rest) (\<lambda>es. Inr ((b, take (length bs - length rest) bs) # es)))"
  by auto
termination
  by (relation "measure length") (auto dest: fromBuffer_progress)

declare parse_wire.simps [simp del]

definition TLV_Interest :: nat where "TLV_Interest = 5"
definition TLV_CanBePrefix :: nat where "TLV_CanBePrefix = 33"
definition TLV_MustBeFresh :: nat where "TLV_MustBeFresh = 18"
definition TLV_ForwardingHint :: nat where "TLV_ForwardingHint = 30"
definition TLV_Nonce :: nat where "TLV_Nonce = 10"
definition TLV_InterestLifetime :: nat where "TLV_InterestLifetime = 12"
definition TLV_HopLimit :: nat where "TLV_HopLimit = 34"
definition TLV_ApplicationParameters :: nat where "TLV_ApplicationParameters = 36"
definition TLV_Delegation :: nat where "TLV_Delegation = 31"

lemmas tlv_interest_defs = TLV_Name_def TLV_CanBePrefix_def TLV_MustBeFresh_def TLV_ForwardingHint_def TLV_Nonce_def
  TLV_InterestLifetime_def TLV_HopLimit_def TLV_ApplicationParameters_def TLV_Delegation_def

section \<open>The packet\<close>

record interest_packet =
  p_name :: name
  p_canBePrefix :: bool
  p_mustBeFresh :: bool
  p_forwardingHint :: "name list"
  p_nonce :: "bytes option"
  p_lifetime :: int
  p_hopLimit :: "byte option"
  p_parameters :: "wire_block list"

definition new_packet :: "name \<Rightarrow> interest_packet" where
  "new_packet n = \<lparr>p_name = n, p_canBePrefix = False, p_mustBeFresh = False, p_forwardingHint = [], p_nonce = None,
     p_lifetime = DEFAULT_INTEREST_LIFETIME, p_hopLimit = None, p_parameters = []\<rparr>"

definition hasApplicationParameters :: "interest_packet \<Rightarrow> bool" where
  "hasApplicationParameters p \<longleftrightarrow> p_parameters p \<noteq> []"

text \<open>\<open>generateNonce\<close> copies the memory of a random word, lowest byte first.\<close>

definition nonce_bytes :: "32 word \<Rightarrow> bytes" where
  "nonce_bytes w = rev (be_bytes 4 (unat w))"

definition packet_getNonce :: "random_source \<Rightarrow> nat \<Rightarrow> interest_packet \<Rightarrow> interest_packet \<times> nat" where
  "packet_getNonce rnd k p =
     (case p_nonce p of Some n \<Rightarrow> (p, k) | None \<Rightarrow> (p\<lparr>p_nonce := Some (nonce_bytes (rnd k))\<rparr>, Suc k))"

section \<open>Encoding\<close>

text \<open>The value of the packet, in the order of the packet format (the encoder works backwards).\<close>

definition interest_value :: "interest_packet \<Rightarrow> bytes" where
  "interest_value p =
     name_wireEncode (p_name p) @
     (if p_canBePrefix p then makeBinaryBlock TLV_CanBePrefix [] else []) @
     (if p_mustBeFresh p then makeBinaryBlock TLV_MustBeFresh [] else []) @
     (if p_forwardingHint p \<noteq> [] then makeBinaryBlock TLV_ForwardingHint (concat (map name_wireEncode (p_forwardingHint p))) else []) @
     (case p_nonce p of Some n \<Rightarrow> makeBinaryBlock TLV_Nonce n | None \<Rightarrow> []) @
     (if p_lifetime p \<noteq> DEFAULT_INTEREST_LIFETIME
      then makeNonNegativeIntegerBlock TLV_InterestLifetime (word_of_int (p_lifetime p)) else []) @
     (case p_hopLimit p of Some h \<Rightarrow> makeBinaryBlock TLV_HopLimit [h] | None \<Rightarrow> []) @
     concat (map snd (p_parameters p))"

definition interest_wireEncode :: "random_source \<Rightarrow> nat \<Rightarrow> interest_packet \<Rightarrow> (bytes \<times> interest_packet \<times> nat) res" where
  "interest_wireEncode rnd k p =
     (let digestIndex = findParametersDigestComponent (p_name p) in
      assert_res (digestIndex \<noteq> -2)
      (if digestIndex = -1 \<and> hasApplicationParameters p then Inl TlvError
       else if digestIndex \<noteq> -1 \<and> \<not> hasApplicationParameters p then Inl TlvError
       else let (p, k) = packet_getNonce rnd k p in Inr (makeBinaryBlock TLV_Interest (interest_value p), p, k)))"

section \<open>The parameters digest\<close>

definition computeParametersDigest :: "(bytes \<Rightarrow> bytes) \<Rightarrow> interest_packet \<Rightarrow> bytes" where
  "computeParametersDigest sha256 p = sha256 (concat (map snd (p_parameters p)))"

definition isParametersDigestValid :: "(bytes \<Rightarrow> bytes) \<Rightarrow> interest_packet \<Rightarrow> bool res" where
  "isParametersDigestValid sha256 p =
     (let digestIndex = findParametersDigestComponent (p_name p) in
      if digestIndex = -1 then Inr (\<not> hasApplicationParameters p)
      else assert_res (digestIndex \<ge> 0)
        (if \<not> hasApplicationParameters p then Inr False
         else Inr (comp_value (p_name p ! nat digestIndex) = computeParametersDigest sha256 p)))"

definition addOrReplaceParametersDigestComponent :: "(bytes \<Rightarrow> bytes) \<Rightarrow> interest_packet \<Rightarrow> interest_packet res" where
  "addOrReplaceParametersDigestComponent sha256 p =
     assert_res (hasApplicationParameters p)
     (let digestIndex = findParametersDigestComponent (p_name p) in
      bind_res (ensureValid (Component ParametersSha256DigestComponent (computeParametersDigest sha256 p))) (\<lambda>c.
      if digestIndex = -1 then Inr (p\<lparr>p_name := p_name p @ [c]\<rparr>)
      else assert_res (digestIndex \<ge> 0) (Inr (p\<lparr>p_name := (p_name p)[nat digestIndex := c]\<rparr>))))"

definition setApplicationParametersInternal :: "(bytes \<Rightarrow> bytes) \<Rightarrow> wire_block \<Rightarrow> interest_packet \<Rightarrow> interest_packet res" where
  "setApplicationParametersInternal sha256 b p =
     bind_res (case p_parameters p of
         [] \<Rightarrow> Inr (p\<lparr>p_parameters := [b]\<rparr>)
       | x # xs \<Rightarrow> assert_res (block_type (fst x) = TLV_ApplicationParameters) (Inr (p\<lparr>p_parameters := b # xs\<rparr>)))
     (addOrReplaceParametersDigestComponent sha256)"

definition setApplicationParameters :: "(bytes \<Rightarrow> bytes) \<Rightarrow> bytes \<Rightarrow> interest_packet \<Rightarrow> interest_packet res" where
  "setApplicationParameters sha256 v = setApplicationParametersInternal sha256 (canonical (Block TLV_ApplicationParameters v))"

definition setApplicationParameters_block :: "(bytes \<Rightarrow> bytes) \<Rightarrow> wire_block \<Rightarrow> interest_packet \<Rightarrow> interest_packet res" where
  "setApplicationParameters_block sha256 b p =
     (if block_type (fst b) = Invalid then Inl InvalidArgument
      else if block_type (fst b) = TLV_ApplicationParameters then setApplicationParametersInternal sha256 b p
      else setApplicationParametersInternal sha256 (canonical (Block TLV_ApplicationParameters (snd b))) p)"

definition unsetApplicationParameters :: "interest_packet \<Rightarrow> interest_packet" where
  "unsetApplicationParameters p =
     (let digestIndex = findParametersDigestComponent (p_name p); p = p\<lparr>p_parameters := []\<rparr>
      in if digestIndex \<ge> 0 then p\<lparr>p_name := name_erase (p_name p) (nat digestIndex)\<rparr> else p)"

definition setName :: "(bytes \<Rightarrow> bytes) \<Rightarrow> name \<Rightarrow> interest_packet \<Rightarrow> interest_packet res" where
  "setName sha256 n p =
     (if findParametersDigestComponent n = -2 then Inl InvalidArgument
      else if n \<noteq> p_name p
      then let p = p\<lparr>p_name := n\<rparr>
           in if hasApplicationParameters p then addOrReplaceParametersDigestComponent sha256 p else Inr p
      else Inr p)"

definition setInterestLifetime :: "int \<Rightarrow> interest_packet \<Rightarrow> interest_packet res" where
  "setInterestLifetime l p = (if l < 0 then Inl InvalidArgument else Inr (p\<lparr>p_lifetime := l\<rparr>))"

section \<open>Decoding\<close>

definition hint_step :: "block \<Rightarrow> name list \<Rightarrow> name list res" where
  "hint_step del ns =
     (if block_type del = TLV_Name then bind_res (name_wireDecode del) (\<lambda>n. Inr (ns @ [n]))
      else if block_type del = TLV_Delegation
      then bind_res (parse_elements (block_value del)) (\<lambda>es.
           case find (\<lambda>e. block_type e = TLV_Name) es of
             None \<Rightarrow> Inl TlvError
           | Some e \<Rightarrow> bind_res (name_wireDecode e) (\<lambda>n. Inr (ns @ [n])))
      else if isCriticalType (block_type del) then Inl TlvError
      else Inr ns)"

text \<open>The loop over the elements after the name, with the index of the last recognised one.\<close>

definition interest_step :: "wire_block \<Rightarrow> interest_packet \<times> nat \<Rightarrow> (interest_packet \<times> nat) res" where
  "interest_step w s =
     (let t = block_type (fst w); v = block_value (fst w); p = fst s; lastElement = snd s in
      if t = TLV_CanBePrefix then
        (if lastElement \<ge> 2 then Inl TlvError else if length v \<noteq> 0 then Inl TlvError
         else Inr (p\<lparr>p_canBePrefix := True\<rparr>, 2))
      else if t = TLV_MustBeFresh then
        (if lastElement \<ge> 3 then Inl TlvError else if length v \<noteq> 0 then Inl TlvError
         else Inr (p\<lparr>p_mustBeFresh := True\<rparr>, 3))
      else if t = TLV_ForwardingHint then
        (if lastElement \<ge> 4 then Inl TlvError
         else bind_res (parse_elements v) (\<lambda>dels. bind_res (fold_res hint_step dels (p_forwardingHint p)) (\<lambda>ns.
              Inr (p\<lparr>p_forwardingHint := ns\<rparr>, 4))))
      else if t = TLV_Nonce then
        (if lastElement \<ge> 5 then Inl TlvError else if length v \<noteq> 4 then Inl TlvError
         else Inr (p\<lparr>p_nonce := Some v\<rparr>, 5))
      else if t = TLV_InterestLifetime then
        (if lastElement \<ge> 6 then Inl TlvError
         else bind_res (readNonNegativeInteger (length v) v) (\<lambda>(n, _). Inr (p\<lparr>p_lifetime := sint n\<rparr>, 6)))
      else if t = TLV_HopLimit then
        (if lastElement \<ge> 7 then Inr s else if length v \<noteq> 1 then Inl TlvError
         else Inr (p\<lparr>p_hopLimit := Some (hd v)\<rparr>, 7))
      else if t = TLV_ApplicationParameters then
        (if lastElement \<ge> 8 then Inr s
         else assert_res (\<not> hasApplicationParameters p) (Inr (p\<lparr>p_parameters := p_parameters p @ [w]\<rparr>, 8)))
      else if isCriticalType t then Inl TlvError
      else if hasApplicationParameters p then Inr (p\<lparr>p_parameters := p_parameters p @ [w]\<rparr>, lastElement)
      else Inr s)"

definition interest_wireDecode :: "(bytes \<Rightarrow> bytes) \<Rightarrow> bool \<Rightarrow> block \<Rightarrow> interest_packet res" where
  "interest_wireDecode sha256 autoCheckParametersDigest wire =
     (if block_type wire \<noteq> TLV_Interest then Inl TlvError
      else bind_res (parse_wire (block_value wire)) (\<lambda>es.
      if es = [] \<or> block_type (fst (hd es)) \<noteq> TLV_Name then Inl TlvError
      else bind_res (name_wireDecode (fst (hd es))) (\<lambda>n.
      if n = [] then Inl TlvError
      else if findParametersDigestComponent n = -2 then Inl TlvError
      else bind_res (fold_res interest_step (tl es) (new_packet n, 1)) (\<lambda>(p, _).
      bind_res (if autoCheckParametersDigest then isParametersDigestValid sha256 p else Inr True) (\<lambda>valid.
      if valid then Inr p else Inl TlvError)))))"

text \<open>The packet as the forwarder sees it, without the tags that the link layer adds.\<close>

definition to_interest :: "interest_packet \<Rightarrow> interest" where
  "to_interest p =
     \<lparr>i_name = p_name p, i_canBePrefix = p_canBePrefix p, i_mustBeFresh = p_mustBeFresh p, i_forwardingHint = p_forwardingHint p,
      i_nonce = map_option (\<lambda>n. word_of_nat (be_nat (rev n))) (p_nonce p), i_lifetime = p_lifetime p, i_hopLimit = p_hopLimit p,
      i_incomingFaceId = None, i_nextHopFaceId = None, i_pitToken = None\<rparr>"

section \<open>Decoders read only what they consume\<close>

text \<open>
  A decoder that reads a prefix of its input and does not look further: what it returns for a buffer
  it returns for the consumed bytes in front of any other bytes.
\<close>

locale local_decoder =
  fixes dec :: "bytes \<Rightarrow> ('a \<times> bytes) option"
  assumes local_read: "dec bs = Some (x, rest) \<Longrightarrow> \<exists>u. bs = u @ rest \<and> (\<forall>r. dec (u @ r) = Some (x, r))"
begin

lemma read_prefix: "dec bs = Some (x, rest) \<Longrightarrow> dec (take (length bs - length rest) bs) = Some (x, [])"
  using local_read [of bs x rest] by (metis append.right_neutral append_eq_conv_conj diff_add_inverse2 length_append)

lemma read_more: "dec bs = Some (x, rest) \<Longrightarrow> dec (bs @ r) = Some (x, rest @ r)"
  using local_read [of bs x rest] by (metis append.assoc)

end

interpretation fixed_number: local_decoder "readNumber_fast n"
proof unfold_locales
  fix bs x rest assume "readNumber_fast n bs = Some (x, rest)"
  then have "n \<le> length bs" "x = big_to_native (take n bs)" "rest = drop n bs" by (auto simp: readNumber_fast_def split: if_splits)
  then show "\<exists>u. bs = u @ rest \<and> (\<forall>r. readNumber_fast n (u @ r) = Some (x, r))"
    by (intro exI [of _ "take n bs"]) (simp add: readNumber_fast_def)
qed

lemma readVarNumber_local:
  assumes "readVarNumber bs = Some (x, rest)"
  shows "\<exists>u. bs = u @ rest \<and> (\<forall>r. readVarNumber (u @ r) = Some (x, r))"
proof -
  obtain b bs' where bs: "bs = b # bs'" using assms by (cases bs) (auto simp: readVarNumber_def)
  show ?thesis
  proof (cases "b < 253")
    case True
    then show ?thesis using assms bs by (intro exI [of _ "[b]"]) (auto simp: readVarNumber_def)
  next
    case False
    then obtain u where "bs' = u @ rest"
        "\<forall>r. readNumber_fast (if b = 253 then 2 else if b = 254 then 4 else 8) (u @ r) = Some (x, r)"
      using fixed_number.local_read [of _ bs' x rest] assms bs by (auto simp: readVarNumber_def)
    then show ?thesis using False bs by (intro exI [of _ "b # u"]) (simp add: readVarNumber_def)
  qed
qed

interpretation var_number_local: local_decoder readVarNumber
  by unfold_locales (rule readVarNumber_local)

interpretation type_local: local_decoder readType
proof unfold_locales
  fix bs x rest assume r: "readType bs = Some (x, rest)"
  then obtain w where w: "readVarNumber bs = Some (w, rest)" "x = unat w" "\<not> (unat w = Invalid \<or> unat w > 2 ^ 32 - 1)"
    by (auto simp: readType_def split: option.splits if_splits)
  then show "\<exists>u. bs = u @ rest \<and> (\<forall>r. readType (u @ r) = Some (x, r))"
    using readVarNumber_local [OF w(1)] by (auto simp: readType_def)
qed

interpretation element_local: local_decoder fromBuffer
proof unfold_locales
  fix bs x rest assume "fromBuffer bs = Some (x, rest)"
  then obtain t r1 len r2 where t: "readType bs = Some (t, r1)" and l: "readVarNumber r1 = Some (len, r2)" and
      n: "unat len \<le> length r2" "x = Block t (take (unat len) r2)" "rest = drop (unat len) r2"
    by (auto simp: fromBuffer_def split: option.splits if_splits)
  obtain u v where u: "bs = u @ r1" "\<And>r. readType (u @ r) = Some (t, r)" and v: "r1 = v @ r2" "\<And>r. readVarNumber (v @ r) = Some (len, r)"
    using type_local.local_read [OF t] var_number_local.local_read [OF l] by metis
  show "\<exists>u. bs = u @ rest \<and> (\<forall>r. fromBuffer (u @ r) = Some (x, r))"
    using u v n by (intro exI [of _ "u @ v @ take (unat len) r2"]) (auto simp: fromBuffer_def)
qed

lemma fromBuffer_block_ok:
  assumes "fromBuffer bs = Some (b, rest)"
  shows "block_ok b"
proof -
  obtain t r1 and len :: "64 word" and r2 where t: "readType bs = Some (t, r1)" and n: "b = Block t (take (unat len) r2)"
    using assms by (auto simp: fromBuffer_def split: option.splits if_splits)
  have "0 < t" "t < 2 ^ 32" using t by (auto simp: readType_def Invalid_def split: option.splits if_splits)
  moreover have "length (take (unat len) r2) < 2 ^ 64"
    using unsigned_less [of len, where ?'a = nat] by (simp add: min.strict_coboundedI2)
  ultimately show ?thesis by (simp add: n block_ok_def)
qed

section \<open>Elements with their bytes: lemmas\<close>

definition wire_ok :: "wire_block \<Rightarrow> bool" where
  "wire_ok w \<longleftrightarrow> fromBuffer (snd w) = Some (fst w, [])"

lemma wire_ok_read: "wire_ok w \<Longrightarrow> fromBuffer (snd w @ r) = Some (fst w, r)"
  using element_local.read_more [of "snd w" "fst w" "[]" r] by (simp add: wire_ok_def)

lemma wire_ok_canonical: "block_ok b \<Longrightarrow> wire_ok (canonical b)"
  using tlv_block.dec_enc [of b "[]"] by (simp add: wire_ok_def canonical_def)

lemma wire_ok_block: "wire_ok w \<Longrightarrow> block_ok (fst w)"
  by (simp add: wire_ok_def fromBuffer_block_ok)

lemma parse_wire_wires: "list_all wire_ok es \<Longrightarrow> parse_wire (concat (map snd es)) = Inr es"
proof (induction es)
  case (Cons e es)
  have "snd e \<noteq> []" using Cons.prems fromBuffer_progress [of "snd e" "fst e" "[]"] by (auto simp: wire_ok_def)
  then show ?case using Cons wire_ok_read [of e] by (subst parse_wire.simps) simp
qed (simp add: parse_wire.simps)

lemma parse_wire_ok: "parse_wire bs = Inr es \<Longrightarrow> list_all wire_ok es \<and> concat (map snd es) = bs"
proof (induction bs arbitrary: es rule: parse_wire.induct)
  case (1 bs)
  show ?case
  proof (cases "bs = []")
    case False
    then obtain b rest es' where b: "fromBuffer bs = Some (b, rest)" "parse_wire rest = Inr es'"
        and es: "es = (b, take (length bs - length rest) bs) # es'"
      using 1(2) by (subst (asm) parse_wire.simps) (auto simp: res_simps split: option.splits)
    have "list_all wire_ok es'" "concat (map snd es') = rest" using 1(1) [OF False b(1) refl b(2)] by auto
    moreover have "take (length bs - length rest) bs @ rest = bs" using element_local.local_read [OF b(1)] by auto
    ultimately show ?thesis using element_local.read_prefix [OF b(1)] by (simp add: es) (simp add: wire_ok_def)
  qed (use 1(2) in \<open>simp add: parse_wire.simps\<close>)
qed

lemma parse_wire_error: "parse_wire bs = Inl e \<Longrightarrow> e = TlvError"
proof (induction bs rule: parse_wire.induct)
  case (1 bs)
  then show ?case by (subst (asm) parse_wire.simps) (auto simp: res_simps split: option.splits if_splits)
qed

lemma parse_elements_error: "parse_elements bs = Inl e \<Longrightarrow> e = TlvError"
proof (induction bs rule: parse_elements.induct)
  case (1 bs)
  then show ?case by (subst (asm) parse_elements.simps) (auto simp: res_simps split: option.splits if_splits)
qed

lemma parse_elements_ok: "parse_elements bs = Inr es \<Longrightarrow> list_all block_ok es"
proof (induction bs arbitrary: es rule: parse_elements.induct)
  case (1 bs)
  show ?case
  proof (cases "bs = []")
    case False
    then obtain b rest es' where b: "fromBuffer bs = Some (b, rest)" "parse_elements rest = Inr es'" and es: "es = b # es'"
      using 1(2) by (subst (asm) parse_elements.simps) (auto simp: res_simps split: option.splits)
    then show ?thesis using 1(1) [OF False b(1) refl b(2)] fromBuffer_block_ok by simp
  qed (use 1(2) in \<open>simp add: parse_elements.simps\<close>)
qed

section \<open>The index of the digest component\<close>

lemma digest_loop_found:
  "pos \<noteq> -1 \<Longrightarrow> findParametersDigest_loop pos i n = (if list_ex isParametersSha256Digest n then -2 else pos)"
  by (induction n arbitrary: i) auto

lemma digest_loop_skip:
  "\<not> list_ex isParametersSha256Digest xs \<Longrightarrow>
     findParametersDigest_loop pos i (xs @ n) = findParametersDigest_loop pos (i + int (length xs)) n"
  by (induction xs arbitrary: i) (auto simp: algebra_simps)

lemma digest_index_none: "\<not> list_ex isParametersSha256Digest n \<Longrightarrow> findParametersDigestComponent n = -1"
  using digest_loop_skip [of n "-1" 0 "[]"] by (simp add: findParametersDigestComponent_def)

lemma digest_index_one:
  assumes "\<not> list_ex isParametersSha256Digest xs" "isParametersSha256Digest c" "\<not> list_ex isParametersSha256Digest ys"
  shows "findParametersDigestComponent (xs @ c # ys) = int (length xs)"
  using assms by (simp add: findParametersDigestComponent_def digest_loop_skip digest_loop_found)

lemma digest_index_cases:
  obtains (many) "findParametersDigestComponent n = -2"
  | (none) "findParametersDigestComponent n = -1" "\<not> list_ex isParametersSha256Digest n"
  | (one) xs c ys where "n = xs @ c # ys" "findParametersDigestComponent n = int (length xs)" "isParametersSha256Digest c"
      "\<not> list_ex isParametersSha256Digest xs" "\<not> list_ex isParametersSha256Digest ys"
proof (cases "list_ex isParametersSha256Digest n")
  case True
  then obtain c where "c \<in> set n" "isParametersSha256Digest c" by (auto simp: list_ex_iff)
  then obtain xs c ys where n: "n = xs @ c # ys" "isParametersSha256Digest c" "\<forall>x \<in> set xs. \<not> isParametersSha256Digest x"
    using split_list_first_prop [of n isParametersSha256Digest] by blast
  have xs: "\<not> list_ex isParametersSha256Digest xs" using n(3) by (auto simp: list_ex_iff)
  show ?thesis
  proof (cases "list_ex isParametersSha256Digest ys")
    case True
    then show ?thesis using many n xs by (simp add: findParametersDigestComponent_def digest_loop_skip digest_loop_found)
  next
    case False
    then show ?thesis using one [OF n(1)] n xs digest_index_one [OF xs n(2) False] by simp
  qed
qed (use none digest_index_none in blast)

section \<open>Well-formed packets\<close>

definition comp_ok :: "component \<Rightarrow> bool" where
  "comp_ok c \<longleftrightarrow> block_ok (Block (comp_type c) (comp_value c))"

definition parameters_ok :: "wire_block list \<Rightarrow> bool" where
  "parameters_ok ws \<longleftrightarrow> list_all wire_ok ws \<and>
     (case ws of [] \<Rightarrow> True
      | x # xs \<Rightarrow> block_type (fst x) = TLV_ApplicationParameters \<and>
          list_all (\<lambda>w. \<not> isCriticalType (block_type (fst w)) \<and> block_type (fst w) \<noteq> TLV_HopLimit \<and>
                        block_type (fst w) \<noteq> TLV_ApplicationParameters) xs)"

definition packet_ok :: "interest_packet \<Rightarrow> bool" where
  "packet_ok p \<longleftrightarrow> p_name p \<noteq> [] \<and> list_all comp_ok (p_name p) \<and> findParametersDigestComponent (p_name p) \<noteq> -2 \<and>
     list_all (list_all comp_ok) (p_forwardingHint p) \<and> (\<forall>n. p_nonce p = Some n \<longrightarrow> length n = 4) \<and>
     - (2 ^ 63) \<le> p_lifetime p \<and> p_lifetime p < 2 ^ 63 \<and> parameters_ok (p_parameters p)"

lemma name_wireDecode_ok: "name_wireDecode b = Inr n \<Longrightarrow> list_all comp_ok n"
  using parse_elements_ok [of "block_value b"] by (auto simp: name_wireDecode_def res_simps list_all_iff comp_ok_def split: if_splits)

lemma name_wireDecode_error: "name_wireDecode b = Inl e \<Longrightarrow> e = TlvError"
  using parse_elements_error [of "block_value b"] by (auto simp: name_wireDecode_def res_simps split: if_splits)

text \<open>A loop whose steps keep a property and fail in one way only.\<close>

lemma fold_res_outcome:
  assumes "P s" "\<And>x s. x \<in> set xs \<Longrightarrow> P s \<Longrightarrow> case f x s of Inl e \<Rightarrow> Q e | Inr t \<Rightarrow> P t"
  shows "case fold_res f xs s of Inl e \<Rightarrow> Q e | Inr t \<Rightarrow> P t"
  using assms
proof (induction xs arbitrary: s)
  case (Cons x xs)
  show ?case
  proof (cases "f x s")
    case (Inl e)
    then show ?thesis using Cons.prems(2) [of x s] Cons.prems(1) by simp
  next
    case (Inr t)
    have "P t" using Cons.prems(2) [of x s] Cons.prems(1) Inr by simp
    then show ?thesis using Cons.IH [of t] Cons.prems(2) Inr by simp
  qed
qed simp

lemma hint_step_ok:
  assumes "list_all (list_all comp_ok) ns"
  shows "case hint_step del ns of Inl e \<Rightarrow> e = TlvError | Inr ms \<Rightarrow> list_all (list_all comp_ok) ms"
  using assms name_wireDecode_ok name_wireDecode_error parse_elements_error [of "block_value del"]
  by (auto simp: hint_step_def res_simps split: sum.splits option.splits if_splits)

lemma hints_ok:
  assumes "list_all (list_all comp_ok) ns"
  shows "case fold_res hint_step dels ns of Inl e \<Rightarrow> e = TlvError | Inr ms \<Rightarrow> list_all (list_all comp_ok) ms"
  by (rule fold_res_outcome [where P = "list_all (list_all comp_ok)", OF assms]) (rule hint_step_ok)

lemma readNonNegativeInteger_error: "readNonNegativeInteger k bs = Inl e \<Longrightarrow> e = TlvError"
  by (auto simp: readNonNegativeInteger_def split: if_splits option.splits)

text \<open>The state of the decoding loop.\<close>

definition decoding :: "interest_packet \<times> nat \<Rightarrow> bool" where
  "decoding s \<longleftrightarrow> packet_ok (fst s) \<and> (p_parameters (fst s) = [] \<or> snd s = 8)"

lemma parameters_ok_snoc:
  "parameters_ok ws \<Longrightarrow> ws \<noteq> [] \<Longrightarrow> wire_ok w \<Longrightarrow> \<not> isCriticalType (block_type (fst w)) \<Longrightarrow>
     block_type (fst w) \<noteq> TLV_HopLimit \<Longrightarrow> block_type (fst w) \<noteq> TLV_ApplicationParameters \<Longrightarrow> parameters_ok (ws @ [w])"
  by (cases ws) (auto simp: parameters_ok_def)

lemma sint64_bounds: "- (2 ^ 63) \<le> sint (w :: 64 word)" "sint (w :: 64 word) < 2 ^ 63"
  using sint_ge [of w] sint_lt [of w] by simp_all


lemma interest_step_ok:
  assumes "decoding s" "wire_ok w"
  shows "case interest_step w s of Inl e \<Rightarrow> e = TlvError | Inr t \<Rightarrow> decoding t \<and> p_name (fst t) = p_name (fst s)"
proof -
  obtain p k where s: "s = (p, k)" by (cases s)
  have p: "packet_ok p" "p_parameters p = [] \<or> k = 8" using assms(1) by (auto simp: s decoding_def)
  have h: "case fold_res hint_step dels (p_forwardingHint p) of Inl e \<Rightarrow> e = TlvError | Inr ms \<Rightarrow> list_all (list_all comp_ok) ms" for dels
    using p(1) by (intro hints_ok) (simp add: packet_ok_def)
  have hints: "case bind_res (parse_elements v) (\<lambda>dels. bind_res (fold_res hint_step dels (p_forwardingHint p)) (\<lambda>ns.
      Inr (p\<lparr>p_forwardingHint := ns\<rparr>, 4 :: nat))) of Inl e \<Rightarrow> e = TlvError
      | Inr t \<Rightarrow> packet_ok (fst t) \<and> p_parameters (fst t) = p_parameters p \<and> p_name (fst t) = p_name p" for v
  proof (cases "parse_elements v")
    case (Inr dels)
    then show ?thesis using h [of dels] p(1) by (cases "fold_res hint_step dels (p_forwardingHint p)") (simp_all add: packet_ok_def)
  qed (use parse_elements_error in simp)
  have life: "case bind_res (readNonNegativeInteger (length v) v) (\<lambda>(n, _). Inr (p\<lparr>p_lifetime := sint n\<rparr>, 6 :: nat)) of Inl e \<Rightarrow> e = TlvError
      | Inr t \<Rightarrow> packet_ok (fst t) \<and> p_parameters (fst t) = p_parameters p \<and> p_name (fst t) = p_name p" for v
    using readNonNegativeInteger_error [of "length v" v] p(1) sint64_bounds
    by (auto simp: res_simps packet_ok_def split: sum.splits prod.splits)
  have app: "packet_ok (p\<lparr>p_parameters := p_parameters p @ [w]\<rparr>)"
    if "p_parameters p = [] \<longrightarrow> block_type (fst w) = TLV_ApplicationParameters"
      "p_parameters p \<noteq> [] \<longrightarrow> \<not> isCriticalType (block_type (fst w)) \<and> block_type (fst w) \<noteq> TLV_HopLimit \<and> block_type (fst w) \<noteq> TLV_ApplicationParameters"
    using that p(1) assms(2) parameters_ok_snoc [of "p_parameters p" w]
    by (cases "p_parameters p = []") (auto simp: packet_ok_def parameters_ok_def)
  have simple: "packet_ok (p\<lparr>p_canBePrefix := x\<rparr>)" "packet_ok (p\<lparr>p_mustBeFresh := x\<rparr>)" "packet_ok (p\<lparr>p_hopLimit := y\<rparr>)"
      "length v = 4 \<Longrightarrow> packet_ok (p\<lparr>p_nonce := Some v\<rparr>)" for x y v
    using p(1) by (simp_all add: packet_ok_def)
  define t where "t = block_type (fst w)"
  consider "t = TLV_CanBePrefix" | "t = TLV_MustBeFresh" | "t = TLV_ForwardingHint" | "t = TLV_Nonce" | "t = TLV_InterestLifetime"
    | "t = TLV_HopLimit" | "t = TLV_ApplicationParameters" | "t \<notin> {TLV_CanBePrefix, TLV_MustBeFresh, TLV_ForwardingHint, TLV_Nonce,
        TLV_InterestLifetime, TLV_HopLimit, TLV_ApplicationParameters}" by blast
  then show ?thesis
  proof cases
    case 3
    then show ?thesis using hints [of "block_value (fst w)"] p
      by (auto simp: s interest_step_def Let_def decoding_def tlv_interest_defs t_def [symmetric] split: sum.splits)
  next
    case 5
    then show ?thesis using life [of "block_value (fst w)"] p
      by (auto simp: s interest_step_def Let_def decoding_def tlv_interest_defs t_def [symmetric] split: sum.splits)
  next
    case 7
    then show ?thesis using p app
      by (auto simp: s interest_step_def Let_def decoding_def tlv_interest_defs t_def [symmetric] hasApplicationParameters_def)
  next
    case 8
    then show ?thesis using p app
      by (auto simp: s interest_step_def Let_def decoding_def t_def [symmetric] hasApplicationParameters_def)
  qed (use p simple in \<open>auto simp: s interest_step_def Let_def decoding_def tlv_interest_defs t_def [symmetric]\<close>)
qed

lemma isParametersDigestValid_total: "findParametersDigestComponent (p_name p) \<noteq> -2 \<Longrightarrow> \<exists>v. isParametersDigestValid sha256 p = Inr v"
  by (rule digest_index_cases [of "p_name p"]) (auto simp: isParametersDigestValid_def)

lemma packet_ok_new:
  "n \<noteq> [] \<Longrightarrow> list_all comp_ok n \<Longrightarrow> findParametersDigestComponent n \<noteq> -2 \<Longrightarrow> packet_ok (new_packet n)"
  by (simp add: packet_ok_def new_packet_def parameters_ok_def DEFAULT_INTEREST_LIFETIME_def)

lemma interest_loop_ok:
  assumes "n \<noteq> []" "list_all comp_ok n" "findParametersDigestComponent n \<noteq> -2" "list_all wire_ok es"
  shows "case fold_res interest_step es (new_packet n, 1) of Inl e \<Rightarrow> e = TlvError | Inr t \<Rightarrow> decoding t \<and> p_name (fst t) = n"
proof (rule fold_res_outcome [where P = "\<lambda>s. decoding s \<and> p_name (fst s) = n"])
  show "decoding (new_packet n, 1) \<and> p_name (fst (new_packet n, 1)) = n"
    using packet_ok_new [OF assms(1-3)] by (simp add: decoding_def new_packet_def)
next
  fix w s assume "w \<in> set es" "decoding s \<and> p_name (fst s) = n"
  then show "case interest_step w s of Inl e \<Rightarrow> e = TlvError | Inr t \<Rightarrow> decoding t \<and> p_name (fst t) = n"
    using interest_step_ok [of s w] assms(4) by (auto simp: list_all_iff split: sum.splits)
qed

lemma interest_wireDecode_ok:
  "case interest_wireDecode sha256 chk b of Inl e \<Rightarrow> e = TlvError
   | Inr p \<Rightarrow> packet_ok p \<and> (chk \<longrightarrow> isParametersDigestValid sha256 p = Inr True)"
proof (cases "interest_wireDecode sha256 chk b")
  case (Inr p)
  then obtain es n k where es: "parse_wire (block_value b) = Inr es" "es \<noteq> []" "name_wireDecode (fst (hd es)) = Inr n" "n \<noteq> []"
      "findParametersDigestComponent n \<noteq> -2" "fold_res interest_step (tl es) (new_packet n, 1) = Inr (p, k)"
      and v: "chk \<longrightarrow> isParametersDigestValid sha256 p = Inr True"
    by (auto simp: interest_wireDecode_def res_simps split: if_splits)
  have "list_all wire_ok (tl es)" using parse_wire_ok [OF es(1)] es(2) by (cases es) auto
  then show ?thesis using interest_loop_ok [OF es(4) name_wireDecode_ok [OF es(3)] es(5), of "tl es"] es(6) v Inr by (simp add: decoding_def)
next
  case (Inl e)
  have "e = TlvError"
  proof (rule ccontr)
    assume ne: "e \<noteq> TlvError"
    then obtain es n where es: "parse_wire (block_value b) = Inr es" "es \<noteq> []" "name_wireDecode (fst (hd es)) = Inr n" "n \<noteq> []"
        "findParametersDigestComponent n \<noteq> -2" and f: "fold_res interest_step (tl es) (new_packet n, 1) = Inl e \<or>
          (\<exists>p k. fold_res interest_step (tl es) (new_packet n, 1) = Inr (p, k) \<and> isParametersDigestValid sha256 p = Inl e)"
      using Inl parse_wire_error name_wireDecode_error
      by (auto simp: interest_wireDecode_def res_simps split: if_splits)
    have "list_all wire_ok (tl es)" using parse_wire_ok [OF es(1)] es(2) by (cases es) auto
    moreover have "isParametersDigestValid sha256 p \<noteq> Inl e" if "p_name p = n" for p
      using isParametersDigestValid_total [of p sha256] es(5) that by auto
    ultimately show False using interest_loop_ok [OF es(4) name_wireDecode_ok [OF es(3)] es(5), of "tl es"] f ne by auto
  qed
  then show ?thesis using Inl by simp
qed

section \<open>Encoding and decoding back\<close>

text \<open>The elements of a packet, in order.\<close>

definition interest_elements :: "interest_packet \<Rightarrow> wire_block list" where
  "interest_elements p =
     (if p_canBePrefix p then [canonical (Block TLV_CanBePrefix [])] else []) @
     (if p_mustBeFresh p then [canonical (Block TLV_MustBeFresh [])] else []) @
     (if p_forwardingHint p \<noteq> [] then [canonical (Block TLV_ForwardingHint (concat (map name_wireEncode (p_forwardingHint p))))] else []) @
     (case p_nonce p of Some n \<Rightarrow> [canonical (Block TLV_Nonce n)] | None \<Rightarrow> []) @
     (if p_lifetime p \<noteq> DEFAULT_INTEREST_LIFETIME
      then [canonical (Block TLV_InterestLifetime (writeNonNegativeInteger (word_of_int (p_lifetime p))))] else []) @
     (case p_hopLimit p of Some h \<Rightarrow> [canonical (Block TLV_HopLimit [h])] | None \<Rightarrow> []) @
     p_parameters p"

definition name_block :: "name \<Rightarrow> block" where
  "name_block n = Block TLV_Name (concat (map comp_wire n))"

lemma name_block_wire: "block_wire (name_block n) = name_wireEncode n"
  by (simp add: name_block_def block_wire_def name_wireEncode_def)

lemma interest_value_elements:
  "interest_value p = concat (map snd (canonical (name_block (p_name p)) # interest_elements p))"
  by (simp add: interest_value_def interest_elements_def canonical_def block_wire_def name_wireEncode_def name_block_def
      makeNonNegativeIntegerBlock_def makeBinaryBlock_def length_writeNonNegativeInteger split: option.splits)

lemma name_block_decode: "list_all comp_ok n \<Longrightarrow> name_wireDecode (name_block n) = Inr n"
proof -
  assume n: "list_all comp_ok n"
  let ?bs = "map (\<lambda>c. Block (comp_type c) (comp_value c)) n"
  have "concat (map comp_wire n) = concat (map block_wire ?bs)" by (simp add: comp_wire_block [abs_def] comp_def)
  moreover have "list_all block_ok ?bs" using n by (auto simp: list_all_iff comp_ok_def)
  ultimately show ?thesis
    using parse_elements_concat [of ?bs] by (simp add: name_wireDecode_def name_block_def comp_def)
qed

lemma length_block_wire: "length (block_value b) \<le> length (block_wire b)"
  by (simp add: block_wire_def makeBinaryBlock_def)

lemma length_concat_member: "x \<in> set xs \<Longrightarrow> length (f x) \<le> length (concat (map f xs))"
  by (induction xs) auto

lemma canonical_ok:
  assumes "canonical b \<in> set ws" "length (concat (map snd ws)) < 2 ^ 64" "0 < block_type b" "block_type b < 2 ^ 32"
  shows "wire_ok (canonical b)"
proof (rule wire_ok_canonical)
  have "length (block_value b) \<le> length (concat (map snd ws))"
    using length_concat_member [OF assms(1), of snd] length_block_wire [of b] by (simp add: canonical_def)
  then show "block_ok b" using assms(2-4) by (simp add: block_ok_def)
qed

lemma interest_elements_ok:
  assumes "parameters_ok (p_parameters p)" "length (interest_value p) < 2 ^ 64"
  shows "list_all wire_ok (canonical (name_block (p_name p)) # interest_elements p)" (is "list_all _ ?es")
proof -
  have l: "length (concat (map snd ?es)) < 2 ^ 64" using assms(2) unfolding interest_value_elements .
  have "wire_ok w" if w: "w \<in> set ?es" for w
  proof (cases "w \<in> set (p_parameters p)")
    case False
    then obtain t v where "w = canonical (Block t v)" "0 < t" "t < 2 ^ 32"
      using w by (auto simp: interest_elements_def name_block_def tlv_interest_defs split: if_splits option.splits)
    then show ?thesis using canonical_ok [OF _ l, of "Block t v"] w by simp
  qed (use assms(1) in \<open>auto simp: parameters_ok_def list_all_iff\<close>)
  then show ?thesis unfolding list_all_iff by blast
qed

lemma hints_decode:
  assumes "list_all (list_all comp_ok) ns" "length (concat (map name_wireEncode ns)) < 2 ^ 64"
  shows "parse_elements (concat (map name_wireEncode ns)) = Inr (map name_block ns)"
    and "fold_res hint_step (map name_block ns) ms = Inr (ms @ ns)"
proof -
  have "block_ok (name_block n)" if "n \<in> set ns" for n
    using length_concat_member [OF that, of name_wireEncode] length_block_wire [of "name_block n"] assms(2)
    by (simp add: block_ok_def name_block_wire) (simp add: name_block_def TLV_Name_def)
  then show "parse_elements (concat (map name_wireEncode ns)) = Inr (map name_block ns)"
    using parse_elements_concat [of "map name_block ns"] by (simp add: list_all_iff comp_def name_block_wire)
  show "fold_res hint_step (map name_block ns) ms = Inr (ms @ ns)"
    using assms(1)
  proof (induction ns arbitrary: ms)
    case (Cons n ns)
    then have "hint_step (name_block n) ms = Inr (ms @ [n])"
      using name_block_decode [of n] by (simp add: hint_step_def name_block_def)
    then show ?case using Cons by simp
  qed simp
qed

text \<open>One stage of the loop per field: the elements of the field set it and raise the index no further than its own.\<close>

lemma stage_canBePrefix:
  assumes "\<not> p_canBePrefix q" "k < 2"
  shows "\<exists>k' < 3. fold_res interest_step (if c then [canonical (Block TLV_CanBePrefix [])] else []) (q, k) = Inr (q\<lparr>p_canBePrefix := c\<rparr>, k')"
  using assms by (auto simp: interest_step_def canonical_def tlv_interest_defs Let_def)

lemma stage_mustBeFresh:
  assumes "\<not> p_mustBeFresh q" "k < 3"
  shows "\<exists>k' < 4. fold_res interest_step (if c then [canonical (Block TLV_MustBeFresh [])] else []) (q, k) = Inr (q\<lparr>p_mustBeFresh := c\<rparr>, k')"
  using assms by (auto simp: interest_step_def canonical_def tlv_interest_defs Let_def)

lemma stage_hint:
  assumes "p_forwardingHint q = []" "k < 4" "list_all (list_all comp_ok) ns" "length (concat (map name_wireEncode ns)) < 2 ^ 64"
  shows "\<exists>k' < 5. fold_res interest_step (if ns \<noteq> [] then [canonical (Block TLV_ForwardingHint (concat (map name_wireEncode ns)))] else []) (q, k) =
    Inr (q\<lparr>p_forwardingHint := ns\<rparr>, k')"
  using assms hints_decode [OF assms(3,4)] by (auto simp: interest_step_def canonical_def tlv_interest_defs Let_def)

lemma stage_nonce:
  assumes "p_nonce q = None" "k < 5" "\<And>n. c = Some n \<Longrightarrow> length n = 4"
  shows "\<exists>k' < 6. fold_res interest_step (case c of Some n \<Rightarrow> [canonical (Block TLV_Nonce n)] | None \<Rightarrow> []) (q, k) = Inr (q\<lparr>p_nonce := c\<rparr>, k')"
  using assms by (cases c) (auto simp: interest_step_def canonical_def tlv_interest_defs Let_def)

lemma stage_lifetime:
  assumes "p_lifetime q = DEFAULT_INTEREST_LIFETIME" "k < 6" "- (2 ^ 63) \<le> l" "l < 2 ^ 63"
  shows "\<exists>k' < 7. fold_res interest_step (if l \<noteq> DEFAULT_INTEREST_LIFETIME
      then [canonical (Block TLV_InterestLifetime (writeNonNegativeInteger (word_of_int l)))] else []) (q, k) = Inr (q\<lparr>p_lifetime := l\<rparr>, k')"
proof -
  let ?w = "word_of_int l :: 64 word"
  have "sint ?w = l" using assms(3,4) by (simp add: sint_sbintrunc' signed_take_bit_int_eq_self)
  moreover have "readNonNegativeInteger (length (writeNonNegativeInteger ?w)) (writeNonNegativeInteger ?w) = Inr (?w, [])"
    using readNonNegativeInteger_write [of ?w "[]"] by (simp add: length_writeNonNegativeInteger)
  ultimately show ?thesis using assms(1,2) by (auto simp: interest_step_def canonical_def tlv_interest_defs Let_def)
qed

lemma stage_hopLimit:
  assumes "p_hopLimit q = None" "k < 7"
  shows "\<exists>k' < 8. fold_res interest_step (case c of Some h \<Rightarrow> [canonical (Block TLV_HopLimit [h])] | None \<Rightarrow> []) (q, k) = Inr (q\<lparr>p_hopLimit := c\<rparr>, k')"
  using assms by (cases c) (auto simp: interest_step_def canonical_def tlv_interest_defs Let_def)

lemma stage_parameters:
  assumes "p_parameters q = []" "k < 8" "parameters_ok ws"
  shows "\<exists>k'. fold_res interest_step ws (q, k) = Inr (q\<lparr>p_parameters := ws\<rparr>, k')"
proof (cases ws)
  case Nil
  then show ?thesis using assms(1) by auto
next
  case (Cons x xs)
  have others: "fold_res interest_step ys (r, 8) = Inr (r\<lparr>p_parameters := p_parameters r @ ys\<rparr>, 8)"
    if "p_parameters r \<noteq> []" "list_all (\<lambda>w. \<not> isCriticalType (block_type (fst w)) \<and> block_type (fst w) \<noteq> TLV_HopLimit \<and>
        block_type (fst w) \<noteq> TLV_ApplicationParameters) ys" for r ys
    using that
  proof (induction ys arbitrary: r)
    case (Cons y ys)
    have "interest_step y (r, 8) = Inr (r\<lparr>p_parameters := p_parameters r @ [y]\<rparr>, 8)"
      using Cons.prems by (auto simp: interest_step_def Let_def hasApplicationParameters_def tlv_interest_defs isCriticalType_def)
    then show ?case using Cons by simp
  qed simp
  have "interest_step x (q, k) = Inr (q\<lparr>p_parameters := [x]\<rparr>, 8)"
    using assms Cons by (auto simp: interest_step_def Let_def hasApplicationParameters_def parameters_ok_def tlv_interest_defs)
  then show ?thesis using others [of "q\<lparr>p_parameters := [x]\<rparr>" xs] assms(3) Cons by (simp add: parameters_ok_def)
qed

lemma interest_loop_elements:
  assumes "packet_ok p" "length (interest_value p) < 2 ^ 64"
  shows "\<exists>k. fold_res interest_step (interest_elements p) (new_packet (p_name p), 1) = Inr (p, k)"
proof -
  note ok = assms(1) [unfolded packet_ok_def]
  let ?h = "concat (map name_wireEncode (p_forwardingHint p))"
  have hint: "length ?h < 2 ^ 64"
  proof (cases "p_forwardingHint p = []")
    case False
    then have "length ?h \<le> length (interest_value p)" by (simp add: interest_value_def makeBinaryBlock_def)
    then show ?thesis using assms(2) by simp
  qed simp
  define q1 where "q1 = (new_packet (p_name p))\<lparr>p_canBePrefix := p_canBePrefix p\<rparr>"
  define q2 where "q2 = q1\<lparr>p_mustBeFresh := p_mustBeFresh p\<rparr>"
  define q3 where "q3 = q2\<lparr>p_forwardingHint := p_forwardingHint p\<rparr>"
  define q4 where "q4 = q3\<lparr>p_nonce := p_nonce p\<rparr>"
  define q5 where "q5 = q4\<lparr>p_lifetime := p_lifetime p\<rparr>"
  define q6 where "q6 = q5\<lparr>p_hopLimit := p_hopLimit p\<rparr>"
  note q = q6_def q5_def q4_def q3_def q2_def q1_def new_packet_def
  have s1: "\<not> p_canBePrefix (new_packet (p_name p))" and s2: "\<not> p_mustBeFresh q1" and s3: "p_forwardingHint q2 = []" and s4: "p_nonce q3 = None"
    and s5: "p_lifetime q4 = DEFAULT_INTEREST_LIFETIME" and s6: "p_hopLimit q5 = None" and s7: "p_parameters q6 = []" by (simp_all add: q)
  obtain k1 where 1: "k1 < 3" "fold_res interest_step (if p_canBePrefix p then [canonical (Block TLV_CanBePrefix [])] else [])
      (new_packet (p_name p), 1) = Inr (q1, k1)"
    using stage_canBePrefix [OF s1, of 1 "p_canBePrefix p"] by (auto simp: q1_def)
  obtain k2 where 2: "k2 < 4" "fold_res interest_step (if p_mustBeFresh p then [canonical (Block TLV_MustBeFresh [])] else []) (q1, k1) = Inr (q2, k2)"
    using stage_mustBeFresh [OF s2 1(1), of "p_mustBeFresh p"] by (auto simp: q2_def)
  obtain k3 where 3: "k3 < 5" "fold_res interest_step (if p_forwardingHint p \<noteq> [] then [canonical (Block TLV_ForwardingHint ?h)] else []) (q2, k2) = Inr (q3, k3)"
    using stage_hint [OF s3 2(1) _ hint] ok unfolding q3_def by blast
  obtain k4 where 4: "k4 < 6" "fold_res interest_step (case p_nonce p of Some n \<Rightarrow> [canonical (Block TLV_Nonce n)] | None \<Rightarrow> []) (q3, k3) = Inr (q4, k4)"
    using stage_nonce [OF s4 3(1), of "p_nonce p"] ok unfolding q4_def by blast
  obtain k5 where 5: "k5 < 7" "fold_res interest_step (if p_lifetime p \<noteq> DEFAULT_INTEREST_LIFETIME
      then [canonical (Block TLV_InterestLifetime (writeNonNegativeInteger (word_of_int (p_lifetime p))))] else []) (q4, k4) = Inr (q5, k5)"
    using stage_lifetime [OF s5 4(1), of "p_lifetime p"] ok unfolding q5_def by blast
  obtain k6 where 6: "k6 < 8" "fold_res interest_step (case p_hopLimit p of Some h \<Rightarrow> [canonical (Block TLV_HopLimit [h])] | None \<Rightarrow> []) (q5, k5) = Inr (q6, k6)"
    using stage_hopLimit [OF s6 5(1), of "p_hopLimit p"] unfolding q6_def by blast
  obtain k7 where 7: "fold_res interest_step (p_parameters p) (q6, k6) = Inr (q6\<lparr>p_parameters := p_parameters p\<rparr>, k7)"
    using stage_parameters [OF s7 6(1), of "p_parameters p"] ok by blast
  have "q6\<lparr>p_parameters := p_parameters p\<rparr> = p" by (simp add: q)
  with 7 show ?thesis unfolding interest_elements_def fold_res_append 1(2) 2(2) 3(2) 4(2) 5(2) 6(2) bind_res_Inr by simp
qed

lemma interest_decode_encode:
  assumes "packet_ok p" "length (interest_value p) < 2 ^ 64" "chk \<Longrightarrow> isParametersDigestValid sha256 p = Inr True"
  shows "interest_wireDecode sha256 chk (Block TLV_Interest (interest_value p)) = Inr p"
proof -
  let ?es = "canonical (name_block (p_name p)) # interest_elements p"
  have "parse_wire (interest_value p) = Inr ?es"
    unfolding interest_value_elements using assms(1,2) by (intro parse_wire_wires interest_elements_ok) (simp_all add: packet_ok_def)
  moreover have "name_wireDecode (name_block (p_name p)) = Inr (p_name p)" using assms(1) by (intro name_block_decode) (simp add: packet_ok_def)
  moreover have "block_type (name_block (p_name p)) = TLV_Name" by (simp add: name_block_def)
  moreover obtain k where "fold_res interest_step (interest_elements p) (new_packet (p_name p), 1) = Inr (p, k)"
    using interest_loop_elements [OF assms(1,2)] by blast
  ultimately show ?thesis using assms(1,3) by (simp add: interest_wireDecode_def packet_ok_def canonical_def)
qed

section \<open>Setting the parameters\<close>

lemma isParametersDigestValid_True:
  "isParametersDigestValid sha256 p = Inr True \<Longrightarrow> (findParametersDigestComponent (p_name p) = -1 \<longleftrightarrow> \<not> hasApplicationParameters p)"
  by (auto simp: isParametersDigestValid_def Let_def assert_res_def split: if_splits)

lemma addOrReplace_valid:
  assumes "hasApplicationParameters p" "findParametersDigestComponent (p_name p) \<noteq> -2" "\<And>x. length (sha256 x) = DIGEST_SIZE"
  obtains n where "addOrReplaceParametersDigestComponent sha256 p = Inr (p\<lparr>p_name := n\<rparr>)"
    "isParametersDigestValid sha256 (p\<lparr>p_name := n\<rparr>) = Inr True" "findParametersDigestComponent n \<noteq> -2"
    "filter (\<lambda>c. \<not> isParametersSha256Digest c) n = filter (\<lambda>c. \<not> isParametersSha256Digest c) (p_name p)"
    "list_all comp_ok (p_name p) \<longrightarrow> list_all comp_ok n" "n \<noteq> []"
proof -
  let ?c = "Component ParametersSha256DigestComponent (computeParametersDigest sha256 p)"
  have c: "ensureValid ?c = Inr ?c" "isParametersSha256Digest ?c" "comp_ok ?c"
    using assms(3) by (simp_all add: ensureValid_def isParametersSha256Digest_def computeParametersDigest_def comp_ok_def block_ok_def
        split: if_splits)
  have same: "computeParametersDigest sha256 (p\<lparr>p_name := n\<rparr>) = computeParametersDigest sha256 p" "hasApplicationParameters (p\<lparr>p_name := n\<rparr>)" for n
    using assms(1) by (simp_all add: computeParametersDigest_def hasApplicationParameters_def)
  show ?thesis
  proof (rule digest_index_cases [of "p_name p"])
    assume n: "findParametersDigestComponent (p_name p) = -1" "\<not> list_ex isParametersSha256Digest (p_name p)"
    have "findParametersDigestComponent (p_name p @ [?c]) = int (length (p_name p))" using digest_index_one [OF n(2) c(2), of "[]"] by simp
    then show ?thesis using that [of "p_name p @ [?c]"] n c assms(1) same
      by (simp add: addOrReplaceParametersDigestComponent_def isParametersDigestValid_def)
  next
    fix xs d ys assume n: "p_name p = xs @ d # ys" "findParametersDigestComponent (p_name p) = int (length xs)" "isParametersSha256Digest d"
      "\<not> list_ex isParametersSha256Digest xs" "\<not> list_ex isParametersSha256Digest ys"
    have "findParametersDigestComponent (xs @ ?c # ys) = int (length xs)" by (rule digest_index_one [OF n(4) c(2) n(5)])
    then show ?thesis using that [of "xs @ ?c # ys"] n c assms(1) same
      by (simp add: addOrReplaceParametersDigestComponent_def isParametersDigestValid_def)
  qed (use assms(2) in simp)
qed

lemma setApplicationParameters_ok:
  assumes "packet_ok p" "\<And>x. length (sha256 x) = DIGEST_SIZE" "length v < 2 ^ 64"
  obtains p' where "setApplicationParameters sha256 v p = Inr p'" "packet_ok p'" "isParametersDigestValid sha256 p' = Inr True"
    "block_value (fst (hd (p_parameters p'))) = v" "hasApplicationParameters p'" "p_nonce p' = p_nonce p"
    "filter (\<lambda>c. \<not> isParametersSha256Digest c) (p_name p') = filter (\<lambda>c. \<not> isParametersSha256Digest c) (p_name p)"
proof -
  let ?b = "canonical (Block TLV_ApplicationParameters v)"
  define q where "q = p\<lparr>p_parameters := ?b # tl (p_parameters p)\<rparr>"
  note ok = assms(1) [unfolded packet_ok_def]
  have b: "wire_ok ?b" using assms(3) by (intro wire_ok_canonical) (simp add: block_ok_def TLV_ApplicationParameters_def)
  have params: "parameters_ok (?b # tl (p_parameters p))"
    using b ok by (cases "p_parameters p") (auto simp: parameters_ok_def canonical_def)
  have q: "hasApplicationParameters q" "findParametersDigestComponent (p_name q) \<noteq> -2" "p_name q = p_name p"
    using ok by (simp_all add: q_def hasApplicationParameters_def)
  obtain n where n: "addOrReplaceParametersDigestComponent sha256 q = Inr (q\<lparr>p_name := n\<rparr>)"
    "isParametersDigestValid sha256 (q\<lparr>p_name := n\<rparr>) = Inr True" "findParametersDigestComponent n \<noteq> -2"
    "filter (\<lambda>c. \<not> isParametersSha256Digest c) n = filter (\<lambda>c. \<not> isParametersSha256Digest c) (p_name q)"
    "list_all comp_ok (p_name q) \<longrightarrow> list_all comp_ok n" "n \<noteq> []"
    by (rule addOrReplace_valid [OF q(1,2) assms(2)])
  have "setApplicationParameters sha256 v p = Inr (q\<lparr>p_name := n\<rparr>)"
    using n(1) ok by (cases "p_parameters p")
      (auto simp: setApplicationParameters_def setApplicationParametersInternal_def q_def parameters_ok_def)
  moreover have "packet_ok (q\<lparr>p_name := n\<rparr>)" using ok params n(3,5,6) q(3) by (simp add: packet_ok_def q_def)
  ultimately show ?thesis using that n(2,4) q(1,3) by (simp add: q_def canonical_def hasApplicationParameters_def)
qed

section \<open>Properties\<close>

text \<open>
  C30: Decoding an Interest never fails in another way than with a TLV error, whatever the bytes; and an
  Interest that decodes is well-formed: its name is not empty and holds at most one parameters digest,
  its nonce has four bytes, its parameters start with ApplicationParameters and hold no element that a
  decoder would reject or drop, and the digest in the name is that of the bytes of the parameters.
\<close>

theorem interest_decode_typed:
  "case interest_wireDecode sha256 True wire of
     Inl e \<Rightarrow> e = TlvError
   | Inr p \<Rightarrow> packet_ok p \<and> isParametersDigestValid sha256 p = Inr True"
  using interest_wireDecode_ok [where chk = True and b = wire and ?sha256.0 = sha256] by (simp split: sum.splits)

text \<open>
  C31: An Interest with a nonce that is well-formed and carries a valid parameters digest is encoded, the
  encoding is one element whatever bytes follow it, and decoding that element gives the same Interest.
\<close>

theorem interest_roundtrip:
  assumes "packet_ok p" "p_nonce p \<noteq> None" "isParametersDigestValid sha256 p = Inr True" "length (interest_value p) < 2 ^ 64"
  shows "\<exists>bs b. interest_wireEncode rnd k p = Inr (bs, p, k) \<and> fromBuffer (bs @ rest) = Some (b, rest) \<and>
    interest_wireDecode sha256 True b = Inr p"
proof -
  have "interest_wireEncode rnd k p = Inr (makeBinaryBlock TLV_Interest (interest_value p), p, k)"
    using assms(1,2) isParametersDigestValid_True [OF assms(3)]
    by (auto simp: interest_wireEncode_def packet_getNonce_def packet_ok_def Let_def)
  moreover have "fromBuffer (makeBinaryBlock TLV_Interest (interest_value p) @ rest) = Some (Block TLV_Interest (interest_value p), rest)"
    using assms(4) by (intro fromBuffer_makeBinaryBlock) (simp_all add: TLV_Interest_def)
  ultimately show ?thesis using interest_decode_encode [OF assms(1,4) assms(3)] by blast
qed

definition demo_packet :: interest_packet where
  "demo_packet = \<lparr>p_name = [Component 8 [97], Component 2 (replicate 32 0)], p_canBePrefix = True, p_mustBeFresh = False,
     p_forwardingHint = [[Component 8 [98]]], p_nonce = Some [1, 2, 3, 4], p_lifetime = 2000, p_hopLimit = Some 5,
     p_parameters = [canonical (Block TLV_ApplicationParameters [7])]\<rparr>"

lemma demo_packet_ok: "packet_ok demo_packet" "isParametersDigestValid (\<lambda>_. replicate 32 0) demo_packet = Inr True"
proof -
  have w: "wire_ok (canonical (Block TLV_ApplicationParameters [7]))"
    by (rule wire_ok_canonical) (simp add: block_ok_def TLV_ApplicationParameters_def)
  have i: "findParametersDigestComponent [Component 8 [97], Component 2 (replicate 32 0)] = 1"
    by (simp add: findParametersDigestComponent_def isParametersSha256Digest_def)
  show "packet_ok demo_packet"
    using w i by (simp add: packet_ok_def demo_packet_def parameters_ok_def comp_ok_def block_ok_def canonical_def)
  show "isParametersDigestValid (\<lambda>_. replicate 32 0) demo_packet = Inr True"
    using i by (simp add: isParametersDigestValid_def demo_packet_def computeParametersDigest_def hasApplicationParameters_def)
qed

lemma demo_packet_short: "length (interest_value demo_packet) < 2 ^ 64"
  by (simp add: interest_value_def demo_packet_def canonical_def name_wireEncode_def comp_wire_def block_wire_def makeBinaryBlock_def
      makeNonNegativeIntegerBlock_def length_writeVarNumber length_writeNonNegativeInteger sizeOfVarNumber_def sizeOfNonNegativeInteger_def
      tlv_interest_defs DEFAULT_INTEREST_LIFETIME_def)

theorem interest_roundtrip_witness:
  "\<exists>bs b. interest_wireEncode (\<lambda>_. 0) 0 demo_packet = Inr (bs, demo_packet, 0) \<and> fromBuffer (bs @ [9]) = Some (b, [9]) \<and>
     interest_wireDecode (\<lambda>_. replicate 32 0) True b = Inr demo_packet"
  by (rule interest_roundtrip [OF demo_packet_ok(1) _ demo_packet_ok(2) demo_packet_short]) (simp add: demo_packet_def)

text \<open>
  C32: Setting application parameters on a well-formed Interest succeeds, keeps the other name components,
  and leaves a valid parameters digest in the name: the Interest passes the check of the receiving side.
\<close>

theorem parameters_digest_set:
  assumes "packet_ok p" "\<And>x. length (sha256 x) = DIGEST_SIZE" "length v < 2 ^ 64"
  shows "\<exists>p'. setApplicationParameters sha256 v p = Inr p' \<and> packet_ok p' \<and> isParametersDigestValid sha256 p' = Inr True \<and>
    block_value (fst (hd (p_parameters p'))) = v \<and>
    filter (\<lambda>c. \<not> isParametersSha256Digest c) (p_name p') = filter (\<lambda>c. \<not> isParametersSha256Digest c) (p_name p)"
  by (rule setApplicationParameters_ok [where ?sha256.0 = sha256, OF assms]) blast+

theorem parameters_digest_set_witness:
  "\<exists>p'. setApplicationParameters (\<lambda>_. replicate 32 0) [1, 2] demo_packet = Inr p' \<and> packet_ok p' \<and>
     isParametersDigestValid (\<lambda>_. replicate 32 0) p' = Inr True \<and> block_value (fst (hd (p_parameters p'))) = [1, 2] \<and>
     filter (\<lambda>c. \<not> isParametersSha256Digest c) (p_name p') = filter (\<lambda>c. \<not> isParametersSha256Digest c) (p_name demo_packet)"
  by (rule parameters_digest_set [OF demo_packet_ok(1)]) simp_all

lemma lifetime_negative:
  assumes "n \<noteq> []" "valid_name n" "\<not> list_ex isParametersSha256Digest n" "2 ^ 63 \<le> unat w"
    and "length (name_wireEncode n) < 2 ^ 32"
  shows "interest_wireDecode sha256 True (Block TLV_Interest (name_wireEncode n @ makeNonNegativeIntegerBlock TLV_InterestLifetime w)) =
      Inr ((new_packet n)\<lparr>p_lifetime := int (unat w) - 2 ^ 64\<rparr>)"
    and "setInterestLifetime (int (unat w) - 2 ^ 64) p = Inl InvalidArgument"
proof -
  define l where "l = int (unat w) - 2 ^ 64"
  have "int (2 ^ 63) \<le> int (unat w)" using assms(4) by (simp only: of_nat_le_iff)
  then have u: "2 ^ 63 \<le> uint w" "uint w < 2 ^ 64" using uint_bounded [of w] by simp_all
  have l: "l = uint w - 2 ^ 64" by (simp add: l_def)
  show "setInterestLifetime (int (unat w) - 2 ^ 64) p = Inl InvalidArgument" using u l by (simp add: setInterestLifetime_def flip: l_def)
  let ?p = "(new_packet n)\<lparr>p_lifetime := l\<rparr>"
  have "(word_of_int l :: 64 word) = word_of_int (uint w)" by (simp add: l word_of_int_eq_iff take_bit_eq_mod del: word_of_int_uint of_int_diff of_int_uint)
  then have w: "word_of_int l = w" by simp
  have "interest_value ?p = name_wireEncode n @ makeNonNegativeIntegerBlock TLV_InterestLifetime (word_of_int l)"
    using u l by (simp add: interest_value_def new_packet_def DEFAULT_INTEREST_LIFETIME_def del: of_int_diff)
  then have v: "interest_value ?p = name_wireEncode n @ makeNonNegativeIntegerBlock TLV_InterestLifetime w" unfolding w .
  have "list_all comp_ok n" using assms(2) valid_component_bounds by (fastforce simp: valid_name_def list_all_iff comp_ok_def block_ok_def)
  then have "packet_ok ?p" using packet_ok_new [OF assms(1)] digest_index_none [OF assms(3)] u l by (simp add: packet_ok_def)
  moreover have "isParametersDigestValid sha256 ?p = Inr True"
    using digest_index_none [OF assms(3)] by (simp add: isParametersDigestValid_def new_packet_def hasApplicationParameters_def)
  moreover have "length (makeNonNegativeIntegerBlock TLV_InterestLifetime w) \<le> 26"
    by (simp add: makeNonNegativeIntegerBlock_def length_writeVarNumber length_writeNonNegativeInteger sizeOfVarNumber_def sizeOfNonNegativeInteger_def)
  ultimately show "interest_wireDecode sha256 True (Block TLV_Interest (name_wireEncode n @ makeNonNegativeIntegerBlock TLV_InterestLifetime w)) =
      Inr ((new_packet n)\<lparr>p_lifetime := int (unat w) - 2 ^ 64\<rparr>)" unfolding l_def [symmetric]
    using interest_decode_encode [of ?p True sha256] assms(5) unfolding v by simp
qed

text \<open>
  C33: A received InterestLifetime is taken as a signed number of milliseconds: a value of 2 ^ 63 or more
  becomes a negative lifetime, which the setter would refuse.
\<close>

theorem lifetime_wraps:
  assumes "n \<noteq> []" "valid_name n" "\<not> list_ex isParametersSha256Digest n" "2 ^ 63 \<le> unat w" "length (name_wireEncode n) < 2 ^ 32"
  shows "interest_wireDecode sha256 True (Block TLV_Interest (name_wireEncode n @ makeNonNegativeIntegerBlock TLV_InterestLifetime w)) =
      Inr ((new_packet n)\<lparr>p_lifetime := int (unat w) - 2 ^ 64\<rparr>) \<and>
    setInterestLifetime (int (unat w) - 2 ^ 64) p = Inl InvalidArgument"
  using lifetime_negative [OF assms] by blast

theorem lifetime_wraps_witness:
  "interest_wireDecode (\<lambda>_. []) True (Block TLV_Interest (name_wireEncode [Component 8 [97]] @
      makeNonNegativeIntegerBlock TLV_InterestLifetime (2 ^ 63))) =
      Inr ((new_packet [Component 8 [97]])\<lparr>p_lifetime := int (unat (2 ^ 63 :: 64 word)) - 2 ^ 64\<rparr>) \<and>
    setInterestLifetime (int (unat (2 ^ 63 :: 64 word)) - 2 ^ 64) (new_packet []) = Inl InvalidArgument"
proof (rule lifetime_wraps)
  show "valid_name [Component 8 [97]]"
    by (simp add: valid_name_def valid_component_def ensureValid_def)
  show "length (name_wireEncode [Component 8 [97]]) < 2 ^ 32"
    by (simp add: name_wireEncode_def comp_wire_def makeBinaryBlock_def length_writeVarNumber sizeOfVarNumber_def TLV_Name_def)
  show "\<not> list_ex isParametersSha256Digest [Component 8 [97]]" by (simp add: isParametersSha256Digest_def)
qed simp_all

end
