(* ===== verification/Demo_Apps.thy ===== *)
theory Demo_Apps
  imports Client_Face Name_Uri Interest_Codec Pit_Assist
begin

text \<open>
  The demonstration applications \<open>Experiments/consumer-producer_RI/consumer.cpp\<close> and \<open>producer.cpp\<close> over
  the client face.  The state of an application is its members and its face; the key chain, which signs
  Data, is given by the digest of the signed packet.  Certificates are served as they are.  Output on the terminal is
  left out, but for \<open>readInterestPitToken\<close>, which is called to print a token and reads it.
\<close>

section \<open>Common parts\<close>

datatype app_callback = OnInterest | OnData | OnNack | OnTimeout | ServeCert data

type_synonym app_face = "app_callback client_face"

definition Interest_ctor :: "name \<Rightarrow> interest" where
  "Interest_ctor n = to_interest (new_packet n)"

text \<open>\<open>Data\<close>, \<open>setName\<close>, \<open>setFreshnessPeriod(10_s)\<close>, and signing.\<close>

definition signed_data :: "(name \<Rightarrow> bytes) \<Rightarrow> name \<Rightarrow> data" where
  "signed_data digest n =
     \<lparr>d_name = n, d_freshnessPeriod = 10000, d_digest = digest n, d_incomingFaceId = None, d_pitToken = None, d_cachePolicy = None\<rparr>"

section \<open>The consumer\<close>

definition consumer_interest :: "interest res" where
  "consumer_interest =
     bind_res (Name_uri_RN (ascii ''/example/testApp/1234'') True) (\<lambda>n.
     Inr ((Interest_ctor n)\<lparr>i_pitToken := Some (setPitToken 2345), i_lifetime := 5000, i_mustBeFresh := True\<rparr>))"

text \<open>
  \<open>run\<close>: the filters are installed when their prefixes have been registered, which the caller does not
  wait for.
\<close>

definition consumer_run :: "random_source \<Rightarrow> app_face \<Rightarrow> app_face res" where
  "consumer_run rnd cf =
     bind_res consumer_interest (\<lambda>i.
     Inr (snd (expressInterest rnd i (Some OnData) (Some OnNack) (Some OnTimeout) cf)))"

definition consumer_filter :: "interest_filter res" where
  "consumer_filter = bind_res (Name_uri (ascii ''/testApp'')) (\<lambda>n. Inr (new_filter n))"

text \<open>The token is tested against null, printed about, and read in any case.\<close>

definition consumer_onInterest :: "(name \<Rightarrow> bytes) \<Rightarrow> interest \<Rightarrow> app_face \<Rightarrow> app_face res" where
  "consumer_onInterest digest i cf =
     (case i_pitToken i of
        None \<Rightarrow> Inl UndefinedBehavior
      | Some tok \<Rightarrow> bind_res (readPitToken tok) (\<lambda>_. Inr (put_data (signed_data digest (i_name i)) cf)))"

definition consumer_call :: "(name \<Rightarrow> bytes) \<Rightarrow> app_callback call \<Rightarrow> unit \<times> app_face \<Rightarrow> (unit \<times> app_face) res" where
  "consumer_call digest c = (\<lambda>(st, cf).
     case c of
       InterestCall OnInterest _ i \<Rightarrow> bind_res (consumer_onInterest digest i cf) (\<lambda>cf. Inr (st, cf))
     | InterestCall (ServeCert cert) _ i \<Rightarrow> Inr (st, put_data cert cf)
     | _ \<Rightarrow> Inr (st, cf))"

section \<open>The producer\<close>

record producer =
  pr_interest :: interest
  pr_incoming_RD :: int
  pr_flag :: bool

definition new_producer :: producer where
  "new_producer = \<lparr>pr_interest = Interest_ctor [], pr_incoming_RD = 0, pr_flag = False\<rparr>"

definition producer_filter :: "interest_filter res" where
  "producer_filter = bind_res (Name_uri (ascii ''/example/testApp'')) (\<lambda>n. Inr (new_filter n))"

text \<open>\<open>reflect\<close> and \<open>reflect2\<close> differ in the name of the reflexive Interest.\<close>

definition reflect_to :: "string \<Rightarrow> random_source \<Rightarrow> interest \<Rightarrow> app_face \<Rightarrow> app_face res" where
  "reflect_to uri rnd i cf =
     (case i_pitToken i of
        None \<Rightarrow> Inr cf
      | Some tok \<Rightarrow>
          bind_res (readPitToken tok) (\<lambda>pitToken.
          bind_res (Name_uri_RN (ascii uri) True) (\<lambda>n.
          let reflectInterest = (Interest_ctor n)\<lparr>i_pitToken := Some (setPitToken pitToken)\<rparr>
          in Inr (snd (expressInterest rnd reflectInterest (Some OnData) (Some OnNack) (Some OnTimeout) cf)))))"

definition reflect :: "random_source \<Rightarrow> interest \<Rightarrow> app_face \<Rightarrow> app_face res" where
  "reflect = reflect_to ''/testApp/reflect/9999''"

definition reflect2 :: "random_source \<Rightarrow> interest \<Rightarrow> app_face \<Rightarrow> app_face res" where
  "reflect2 = reflect_to ''/testApp/reflect2/9999''"

definition producer_onInterest :: "random_source \<Rightarrow> interest \<Rightarrow> producer \<times> app_face \<Rightarrow> (producer \<times> app_face) res" where
  "producer_onInterest rnd i = (\<lambda>(p, cf).
     if \<not> pr_flag p then
       bind_res (readInterestPitToken i) (\<lambda>_.
       bind_res (reflect rnd i cf) (\<lambda>cf.
       Inr (p\<lparr>pr_interest := i, pr_flag := True\<rparr>, cf)))
     else Inr (p, cf))"

definition replyData :: "(name \<Rightarrow> bytes) \<Rightarrow> producer \<Rightarrow> app_face \<Rightarrow> app_face" where
  "replyData digest p cf = put_data (signed_data digest (i_name (pr_interest p))) cf"

definition producer_datacallback :: "(name \<Rightarrow> bytes) \<Rightarrow> random_source \<Rightarrow> producer \<times> app_face \<Rightarrow> (producer \<times> app_face) res" where
  "producer_datacallback digest rnd = (\<lambda>(p, cf).
     let p = p\<lparr>pr_incoming_RD := pr_incoming_RD p + 1\<rparr>
     in bind_res (if pr_incoming_RD p = 1 then reflect2 rnd (pr_interest p) cf else Inr cf) (\<lambda>cf.
        Inr (p, if pr_incoming_RD p = 2 then replyData digest p cf else cf)))"

definition producer_call :: "(name \<Rightarrow> bytes) \<Rightarrow> random_source \<Rightarrow> app_callback call \<Rightarrow> producer \<times> app_face \<Rightarrow> (producer \<times> app_face) res" where
  "producer_call digest rnd c st =
     (case c of
        InterestCall OnInterest _ i \<Rightarrow> producer_onInterest rnd i st
      | DataCall _ OnData _ _ \<Rightarrow> producer_datacallback digest rnd st
      | InterestCall (ServeCert cert) _ _ \<Rightarrow> Inr (fst st, put_data cert (snd st))
      | _ \<Rightarrow> Inr st)"

section \<open>One round of the event loop\<close>

text \<open>A packet is received, the callbacks it triggers run, and then the tasks they posted.\<close>

definition app_round ::
  "(app_callback call \<Rightarrow> 'st \<times> app_face \<Rightarrow> ('st \<times> app_face) res) \<Rightarrow> (client_out \<Rightarrow> nat) \<Rightarrow> client_out \<Rightarrow> 'st \<times> app_face \<Rightarrow> ('st \<times> app_face) res" where
  "app_round handle sz p = (\<lambda>(st, cf).
     bind_res (onReceiveElement p cf) (\<lambda>cf1.
     bind_res (fold_res handle (drop (length (cf_calls cf)) (cf_calls cf1)) (st, cf1)) (\<lambda>(st, cf2).
     bind_res (fold_res (run_task sz) (cf_tasks cf2) (cf2\<lparr>cf_tasks := []\<rparr>)) (\<lambda>cf3. Inr (st, cf3)))))"

section \<open>Names\<close>

definition consumer_name :: name where
  "consumer_name = [Component 8 (ascii ''example''), Component 8 (ascii ''testApp''), Component 59 (ascii ''1234'')]"

definition reflect_name :: "string \<Rightarrow> name" where
  "reflect_name s = [Component 8 (ascii ''testApp''), Component 8 (ascii s), Component 59 (ascii ''9999'')]"

lemma app_names:
  "Name_uri_RN (ascii ''/example/testApp/1234'') True = Inr consumer_name"
  "Name_uri_RN (ascii ''/testApp/reflect/9999'') True = Inr (reflect_name ''reflect'')"
  "Name_uri_RN (ascii ''/testApp/reflect2/9999'') True = Inr (reflect_name ''reflect2'')"
  "Name_uri (ascii ''/testApp'') = Inr [Component 8 (ascii ''testApp'')]"
  "Name_uri (ascii ''/example/testApp'') = Inr [Component 8 (ascii ''example''), Component 8 (ascii ''testApp'')]"
proof -
  have w: "plain_word (ascii ''example'')" "plain_word (ascii ''testApp'')" "plain_word (ascii ''1234'')" "plain_word (ascii ''9999'')"
    "plain_word (ascii ''reflect'')" "plain_word (ascii ''reflect2'')"
    by (simp_all add: plain_word_def unreserved_def ascii_def)
  show "Name_uri_RN (ascii ''/example/testApp/1234'') True = Inr consumer_name"
    using Name_uri_plain(1) [of "[ascii ''example'', ascii ''testApp'']" "ascii ''1234''"] w by (simp add: consumer_name_def) (simp add: ascii_def)
  show "Name_uri_RN (ascii ''/testApp/reflect/9999'') True = Inr (reflect_name ''reflect'')"
    using Name_uri_plain(1) [of "[ascii ''testApp'', ascii ''reflect'']" "ascii ''9999''"] w by (simp add: reflect_name_def) (simp add: ascii_def)
  show "Name_uri_RN (ascii ''/testApp/reflect2/9999'') True = Inr (reflect_name ''reflect2'')"
    using Name_uri_plain(1) [of "[ascii ''testApp'', ascii ''reflect2'']" "ascii ''9999''"] w by (simp add: reflect_name_def) (simp add: ascii_def)
  show "Name_uri (ascii ''/testApp'') = Inr [Component 8 (ascii ''testApp'')]"
    using Name_uri_plain(2) [of "[]" "ascii ''testApp''"] w by simp (simp add: ascii_def)
  show "Name_uri (ascii ''/example/testApp'') = Inr [Component 8 (ascii ''example''), Component 8 (ascii ''testApp'')]"
    using Name_uri_plain(2) [of "[ascii ''example'']" "ascii ''testApp''"] w by simp (simp add: ascii_def)
qed


section \<open>Rounds of an application's face\<close>

text \<open>A face that has one filter, an empty queue, and identifiers left.\<close>

definition idle_face :: "interest_filter \<Rightarrow> app_callback \<Rightarrow> app_face \<Rightarrow> bool" where
  "idle_face f cb cf \<longleftrightarrow> client_inv cf \<and> cf_tasks cf = [] \<and> rc_lastId (cf_pending cf) + 2 < 2 ^ 64 \<and>
     (\<exists>k. rc_records (cf_filters cf) = [(k, \<lparr>fr_filter = f, fr_callback = Some cb\<rparr>)])"

lemma rc_get_put: "rc_put k r c = Inr c' \<Longrightarrow> rc_get k c' = Some r"
proof -
  assume p: "rc_put k r c = Inr c'"
  then have "(k, r) \<in> set (rc_records c')" "k \<notin> fst ` set (rc_records c)"
    by (auto simp: rc_put_def rc_get_def assert_res_eq_Inr set_insort_key map_of_eq_None_iff)
  moreover have "mset (rc_records c') = add_mset (k, r) (mset (rc_records c))" using mset_rc_put [OF p] by blast
  then have "set (rc_records c') = insert (k, r) (set (rc_records c))" by (metis set_mset_add_mset_insert set_mset_mset)
  moreover have "map_of (rc_records c') k = Some v \<Longrightarrow> (k, v) \<in> set (rc_records c')" for v by (rule map_of_SomeD)
  ultimately show ?thesis by (cases "map_of (rc_records c') k") (force simp: rc_get_def map_of_eq_None_iff)+
qed

lemma incoming_round:
  assumes "idle_face f cb cf" "filter_doesMatch f (i_name i)"
  obtains e pt where "processIncomingInterest i cf = Inr (cf\<lparr>cf_pending := pt, cf_calls := cf_calls cf @ [InterestCall cb f i]\<rparr>)"
    "client_inv (cf\<lparr>cf_pending := pt, cf_calls := cf_calls cf @ [InterestCall cb f i]\<rparr>)" "rc_lastId pt = rc_lastId (cf_pending cf) + 1"
    "e \<in> set (rc_records pt)" "pi_interest (snd e) = i" "pi_origin (snd e) = FORWARDER"
proof -
  let ?k = "rc_lastId (cf_pending cf) + 1" and ?e = "new_pending_forwarder (cf_now cf) i :: app_callback pending_interest"
  have inv: "client_inv cf" and last: "rc_lastId (cf_pending cf) + 1 < 2 ^ 64" using assms(1) by (auto simp: idle_face_def)
  obtain k where flt: "rc_records (cf_filters cf) = [(k, \<lparr>fr_filter = f, fr_callback = Some cb\<rparr>)]" using assms(1) by (auto simp: idle_face_def)
  obtain cf' where cf': "processIncomingInterest i cf = Inr cf'" using incoming_ok [OF inv last] by blast
  then obtain pt where pt: "rc_put ?k ?e ((cf_pending cf)\<lparr>rc_lastId := ?k\<rparr>) = Inr pt" "cf' = dispatchInterest ?k (cf\<lparr>cf_pending := pt\<rparr>)"
    by (auto simp: processIncomingInterest_def rc_insert_def allocateId_next [OF last] bind_res_eq_Inr)
  have get: "rc_get ?k pt = Some ?e" using rc_get_put [OF pt(1)] .
  have m: "record_doesMatch \<lparr>fr_filter = f, fr_callback = Some cb\<rparr> ?e"
    using assms(2) by (simp add: record_doesMatch_def new_pending_forwarder_def new_pending_def)
  let ?pt = "rc_update ?k (\<lambda>_. recordForwarding ?e) pt"
  have eq: "cf' = cf\<lparr>cf_pending := ?pt, cf_calls := cf_calls cf @ [InterestCall cb f i]\<rparr>"
    using pt(2) get m flt by (simp add: dispatchInterest_def new_pending_forwarder_def new_pending_def)
  have "(?k, recordForwarding ?e) \<in> set (rc_records ?pt)" using rc_get_mem [OF get] by (force simp: rc_update_def)
  moreover have "rc_lastId ?pt = rc_lastId (cf_pending cf) + 1" using mset_rc_put [OF pt(1)] by simp
  ultimately show thesis using that [of ?pt "(?k, recordForwarding ?e)"] cf' incoming_inv [OF inv last cf'] unfolding eq
    by (simp add: recordForwarding_def new_pending_forwarder_def new_pending_def)
qed

lemma express_round:
  assumes "client_inv cf" "cf_tasks cf = []" "rc_lastId (cf_pending cf) + 1 < 2 ^ 64"
    and "rc_records (cf_filters cf) = [(k, fr)]" "\<not> filter_doesMatch (fr_filter fr) (i_name i)" "i_nonce i = None"
    and "sz (SentInterest (i\<lparr>i_nonce := Some (rnd (cf_drawn cf)), i_incomingFaceId := None\<rparr>)) \<le> MAX_NDN_PACKET_SIZE"
  obtains cf1 cf2 where "snd (expressInterest rnd i a b c cf) = cf1" "fold_res (run_task sz) (cf_tasks cf1) (cf1\<lparr>cf_tasks := []\<rparr>) = Inr cf2"
    "cf_out cf2 = cf_out cf @ [SentInterest (i\<lparr>i_nonce := Some (rnd (cf_drawn cf)), i_incomingFaceId := None\<rparr>)]" "client_inv cf2"
    "cf_tasks cf2 = []" "cf_filters cf2 = cf_filters cf" "cf_calls cf2 = cf_calls cf" "rc_lastId (cf_pending cf2) = rc_lastId (cf_pending cf) + 1"
proof -
  let ?k = "rc_lastId (cf_pending cf) + 1" and ?i = "i\<lparr>i_nonce := Some (rnd (cf_drawn cf))\<rparr>"
  define cf1 where "cf1 = snd (expressInterest rnd i a b c cf)"
  have cf1: "cf1 = cf\<lparr>cf_pending := (cf_pending cf)\<lparr>rc_lastId := ?k\<rparr>, cf_drawn := Suc (cf_drawn cf), cf_tasks := [ExpressInterest ?k ?i a b c]\<rparr>"
    using assms(2,6) by (simp add: cf1_def expressInterest_def allocateId_next [OF assms(3)] post_def getNonce_def)
  have inv: "client_inv cf1" unfolding cf1_def by (rule expressInterest_inv [OF assms(1,3)])
  have t: "cf_tasks cf1 = ExpressInterest ?k ?i a b c # []" by (simp add: cf1)
  obtain pt where pt: "rc_put ?k (new_pending (cf_now cf1) ?i a b c) (cf_pending cf1) = Inr pt" using express_put_ok [OF inv t] by blast
  have m: "\<not> record_doesMatch fr e" if "pi_interest e = ?i" for e using assms(5) that by (simp add: record_doesMatch_def)
  define cf2 where "cf2 = dispatchInterest ?k (cf1\<lparr>cf_tasks := [], cf_pending := rc_update ?k recordForwarding pt,
      cf_out := cf_out cf @ [SentInterest (?i\<lparr>i_incomingFaceId := None\<rparr>)]\<rparr>)"
  have run: "run_task sz (ExpressInterest ?k ?i a b c) (cf1\<lparr>cf_tasks := []\<rparr>) = Inr cf2"
    using pt assms(7) by (simp add: run_task_def impl_expressInterest_def cf2_def client_send_def cf1 Let_def)
  have "cf_out cf2 = cf_out cf @ [SentInterest (?i\<lparr>i_incomingFaceId := None\<rparr>)] \<and> cf_tasks cf2 = [] \<and> cf_filters cf2 = cf_filters cf \<and>
      cf_calls cf2 = cf_calls cf \<and> rc_lastId (cf_pending cf2) = ?k"
    using assms(4) m mset_rc_put [OF pt] rc_get_put [OF pt] by (simp add: cf2_def dispatchInterest_def cf1 recordForwarding_def new_pending_def)
  moreover have "client_inv cf2" using express_inv [OF inv t] run by (simp add: run_task_def)
  ultimately show thesis using that [of cf1 cf2] cf1_def run t by simp
qed


section \<open>Rounds of the applications\<close>

definition consumer_sent :: "32 word \<Rightarrow> interest" where
  "consumer_sent nonce = (Interest_ctor consumer_name)\<lparr>i_nonce := Some nonce, i_pitToken := Some (setPitToken 2345), i_lifetime := 5000,
     i_mustBeFresh := True\<rparr>"

definition reflect_sent :: "string \<Rightarrow> 32 word \<Rightarrow> 32 word \<Rightarrow> interest" where
  "reflect_sent s t nonce = (Interest_ctor (reflect_name s))\<lparr>i_nonce := Some nonce, i_pitToken := Some (setPitToken t)\<rparr>"

abbreviation "consumer_prefix \<equiv> [Component 8 (ascii ''testApp'')]"
abbreviation "producer_prefix \<equiv> [Component 8 (ascii ''example''), Component 8 (ascii ''testApp'')]"

lemma ctor_simps [simp]: "i_name (Interest_ctor n) = n" "i_nonce (Interest_ctor n) = None" "i_incomingFaceId (Interest_ctor n) = None"
  "i_canBePrefix (Interest_ctor n) = False" "i_mustBeFresh (Interest_ctor n) = False" "i_hopLimit (Interest_ctor n) = None"
  "i_forwardingHint (Interest_ctor n) = []" "i_nextHopFaceId (Interest_ctor n) = None" "i_pitToken (Interest_ctor n) = None"
  "i_lifetime (Interest_ctor n) = 4000"
  by (simp_all add: Interest_ctor_def to_interest_def new_packet_def DEFAULT_INTEREST_LIFETIME_def)

lemma app_reflexive [simp]: "isReflexive (Component 59 (ascii ''1234''))" "isReflexive (Component 59 (ascii ''9999''))" "\<not> isReflexive (Component 8 v)"
  by (simp_all add: isReflexive_def g_conventionDecoding_def canDecodeTypedConvention_def isNumber_def ascii_def)

lemma app_filters [simp]:
  "filter_doesMatch (new_filter producer_prefix) consumer_name" "filter_doesMatch (new_filter consumer_prefix) (reflect_name s)"
  "\<not> filter_doesMatch (new_filter consumer_prefix) consumer_name" "\<not> filter_doesMatch (new_filter producer_prefix) (reflect_name s)"
  by (simp_all add: filter_doesMatch_def new_filter_def isReflexiveName_def getnonReflexiveName_def name_erase_def consumer_name_def reflect_name_def
      isPrefixOf_def ascii_def)

lemma readPitToken_total: "4 \<le> length tok \<Longrightarrow> \<exists>t. readPitToken tok = Inr t"
  by (simp add: readPitToken_def)

lemma consumer_started:
  assumes "idle_face (new_filter consumer_prefix) OnInterest cf" "sz (SentInterest (consumer_sent (rnd (cf_drawn cf)))) \<le> MAX_NDN_PACKET_SIZE"
  shows "\<exists>cf1 cf2. consumer_run rnd cf = Inr cf1 \<and> fold_res (run_task sz) (cf_tasks cf1) (cf1\<lparr>cf_tasks := []\<rparr>) = Inr cf2 \<and>
    cf_out cf2 = cf_out cf @ [SentInterest (consumer_sent (rnd (cf_drawn cf)))] \<and> client_inv cf2 \<and> cf_tasks cf2 = [] \<and>
    cf_filters cf2 = cf_filters cf \<and> rc_lastId (cf_pending cf2) = rc_lastId (cf_pending cf) + 1"
proof -
  let ?i = "(Interest_ctor consumer_name)\<lparr>i_pitToken := Some (setPitToken 2345), i_lifetime := 5000, i_mustBeFresh := True\<rparr>"
  have idle: "client_inv cf" "cf_tasks cf = []" "rc_lastId (cf_pending cf) + 1 < 2 ^ 64" using assms(1) by (auto simp: idle_face_def)
  obtain k where flt: "rc_records (cf_filters cf) = [(k, \<lparr>fr_filter = new_filter consumer_prefix, fr_callback = Some OnInterest\<rparr>)]"
    using assms(1) by (auto simp: idle_face_def)
  have sent: "?i\<lparr>i_nonce := Some n, i_incomingFaceId := None\<rparr> = consumer_sent n" for n by (simp add: consumer_sent_def Interest_ctor_def to_interest_def)
  obtain cf1 cf2 where "snd (expressInterest rnd ?i (Some OnData) (Some OnNack) (Some OnTimeout) cf) = cf1"
    "fold_res (run_task sz) (cf_tasks cf1) (cf1\<lparr>cf_tasks := []\<rparr>) = Inr cf2" "cf_out cf2 = cf_out cf @ [SentInterest (consumer_sent (rnd (cf_drawn cf)))]"
    "client_inv cf2" "cf_tasks cf2 = []" "cf_filters cf2 = cf_filters cf" "rc_lastId (cf_pending cf2) = rc_lastId (cf_pending cf) + 1"
    by (rule express_round [OF idle flt, of ?i sz rnd "Some OnData" "Some OnNack" "Some OnTimeout"])
      (use assms(2) in \<open>simp_all add: sent\<close>)
  then show ?thesis by (auto simp: consumer_run_def consumer_interest_def app_names)
qed

lemma consumer_round:
  assumes "idle_face (new_filter consumer_prefix) OnInterest cf" "i_name i = reflect_name s" "i_pitToken i = Some tok" "4 \<le> length tok"
    and "matchesData i (signed_data digest (i_name i))" "sz (SentData (signed_data digest (i_name i))) \<le> MAX_NDN_PACKET_SIZE"
  shows "\<exists>cf'. app_round (consumer_call digest) sz (SentInterest i) ((), cf) = Inr ((), cf') \<and>
    cf_out cf' = cf_out cf @ [SentData (signed_data digest (i_name i))]"
proof -
  let ?d = "signed_data digest (i_name i)"
  obtain e pt where r: "processIncomingInterest i cf = Inr (cf\<lparr>cf_pending := pt, cf_calls := cf_calls cf @ [InterestCall OnInterest (new_filter consumer_prefix) i]\<rparr>)"
    "e \<in> set (rc_records pt)" "pi_interest (snd e) = i" "pi_origin (snd e) = FORWARDER"
    by (rule incoming_round [OF assms(1), of i]) (simp add: assms(2))
  have m: "data_matches ?d FORWARDER (rc_records pt)" unfolding data_matches_def list_ex_iff
    by (rule bexI [OF _ r(2)]) (use r(3,4) assms(5) in \<open>simp add: split_def\<close>)
  have t: "cf_tasks cf = []" using assms(1) by (simp add: idle_face_def)
  obtain x where "readPitToken tok = Inr x" using readPitToken_total [OF assms(4)] by blast
  then have "consumer_onInterest digest i cf' = Inr (put_data ?d cf')" for cf' using assms(3) by (simp add: consumer_onInterest_def)
  then show ?thesis using m t assms(6) r(1)
    by (simp add: app_round_def onReceiveElement_def consumer_call_def put_data_def post_def run_task_def putData_def satisfyPendingInterests_def
        satisfy_removeIf client_send_def) (simp add: signed_data_def)
qed

lemma producer_round:
  assumes "idle_face (new_filter producer_prefix) OnInterest cf" "i_name i = consumer_name" "i_pitToken i = Some (setPitToken t)" "\<not> pr_flag p"
    and "sz (SentInterest (reflect_sent ''reflect'' t (rnd (cf_drawn cf)))) \<le> MAX_NDN_PACKET_SIZE"
  shows "\<exists>cf'. app_round (producer_call digest rnd) sz (SentInterest i) (p, cf) = Inr (p\<lparr>pr_interest := i, pr_flag := True\<rparr>, cf') \<and>
    cf_out cf' = cf_out cf @ [SentInterest (reflect_sent ''reflect'' t (rnd (cf_drawn cf)))]"
proof -
  let ?c = "InterestCall OnInterest (new_filter producer_prefix) i"
  let ?ri = "(Interest_ctor (reflect_name ''reflect''))\<lparr>i_pitToken := Some (setPitToken t)\<rparr>"
  obtain pt where r: "processIncomingInterest i cf = Inr (cf\<lparr>cf_pending := pt, cf_calls := cf_calls cf @ [?c]\<rparr>)"
    "client_inv (cf\<lparr>cf_pending := pt, cf_calls := cf_calls cf @ [?c]\<rparr>)" "rc_lastId pt = rc_lastId (cf_pending cf) + 1"
    by (rule incoming_round [OF assms(1), of i]) (simp add: assms(2))
  define cf1 where "cf1 = cf\<lparr>cf_pending := pt, cf_calls := cf_calls cf @ [?c]\<rparr>"
  have idle: "cf_tasks cf = []" "rc_lastId (cf_pending cf) + 2 < 2 ^ 64" using assms(1) by (auto simp: idle_face_def)
  obtain k where flt: "rc_records (cf_filters cf1) = [(k, \<lparr>fr_filter = new_filter producer_prefix, fr_callback = Some OnInterest\<rparr>)]"
    using assms(1) by (auto simp: idle_face_def cf1_def)
  have inv1: "client_inv cf1" "cf_tasks cf1 = []" "rc_lastId (cf_pending cf1) + 1 < 2 ^ 64" using r(2,3) idle by (simp_all add: cf1_def)
  have sent: "?ri\<lparr>i_nonce := Some n, i_incomingFaceId := None\<rparr> = reflect_sent ''reflect'' t n" for n by (simp add: reflect_sent_def Interest_ctor_def to_interest_def)
  obtain cf2 cf3 where e: "snd (expressInterest rnd ?ri (Some OnData) (Some OnNack) (Some OnTimeout) cf1) = cf2"
    "fold_res (run_task sz) (cf_tasks cf2) (cf2\<lparr>cf_tasks := []\<rparr>) = Inr cf3" "cf_out cf3 = cf_out cf1 @ [SentInterest (reflect_sent ''reflect'' t (rnd (cf_drawn cf)))]"
    by (rule express_round [OF inv1 flt, of ?ri sz rnd "Some OnData" "Some OnNack" "Some OnTimeout"])
      (use assms(5) in \<open>simp_all add: sent cf1_def\<close>)
  then have "producer_onInterest rnd i (p, cf1) = Inr (p\<lparr>pr_interest := i, pr_flag := True\<rparr>, cf2)"
    using assms(3,4) by (simp add: producer_onInterest_def reflect_def reflect_to_def readInterestPitToken_def app_names)
  then show ?thesis using r(1) e(2,3) by (simp add: app_round_def onReceiveElement_def producer_call_def cf1_def)
qed


section \<open>The producer's protocol\<close>

text \<open>What the application asked of its face: the Data put and the names of the Interests expressed.\<close>

definition data_asked :: "app_callback task list \<Rightarrow> data list" where
  "data_asked ts = concat (map (\<lambda>t. case t of PutData d \<Rightarrow> [d] | _ \<Rightarrow> []) ts)"

definition interests_asked :: "app_callback task list \<Rightarrow> name list" where
  "interests_asked ts = concat (map (\<lambda>t. case t of ExpressInterest _ i _ _ _ \<Rightarrow> [i_name i] | _ \<Rightarrow> []) ts)"

fun reflexive_data_call :: "app_callback call \<Rightarrow> bool" where
  "reflexive_data_call (DataCall _ OnData _ _) = True"
| "reflexive_data_call _ = False"

fun serves_cert :: "app_callback call \<Rightarrow> bool" where
  "serves_cert (InterestCall (ServeCert _) _ _) = True"
| "serves_cert _ = False"

definition n_data :: "app_callback call list \<Rightarrow> nat" where
  "n_data cs = length (filter reflexive_data_call cs)"

lemma asked_simps [simp]: "data_asked (ts @ us) = data_asked ts @ data_asked us" "data_asked [PutData d] = [d]"
  "data_asked [ExpressInterest k i a b c] = []" "interests_asked (ts @ us) = interests_asked ts @ interests_asked us"
  "interests_asked [PutData d] = []" "interests_asked [ExpressInterest k i a b c] = [i_name i]"
  by (simp_all add: data_asked_def interests_asked_def)

lemma expressInterest_asked:
  "data_asked (cf_tasks (snd (expressInterest rnd i a b c cf))) = data_asked (cf_tasks cf)"
  "interests_asked (cf_tasks (snd (expressInterest rnd i a b c cf))) = interests_asked (cf_tasks cf) @ [i_name i]"
  by (cases "i_nonce i"; simp add: expressInterest_def allocateId_def Let_def getNonce_def post_def)+

lemma reflect_to_asked:
  assumes "i_pitToken i = Some tok" "4 \<le> length tok" "Name_uri_RN (ascii uri) True = Inr n"
  obtains cf' where "reflect_to uri rnd i cf = Inr cf'" "data_asked (cf_tasks cf') = data_asked (cf_tasks cf)"
    "interests_asked (cf_tasks cf') = interests_asked (cf_tasks cf) @ [n]"
  using assms readPitToken_total [OF assms(2)] by (auto simp: reflect_to_def expressInterest_asked)

lemma producer_call_other:
  assumes "pr_flag p" "\<not> reflexive_data_call c" "\<not> serves_cert c"
  shows "producer_call digest rnd c (p, cf) = Inr (p, cf)"
  using assms by (cases c rule: reflexive_data_call.cases; cases c rule: serves_cert.cases)
    (auto simp: producer_call_def producer_onInterest_def split: call.splits app_callback.splits)

lemma producer_calls:
  assumes "i_pitToken i = Some tok" "4 \<le> length tok" "pr_flag p0" "pr_interest p0 = i" "pr_incoming_RD p0 = 0"
    and "list_all (\<lambda>c. \<not> serves_cert c) cs"
  shows "\<exists>p cf'. fold_res (producer_call digest rnd) cs (p0, cf) = Inr (p, cf') \<and> pr_flag p \<and> pr_interest p = i \<and> pr_incoming_RD p = int (n_data cs) \<and>
    data_asked (cf_tasks cf') = data_asked (cf_tasks cf) @ (if 2 \<le> n_data cs then [signed_data digest (i_name i)] else []) \<and>
    interests_asked (cf_tasks cf') = interests_asked (cf_tasks cf) @ (if 1 \<le> n_data cs then [reflect_name ''reflect2''] else [])"
  using assms(6)
proof (induction cs rule: rev_induct)
  case (snoc c cs)
  then obtain p cf1 where r: "fold_res (producer_call digest rnd) cs (p0, cf) = Inr (p, cf1)" "pr_flag p" "pr_interest p = i"
      "pr_incoming_RD p = int (n_data cs)"
      "data_asked (cf_tasks cf1) = data_asked (cf_tasks cf) @ (if 2 \<le> n_data cs then [signed_data digest (i_name i)] else [])"
      "interests_asked (cf_tasks cf1) = interests_asked (cf_tasks cf) @ (if 1 \<le> n_data cs then [reflect_name ''reflect2''] else [])"
    by auto
  show ?case
  proof (cases "reflexive_data_call c")
    case True
    then have c: "producer_call digest rnd c (p, cf1) = producer_datacallback digest rnd (p, cf1)" and n: "n_data (cs @ [c]) = Suc (n_data cs)"
      by (cases c rule: reflexive_data_call.cases; auto simp: producer_call_def n_data_def)+
    obtain cf2 where cf2: "reflect_to ''/testApp/reflect2/9999'' rnd i cf1 = Inr cf2" "data_asked (cf_tasks cf2) = data_asked (cf_tasks cf1)"
      "interests_asked (cf_tasks cf2) = interests_asked (cf_tasks cf1) @ [reflect_name ''reflect2'']"
      using reflect_to_asked [OF assms(1,2) app_names(3)] by blast
    consider "n_data cs = 0" | "n_data cs = 1" | "2 \<le> n_data cs" by linarith
    then show ?thesis
      using r c n cf2 by cases (auto simp: producer_datacallback_def reflect2_def replyData_def put_data_def post_def Let_def)
  next
    case False
    then show ?thesis using r snoc.prems producer_call_other [OF r(2) False, of digest rnd cf1] by (simp add: n_data_def)
  qed
qed (use assms in \<open>simp add: n_data_def\<close>)

section \<open>Properties\<close>

text \<open>
  C38: The producer's side of the protocol.  After the first Interest, whatever further callbacks come, the
  producer asks for exactly one reflexive Interest, a second one once reflexive Data has arrived, and puts its final
  Data, under the name of the first Interest, exactly once, when the second reflexive Data arrives.
\<close>

theorem producer_protocol:
  assumes "i_pitToken i = Some tok" "4 \<le> length tok" "list_all (\<lambda>c. \<not> serves_cert c) cs"
  shows "\<exists>p cf'. fold_res (producer_call digest rnd) (InterestCall OnInterest f i # cs) (new_producer, cf) = Inr (p, cf') \<and>
    pr_interest p = i \<and> pr_incoming_RD p = int (n_data cs) \<and>
    data_asked (cf_tasks cf') = data_asked (cf_tasks cf) @ (if 2 \<le> n_data cs then [signed_data digest (i_name i)] else []) \<and>
    interests_asked (cf_tasks cf') =
      interests_asked (cf_tasks cf) @ reflect_name ''reflect'' # (if 1 \<le> n_data cs then [reflect_name ''reflect2''] else [])"
proof -
  obtain cf1 where cf1: "reflect_to ''/testApp/reflect/9999'' rnd i cf = Inr cf1" "data_asked (cf_tasks cf1) = data_asked (cf_tasks cf)"
    "interests_asked (cf_tasks cf1) = interests_asked (cf_tasks cf) @ [reflect_name ''reflect'']"
    using reflect_to_asked [OF assms(1,2) app_names(2)] by blast
  let ?p = "new_producer\<lparr>pr_interest := i, pr_flag := True\<rparr>"
  have first: "producer_call digest rnd (InterestCall OnInterest f i) (new_producer, cf) = Inr (?p, cf1)"
    using assms(1,2) cf1(1) readPitToken_total [OF assms(2)]
    by (auto simp: producer_call_def producer_onInterest_def new_producer_def readInterestPitToken_def reflect_def)
  obtain p cf' where "fold_res (producer_call digest rnd) cs (?p, cf1) = Inr (p, cf')" "pr_interest p = i" "pr_incoming_RD p = int (n_data cs)"
    "data_asked (cf_tasks cf') = data_asked (cf_tasks cf) @ (if 2 \<le> n_data cs then [signed_data digest (i_name i)] else [])"
    "interests_asked (cf_tasks cf') = interests_asked (cf_tasks cf1) @ (if 1 \<le> n_data cs then [reflect_name ''reflect2''] else [])"
    using producer_calls [OF assms(1,2) _ _ _ assms(3), of ?p digest rnd cf1] cf1(2) by (auto simp: new_producer_def)
  with first cf1(3) show ?thesis by (intro exI [of _ p] exI [of _ cf']) simp
qed

theorem producer_protocol_witness:
  "\<exists>p cf'. fold_res (producer_call (\<lambda>_. replicate 32 0) (\<lambda>_. 5))
      [InterestCall OnInterest (new_filter producer_prefix) (consumer_sent 1),
       DataCall 1 OnData (consumer_sent 1) (signed_data (\<lambda>_. []) []), DataCall 2 OnData (consumer_sent 1) (signed_data (\<lambda>_. []) [])]
      (new_producer, new_client_face 0) = Inr (p, cf') \<and>
    data_asked (cf_tasks cf') = [signed_data (\<lambda>_. replicate 32 0) consumer_name] \<and>
    interests_asked (cf_tasks cf') = [reflect_name ''reflect'', reflect_name ''reflect2'']"
  using producer_protocol [of "consumer_sent 1" "setPitToken 2345"
      "[DataCall 1 OnData (consumer_sent 1) (signed_data (\<lambda>_. []) []), DataCall 2 OnData (consumer_sent 1) (signed_data (\<lambda>_. []) [])]"
      "\<lambda>_. replicate 32 0" "\<lambda>_. 5" "new_filter producer_prefix" "new_client_face 0"]
  by (auto simp: consumer_sent_def n_data_def new_client_face_def data_asked_def interests_asked_def)

end
