(* ===== verification/End_To_End.thy ===== *)
theory End_To_End
  imports Scenario Demo_Apps
begin

text \<open>
  The demonstration applications and a forwarder between them: the consumer's face is the forwarder's face
  \<open>f\<close>, the producer's is the face of the next hop.  A packet the forwarder sends to an application arrives
  without the identifier of its incoming face, a field the link service adds only on request.
\<close>

section \<open>The packets of the applications\<close>

definition to_app :: "interest \<Rightarrow> interest" where
  "to_app i = i\<lparr>i_incomingFaceId := None\<rparr>"

lemma sent_simps [simp]:
  "i_name (consumer_sent n) = consumer_name" "i_name (reflect_sent s t n) = reflect_name s"
  "i_pitToken (consumer_sent n) = Some (setPitToken 2345)" "i_pitToken (reflect_sent s t n) = Some (setPitToken t)"
  "i_nonce (consumer_sent n) = Some n" "i_nonce (reflect_sent s t n) = Some n"
  "i_hopLimit (consumer_sent n) = None" "i_hopLimit (reflect_sent s t n) = None" "i_lifetime (reflect_sent s t n) = 4000"
  "i_forwardingHint (consumer_sent n) = []" "i_forwardingHint (reflect_sent s t n) = []"
  "i_nextHopFaceId (consumer_sent n) = None" "i_canBePrefix (consumer_sent n) = False" "i_canBePrefix (reflect_sent s t n) = False"
  "i_mustBeFresh (reflect_sent s t n) = False" "(reflect_sent s t n)\<lparr>i_pitToken := Some (setPitToken t')\<rparr> = reflect_sent s t' n"
  by (simp_all add: consumer_sent_def reflect_sent_def)

lemma to_app_simps [simp]: "i_name (to_app i) = i_name i" "i_pitToken (to_app i) = i_pitToken i" "i_canBePrefix (to_app i) = i_canBePrefix i"
  "i_mustBeFresh (to_app i) = i_mustBeFresh i"
  by (simp_all add: to_app_def)

lemma forwarded_simps [simp]: "i_name (forwarded s f i tok) = i_name i" "i_pitToken (forwarded s f i tok) = tok"
  "i_canBePrefix (forwarded s f i tok) = i_canBePrefix i" "i_mustBeFresh (forwarded s f i tok) = i_mustBeFresh i"
  by (simp_all add: forwarded_def received_def default_hop_def)

lemma app_depth: "nteDepth consumer_name = length consumer_name"
  by (simp add: nteDepth_def consumer_name_def getMaxDepth_def isImplicitSha256Digest_def)

lemma reflect_from_producer: "isReflexiveInterestFromProducer (reflect_sent s t n) = Inr True"
  by (simp add: isReflexiveInterestFromProducer_def reflect_name_def isRN9999_def toNumber_def isNumber_def ascii_def
      g_conventionDecoding_def canDecodeTypedConvention_def canDecodeMarkerConvention_def readNonNegativeInteger_def readNumber_fast_def
      big_to_native_def be_nat_def)

lemma default_hop_not_zero: "i_hopLimit i = None \<Longrightarrow> i_hopLimit (default_hop s (received f i)) \<noteq> Some 0"
  by (auto simp: default_hop_def received_def)

lemma reflect_data:
  assumes "length (digest (reflect_name s)) = 32"
  shows "length s < 2 ^ 64 \<Longrightarrow> data_ok (signed_data digest (reflect_name s))" "matchesData (reflect_sent s t n) (signed_data digest (reflect_name s))"
    "\<not> matchesData (consumer_sent m) (signed_data digest (reflect_name s))" "\<not> isPrefixOf LOCALHOST (reflect_name s)"
  using assms by (auto simp: data_ok_def cacheable_def signed_data_def plain_name_def valid_name_def valid_component_def ensureValid_def
      isImplicitSha256Digest_def reflect_name_def consumer_name_def matchesData_def isPrefixOf_def LOCALHOST_def ascii_def)


section \<open>The exchange\<close>

text \<open>What the exchange assumes of the forwarder: routes, strategy, no entry for the names the applications use.\<close>

definition demo_network :: "fw \<Rightarrow> face_id \<Rightarrow> next_hop \<Rightarrow> 32 word \<Rightarrow> 32 word \<Rightarrow> data \<Rightarrow> bool" where
  "demo_network s f nh n1 n2 d \<longleftrightarrow>
     fw_inv s \<and> tokens_available s \<and> consumer_case s f (consumer_sent n1) n1 2345 nh \<and> accepts s (nh_face nh) (reflect_sent ''reflect'' 0 n2) n2 \<and>
     (\<exists>st. effective (sc_at (pit_nt (fw_pit s))) (reflect_name ''reflect'') = Some st \<and> st_type st = BestRouteStrategy) \<and>
     (\<forall>e. attached (fw_pit s) e \<longrightarrow> \<not> matchesData (pit_interest s e) d) \<and> nh_face nh \<noteq> f \<and> f_inTable (face_of s (nh_face nh))"

lemma network_exchange:
  assumes "demo_network s f nh n1 n2 d" "d = signed_data digest (reflect_name ''reflect'')" "length (digest (reflect_name ''reflect'')) = 32"
  shows "\<exists>s1 s2 s3 t. onIncomingInterest (consumer_sent n1) f s = Inr s1 \<and> t \<noteq> 0 \<and>
    fw_out s1 = fw_out s @ [OutInterest (nh_face nh) (forwarded s f (consumer_sent n1) (Some (setPitToken t)))] \<and>
    onIncomingInterest (reflect_sent ''reflect'' t n2) (nh_face nh) s1 = Inr s2 \<and>
    fw_out s2 = fw_out s1 @ [OutInterest f (forwarded s (nh_face nh) (reflect_sent ''reflect'' 0 n2) (Some (setPitToken 2345)))] \<and>
    onIncomingData d f s2 = Inr s3 \<and> fw_inv s3 \<and>
    fw_out s3 = fw_out s2 @ [OutData (nh_face nh) (d\<lparr>d_incomingFaceId := Some f, d_pitToken := Some (setPitToken 2345)\<rparr>)]"
proof -
  let ?j = "reflect_sent ''reflect'' 0 n2"
  note N = assms(1) [unfolded demo_network_def]
  obtain st where st: "effective (sc_at (pit_nt (fw_pit s))) (i_name ?j) = Some st" "st_type st = BestRouteStrategy" using N by auto
  have hop: "\<not> (i_hopLimit (default_hop s (received (nh_face nh) ?j)) = Some 0 \<and> f_scope (face_of s f) = NON_LOCAL)"
    using default_hop_not_zero [of ?j] by simp
  have d: "data_ok d" "matchesData ?j d" "\<not> matchesData (consumer_sent n1) d" "\<not> isPrefixOf LOCALHOST (d_name d)"
    using reflect_data [where digest = digest and s = "''reflect''", OF assms(3)] assms(2) by (simp_all add: signed_data_def)
  have depth: "nteDepth (i_name (consumer_sent n1)) = length (i_name (consumer_sent n1))" using app_depth by simp
  show ?thesis
    using exchange_data [where s = s and f = f and i = "consumer_sent n1" and g = "nh_face nh" and j = ?j and d = d and nh = nh and
        nonce = n1 and nonce' = n2 and ?t0.0 = 2345, OF _ _ _ depth _ reflect_from_producer st hop d(1-3) _ d(4)] N by simp
qed



section \<open>An instance\<close>

definition demo_client :: "name \<Rightarrow> app_face" where
  "demo_client p = (new_client_face 0)\<lparr>cf_filters := \<lparr>rc_records = [(1, \<lparr>fr_filter = new_filter p, fr_callback = Some OnInterest\<rparr>)], rc_lastId = 1\<rparr>\<rparr>"

abbreviation "demo_nh \<equiv> \<lparr>nh_face = 2, nh_cost = 0\<rparr>"

lemma demo_client_idle: "idle_face (new_filter p) OnInterest (demo_client p)"
  by (simp add: idle_face_def demo_client_def new_client_face_def new_container_def client_inv_def ids_defs ids_ok_def)

lemma app_wire:
  "name_wireEncode consumer_name = [7, 24, 8, 7, 101, 120, 97, 109, 112, 108, 101, 8, 7, 116, 101, 115, 116, 65, 112, 112, 59, 4, 49, 50, 51, 52]"
  "name_wireEncode (reflect_name ''reflect'') = [7, 24, 8, 7, 116, 101, 115, 116, 65, 112, 112, 8, 7, 114, 101, 102, 108, 101, 99, 116, 59, 4, 57, 57, 57, 57]"
  by (simp_all add: consumer_name_def reflect_name_def ascii_def) code_simp+


lemma app_makeEntry: "\<exists>e. makeEntry consumer_name 7 = Inr e \<and> e \<noteq> 0" "\<exists>e. makeEntry (reflect_name ''reflect'') 9 = Inr e \<and> e \<noteq> 0"
  unfolding makeEntry_def app_wire demo_seed
  by (simp_all add: CityHash64WithSeed_def CityHash64WithSeeds_def CityHash64_def HashLen17to32_def Fetch64_def
      be_nat_def k1_def k2_def Rotate_def HashLen16_mul_def HashLen16_def Hash128to64_def Let_def)

lemma app_accepts: "accepts demo 1 (consumer_sent 7) 7" "accepts demo 2 (reflect_sent ''reflect'' t 9) 9"
  using app_makeEntry by (auto simp: accepts_def dnl_has_def new_dnl_def MARK_def isPrefixOf_def LOCALHOST_def consumer_name_def reflect_name_def ascii_def)

lemma app_consumer_name: "query_name consumer_name" "isReflexiveName consumer_name"
proof -
  show "query_name consumer_name"
    by (simp add: query_name_def consumer_name_def valid_name_def valid_component_def ensureValid_def isImplicitSha256Digest_def ascii_def)
  show "isReflexiveName consumer_name" by (simp add: consumer_name_def isReflexiveName_def)
qed

lemma app_not_producer: "isReflexiveInterestFromProducer (consumer_sent n) = Inr False"
  by (simp add: isReflexiveInterestFromProducer_def consumer_name_def isRN9999_def toNumber_def isNumber_def ascii_def
      g_conventionDecoding_def canDecodeTypedConvention_def canDecodeMarkerConvention_def readNonNegativeInteger_def readNumber_fast_def
      big_to_native_def be_nat_def)

lemma app_effective: "effective (sc_at demo_tree) consumer_name = Some default_strategy" "effective (sc_at demo_tree) (reflect_name ''reflect'') = Some default_strategy"
  by (simp_all add: effective_def candidates_def demo_at consumer_name_def reflect_name_def getMaxDepth_def numeral_3_eq_3)

lemma app_fib: "fib_findLongestPrefixMatch demo_tree consumer_name = \<lparr>fe_prefix = [], fe_nextHops = [demo_nh]\<rparr>"
  by code_simp

lemma app_consumer_case: "consumer_case demo 1 (consumer_sent 7) 7 2345 demo_nh"
proof -
  have "readInterestPitToken (consumer_sent 7) = Inr 2345" by (simp add: readInterestPitToken_def)
  moreover have "interest_ok (consumer_sent 7)" using app_consumer_name app_not_producer [of 7] by (auto simp: interest_ok_def)
  moreover have "cs_findImpl 0 (received 1 (consumer_sent 7)) (new_cs 100) = Inr (None, new_cs 100)"
    using findPrefixRange_prefix [of "[]"] app_consumer_name by (simp add: cs_findImpl_def new_cs_def)
  moreover have "can_go (fw_faces demo) 1 (consumer_sent 7) demo_nh"
    by (simp add: can_go_def wouldViolateScope_def consumer_name_def isPrefixOf_def LOCALHOST_def LOCALHOP_def ascii_def)
  moreover have "\<not> existName new_pit_assist n" for n by (simp add: existName_def new_pit_assist_def)
  ultimately show ?thesis using app_accepts app_effective app_not_producer app_consumer_name app_fib default_hop_not_zero [of "consumer_sent 7" demo 1]
    by (simp add: consumer_case_def isReflexiveInterest_def default_strategy_def)
qed

lemma app_network: "demo_network demo 1 demo_nh 7 9 d"
  using demo_inv demo_tokens app_consumer_case app_accepts(2) app_effective(2)
  by (auto simp: demo_network_def default_strategy_def attached_def demo_at face_of_def up_face_def)


end
