(* ===== verification/Name_Tree_Hashtable.thy ===== *)
theory Name_Tree_Hashtable
  imports Name_Tree City_Hash
begin

text \<open>
  The hashtable under the name tree (\<open>daemon/table/name-tree-hashtable.cpp\<close>): nodes on a heap,
  chained into doubly linked lists, one list per bucket, with the number of buckets adjusted to the
  number of nodes.  The heap is explicit, so every pointer the code follows, every assertion on the
  links and every deletion is part of the model.  This theory has the operations and the invariant of
  the linked lists under attaching, detaching and rehashing; \<open>Hashtable_Refinement\<close> shows that the
  operations refine the map from names to entries that \<open>Name_Tree\<close> keeps as an association list.
\<close>

section \<open>Hash values\<close>

text \<open>\<open>HashValue\<close> is \<open>size_t\<close>, 64 bits wide, so \<open>HashFunc\<close> is \<open>Hash64\<close>.\<close>

definition hash_component :: "component \<Rightarrow> 64 word \<Rightarrow> 64 word res" where
  "hash_component c h = bind_res (CityHash64 (comp_wire c)) (\<lambda>x. Inr (h XOR x))"

definition computeHash :: "name \<Rightarrow> nat \<Rightarrow> 64 word res" where
  "computeHash n prefixLen = fold_res hash_component (take (min prefixLen (length n)) n) 0"

fun hashes_loop :: "name \<Rightarrow> 64 word \<Rightarrow> 64 word list \<Rightarrow> 64 word list res" where
  "hashes_loop [] h seq = Inr seq"
| "hashes_loop (c # cs) h seq = bind_res (hash_component c h) (\<lambda>h'. hashes_loop cs h' (seq @ [h']))"

definition computeHashes :: "name \<Rightarrow> nat \<Rightarrow> 64 word list res" where
  "computeHashes n prefixLen = hashes_loop (take (min prefixLen (length n)) n) 0 [0]"

section \<open>Load factors\<close>

text \<open>
  A load factor is a \<open>float\<close>, kept as a mantissa below \<open>2 ^ 24\<close> over a power of two.  The code
  multiplies it by a \<open>size_t\<close> and truncates: the number of buckets is first rounded to a \<open>float\<close>,
  the product is rounded again, both to nearest with ties to even.
\<close>

type_synonym float_factor = "nat \<times> nat"

fun bit_length :: "nat \<Rightarrow> nat" where
  "bit_length n = (if n = 0 then 0 else Suc (bit_length (n div 2)))"

declare bit_length.simps [simp del]

definition round24 :: "nat \<Rightarrow> nat" where
  "round24 n =
     (let s = bit_length n - 24; q = n div 2 ^ s; r = n mod 2 ^ s
      in if 2 * r < 2 ^ s \<or> (2 * r = 2 ^ s \<and> even q) then q * 2 ^ s else (q + 1) * 2 ^ s)"

definition float_times :: "float_factor \<Rightarrow> nat \<Rightarrow> nat" where
  "float_times f n = round24 (fst f * round24 n) div 2 ^ snd f"

record ht_options =
  ho_initialSize :: nat
  ho_minSize :: nat
  ho_expandLoadFactor :: float_factor
  ho_expandFactor :: float_factor
  ho_shrinkLoadFactor :: float_factor
  ho_shrinkFactor :: float_factor

text \<open>0.5f, 2.0f, 0.1f and 0.5f.\<close>

definition HashtableOptions :: "nat \<Rightarrow> ht_options" where
  "HashtableOptions sz = \<lparr>ho_initialSize = sz, ho_minSize = sz, ho_expandLoadFactor = (1, 1), ho_expandFactor = (2, 0),
     ho_shrinkLoadFactor = (13421773, 27), ho_shrinkFactor = (1, 1)\<rparr>"

definition options_ok :: "ht_options \<Rightarrow> bool" where
  "options_ok opt \<longleftrightarrow> 0 < ho_minSize opt \<and> ho_minSize opt \<le> ho_initialSize opt \<and>
     0 < fst (ho_expandLoadFactor opt) \<and> fst (ho_expandLoadFactor opt) \<le> 2 ^ snd (ho_expandLoadFactor opt) \<and>
     2 ^ snd (ho_expandFactor opt) < fst (ho_expandFactor opt) \<and>
     fst (ho_shrinkLoadFactor opt) < 2 ^ snd (ho_shrinkLoadFactor opt) \<and>
     0 < fst (ho_shrinkFactor opt) \<and> fst (ho_shrinkFactor opt) < 2 ^ snd (ho_shrinkFactor opt)"

section \<open>Nodes and buckets\<close>

type_synonym node_ref = nat

record ('f, 'm, 's) ht_node =
  nd_hash :: "64 word"
  nd_prev :: "node_ref option"
  nd_next :: "node_ref option"
  nd_name :: name
  nd_entry :: "('f, 'm, 's) nte"

record ('f, 'm, 's) hashtable =
  ht_heap :: "node_ref \<rightharpoonup> ('f, 'm, 's) ht_node"
  ht_fresh :: node_ref
  ht_buckets :: "node_ref option list"
  ht_options :: ht_options
  ht_size :: nat
  ht_expandThreshold :: nat
  ht_shrinkThreshold :: nat

definition new_node :: "64 word \<Rightarrow> name \<Rightarrow> ('f, 'm, 's) ht_node" where
  "new_node h n = \<lparr>nd_hash = h, nd_prev = None, nd_next = None, nd_name = n, nd_entry = new_nte\<rparr>"

definition deref :: "node_ref \<Rightarrow> ('f, 'm, 's) hashtable \<Rightarrow> ('f, 'm, 's) ht_node res" where
  "deref p t = (case ht_heap t p of None \<Rightarrow> Inl UndefinedBehavior | Some nd \<Rightarrow> Inr nd)"

definition set_node ::
    "node_ref \<Rightarrow> (('f, 'm, 's) ht_node \<Rightarrow> ('f, 'm, 's) ht_node) \<Rightarrow> ('f, 'm, 's) hashtable \<Rightarrow> ('f, 'm, 's) hashtable" where
  "set_node p f t = t\<lparr>ht_heap := (ht_heap t)(p := map_option f (ht_heap t p))\<rparr>"

definition delete_node :: "node_ref \<Rightarrow> ('f, 'm, 's) hashtable \<Rightarrow> ('f, 'm, 's) hashtable res" where
  "delete_node p t = bind_res (deref p t) (\<lambda>nd.
     assert_res (nd_prev nd = None) (assert_res (nd_next nd = None) (Inr (t\<lparr>ht_heap := (ht_heap t)(p := None)\<rparr>))))"

definition computeBucketIndex :: "64 word \<Rightarrow> ('f, 'm, 's) hashtable \<Rightarrow> nat res" where
  "computeBucketIndex h t =
     (if ht_buckets t = [] then Inl UndefinedBehavior else Inr (unat h mod length (ht_buckets t)))"

definition bucket_head :: "nat \<Rightarrow> ('f, 'm, 's) hashtable \<Rightarrow> node_ref option res" where
  "bucket_head b t = (if b < length (ht_buckets t) then Inr (ht_buckets t ! b) else Inl UndefinedBehavior)"

definition computeThresholds :: "('f, 'm, 's) hashtable \<Rightarrow> ('f, 'm, 's) hashtable" where
  "computeThresholds t =
     t\<lparr>ht_expandThreshold := float_times (ho_expandLoadFactor (ht_options t)) (length (ht_buckets t)),
       ht_shrinkThreshold := float_times (ho_shrinkLoadFactor (ht_options t)) (length (ht_buckets t))\<rparr>"

definition new_hashtable :: "ht_options \<Rightarrow> ('f, 'm, 's) hashtable res" where
  "new_hashtable opt =
     assert_res (options_ok opt) (Inr (computeThresholds
       \<lparr>ht_heap = Map.empty, ht_fresh = 0, ht_buckets = replicate (ho_initialSize opt) None, ht_options = opt, ht_size = 0,
        ht_expandThreshold = 0, ht_shrinkThreshold = 0\<rparr>))"

definition attach :: "nat \<Rightarrow> node_ref \<Rightarrow> ('f, 'm, 's) hashtable \<Rightarrow> ('f, 'm, 's) hashtable res" where
  "attach b p t =
     bind_res (deref p t) (\<lambda>_. bind_res (bucket_head b t) (\<lambda>head.
     let t = set_node p (\<lambda>nd. nd\<lparr>nd_prev := None, nd_next := head\<rparr>) t in
     bind_res (case head of None \<Rightarrow> Inr t
               | Some q \<Rightarrow> bind_res (deref q t) (\<lambda>nd. assert_res (nd_prev nd = None) (Inr (set_node q (\<lambda>nd. nd\<lparr>nd_prev := Some p\<rparr>) t))))
       (\<lambda>t. Inr (t\<lparr>ht_buckets := (ht_buckets t)[b := Some p]\<rparr>))))"

definition detach :: "nat \<Rightarrow> node_ref \<Rightarrow> ('f, 'm, 's) hashtable \<Rightarrow> ('f, 'm, 's) hashtable res" where
  "detach b p t =
     bind_res (deref p t) (\<lambda>nd.
     bind_res (case nd_prev nd of
         Some q \<Rightarrow> bind_res (deref q t) (\<lambda>x. assert_res (nd_next x = Some p) (Inr (set_node q (\<lambda>x. x\<lparr>nd_next := nd_next nd\<rparr>) t)))
       | None \<Rightarrow> bind_res (bucket_head b t) (\<lambda>head. assert_res (head = Some p) (Inr (t\<lparr>ht_buckets := (ht_buckets t)[b := nd_next nd]\<rparr>))))
     (\<lambda>t. bind_res (case nd_next nd of
         None \<Rightarrow> Inr t
       | Some q \<Rightarrow> bind_res (deref q t) (\<lambda>x. assert_res (nd_prev x = Some p) (Inr (set_node q (\<lambda>x. x\<lparr>nd_prev := nd_prev nd\<rparr>) t))))
     (\<lambda>t. Inr (set_node p (\<lambda>x. x\<lparr>nd_prev := None, nd_next := None\<rparr>) t))))"

text \<open>
  Loops along a list stop with \<open>Diverges\<close> when the fuel is used up.  The fuel is the number of nodes
  ever allocated, which no list exceeds.
\<close>

fun find_node ::
    "nat \<Rightarrow> name \<Rightarrow> nat \<Rightarrow> 64 word \<Rightarrow> node_ref option \<Rightarrow> ('f, 'm, 's) hashtable \<Rightarrow> node_ref option res" where
  "find_node fuel n prefixLen h None t = Inr None"
| "find_node 0 n prefixLen h (Some p) t = Inl Diverges"
| "find_node (Suc fuel) n prefixLen h (Some p) t =
     bind_res (deref p t) (\<lambda>nd.
     if nd_hash nd = h \<and> name_compare_range n 0 prefixLen (nd_name nd) 0 (length (nd_name nd)) = 0 then Inr (Some p)
     else find_node fuel n prefixLen h (nd_next nd) t)"

fun reattach :: "nat \<Rightarrow> node_ref option \<Rightarrow> ('f, 'm, 's) hashtable \<Rightarrow> ('f, 'm, 's) hashtable res" where
  "reattach fuel None t = Inr t"
| "reattach 0 (Some p) t = Inl Diverges"
| "reattach (Suc fuel) (Some p) t =
     bind_res (deref p t) (\<lambda>nd.
     bind_res (computeBucketIndex (nd_hash nd) t) (\<lambda>b.
     bind_res (attach b p t) (reattach fuel (nd_next nd))))"

definition resize :: "nat \<Rightarrow> ('f, 'm, 's) hashtable \<Rightarrow> ('f, 'm, 's) hashtable res" where
  "resize newNBuckets t =
     (if length (ht_buckets t) = newNBuckets then Inr t
      else bind_res (fold_res (reattach (ht_fresh t)) (ht_buckets t) (t\<lparr>ht_buckets := replicate newNBuckets None\<rparr>))
             (\<lambda>t. Inr (computeThresholds t)))"

definition ht_findOrInsert ::
    "name \<Rightarrow> nat \<Rightarrow> 64 word \<Rightarrow> bool \<Rightarrow> ('f, 'm, 's) hashtable \<Rightarrow> (('f, 'm, 's) hashtable \<times> node_ref option \<times> bool) res" where
  "ht_findOrInsert n prefixLen h allowInsert t =
     bind_res (computeBucketIndex h t) (\<lambda>b. bind_res (bucket_head b t) (\<lambda>head.
     bind_res (find_node (ht_fresh t) n prefixLen h head t) (\<lambda>found.
     case found of
       Some p \<Rightarrow> Inr (t, Some p, False)
     | None \<Rightarrow>
         if \<not> allowInsert then Inr (t, None, False)
         else let p = ht_fresh t;
                  t = t\<lparr>ht_heap := (ht_heap t)(p \<mapsto> new_node h (getPrefix n (int prefixLen))), ht_fresh := Suc p\<rparr>
              in bind_res (attach b p t) (\<lambda>t.
                 let t = t\<lparr>ht_size := ht_size t + 1\<rparr> in
                 bind_res (if ht_expandThreshold t < ht_size t
                           then resize (float_times (ho_expandFactor (ht_options t)) (length (ht_buckets t))) t else Inr t)
                   (\<lambda>t. Inr (t, Some p, True))))))"

definition ht_find :: "name \<Rightarrow> nat \<Rightarrow> ('f, 'm, 's) hashtable \<Rightarrow> node_ref option res" where
  "ht_find n prefixLen t =
     bind_res (computeHash n prefixLen) (\<lambda>h. bind_res (ht_findOrInsert n prefixLen h False t) (\<lambda>(_, r, _). Inr r))"

definition hashes_at :: "name \<Rightarrow> nat \<Rightarrow> 64 word list \<Rightarrow> 64 word res" where
  "hashes_at n prefixLen hashes =
     (if length hashes \<le> prefixLen then Inl OutOfRange
      else bind_res (computeHash n prefixLen) (\<lambda>h. assert_res (hashes ! prefixLen = h) (Inr (hashes ! prefixLen))))"

definition ht_find_seq :: "name \<Rightarrow> nat \<Rightarrow> 64 word list \<Rightarrow> ('f, 'm, 's) hashtable \<Rightarrow> node_ref option res" where
  "ht_find_seq n prefixLen hashes t =
     bind_res (hashes_at n prefixLen hashes) (\<lambda>h. bind_res (ht_findOrInsert n prefixLen h False t) (\<lambda>(_, r, _). Inr r))"

definition ht_insert ::
    "name \<Rightarrow> nat \<Rightarrow> 64 word list \<Rightarrow> ('f, 'm, 's) hashtable \<Rightarrow> (('f, 'm, 's) hashtable \<times> node_ref option \<times> bool) res" where
  "ht_insert n prefixLen hashes t =
     bind_res (hashes_at n prefixLen hashes) (\<lambda>h. ht_findOrInsert n prefixLen h True t)"

definition ht_erase :: "node_ref \<Rightarrow> ('f, 'm, 's) hashtable \<Rightarrow> ('f, 'm, 's) hashtable res" where
  "ht_erase p t =
     bind_res (deref p t) (\<lambda>nd. assert_res (nte_parent (nd_entry nd) = None)
     (bind_res (computeBucketIndex (nd_hash nd) t) (\<lambda>b.
      bind_res (detach b p t) (\<lambda>t. bind_res (delete_node p t) (\<lambda>t.
      let t = t\<lparr>ht_size := ht_size t - 1\<rparr> in
      if ht_size t < ht_shrinkThreshold t
      then resize (max (ho_minSize (ht_options t)) (float_times (ho_shrinkFactor (ht_options t)) (length (ht_buckets t)))) t
      else Inr t)))))"

fun destroy_list :: "nat \<Rightarrow> node_ref option \<Rightarrow> ('f, 'm, 's) hashtable \<Rightarrow> ('f, 'm, 's) hashtable res" where
  "destroy_list fuel None t = Inr t"
| "destroy_list 0 (Some p) t = Inl Diverges"
| "destroy_list (Suc fuel) (Some p) t =
     bind_res (deref p t) (\<lambda>nd.
     bind_res (delete_node p (set_node p (\<lambda>x. x\<lparr>nd_prev := None, nd_next := None\<rparr>) t)) (destroy_list fuel (nd_next nd)))"

definition destroy_hashtable :: "('f, 'm, 's) hashtable \<Rightarrow> ('f, 'm, 's) hashtable res" where
  "destroy_hashtable t = fold_res (destroy_list (ht_fresh t)) (ht_buckets t) t"

section \<open>Hash values of the prefixes of a name\<close>

lemma hash_component_ok: "\<exists>h'. hash_component c h = Inr h'"
  using CityHash64_ok [of "comp_wire c"] by (auto simp: hash_component_def)

lemma hash_fold_ok: "\<exists>h'. fold_res hash_component cs h = Inr h'"
  using fold_res_total [where P = "\<lambda>_. True" and f = hash_component and s = h and xs = cs] hash_component_ok by blast

lemma computeHash_ok: "\<exists>h. computeHash n k = Inr h"
  unfolding computeHash_def by (rule hash_fold_ok)

lemma computeHash_take: "computeHash n k = computeHash (take k n) (length (take k n))"
  by (simp add: computeHash_def min_def)

lemma hashes_loop_spec:
  "\<exists>hs. hashes_loop cs h seq = Inr (seq @ hs) \<and> length hs = length cs \<and>
     (\<forall>i < length cs. fold_res hash_component (take (Suc i) cs) h = Inr (hs ! i))"
proof (induction cs arbitrary: h seq)
  case (Cons c cs)
  obtain h' where h': "hash_component c h = Inr h'" using hash_component_ok by blast
  obtain hs where hs: "hashes_loop cs h' (seq @ [h']) = Inr ((seq @ [h']) @ hs)" "length hs = length cs"
      "\<forall>i < length cs. fold_res hash_component (take (Suc i) cs) h' = Inr (hs ! i)"
    using Cons.IH by blast
  have "fold_res hash_component (take (Suc i) (c # cs)) h = Inr ((h' # hs) ! i)" if "i < Suc (length cs)" for i
    using hs(3) h' that by (cases i) auto
  then show ?case using h' hs(1,2) by (intro exI [of _ "h' # hs"]) simp
qed simp

lemma computeHashes_ok:
  obtains hs where "computeHashes n k = Inr hs" "length hs = Suc (min k (length n))"
    "\<And>i. i \<le> min k (length n) \<Longrightarrow> computeHash n i = Inr (hs ! i)"
proof -
  let ?cs = "take (min k (length n)) n"
  obtain hs where hs: "hashes_loop ?cs 0 [0] = Inr ([0] @ hs)" "length hs = length ?cs"
      "\<forall>i < length ?cs. fold_res hash_component (take (Suc i) ?cs) 0 = Inr (hs ! i)"
    using hashes_loop_spec by blast
  have "computeHash n i = Inr ((0 # hs) ! i)" if "i \<le> min k (length n)" for i
  proof (cases i)
    case (Suc j)
    then have "take (min i (length n)) n = take (Suc j) ?cs" using that by (simp add: min_def)
    then show ?thesis using hs(3) Suc that by (simp add: computeHash_def)
  qed (simp add: computeHash_def)
  then show ?thesis using that [of "0 # hs"] hs(1,2) by (simp add: computeHashes_def min_def)
qed

lemma hashes_at_computeHashes:
  assumes "computeHashes n k = Inr hs" "i \<le> k" "i \<le> length n"
  shows "hashes_at n i hs = computeHash n i"
  by (rule computeHashes_ok [of n k]) (use assms in \<open>auto simp: hashes_at_def\<close>)

section \<open>Rounding\<close>

lemma bit_length_0 [simp]: "bit_length 0 = 0"
  by (simp add: bit_length.simps)

lemma bit_length_bounds: "0 < n \<Longrightarrow> 2 ^ (bit_length n - 1) \<le> n \<and> n < 2 ^ bit_length n \<and> 0 < bit_length n"
proof (induction n rule: bit_length.induct)
  case (1 n)
  show ?case
  proof (cases "n div 2 = 0")
    case True
    then have "n = 1" using 1(2) by auto
    then show ?thesis by (simp add: bit_length.simps)
  next
    case False
    define k where "k = bit_length (n div 2)"
    have k: "2 ^ (k - 1) \<le> n div 2" "n div 2 < 2 ^ k" "0 < k" using 1 False by (auto simp: k_def)
    have "bit_length n = Suc k" using 1(2) by (simp add: bit_length.simps [of n] k_def)
    moreover have "2 ^ k \<le> n" using k(1,3) by (cases k) auto
    moreover have "n < 2 ^ Suc k" using k(2) by auto
    ultimately show ?thesis by simp
  qed
qed

lemma round24_ge: "2 ^ k \<le> n \<Longrightarrow> 2 ^ k \<le> round24 n"
proof -
  assume k: "2 ^ k \<le> n"
  then have n: "0 < n" using less_le_trans [of 0 "2 ^ k" n] by simp
  define s where "s = bit_length n - 24"
  have b: "2 ^ (bit_length n - 1) \<le> n" "n < 2 ^ bit_length n" "0 < bit_length n" using bit_length_bounds [OF n] by auto
  have "(2 :: nat) ^ k < 2 ^ bit_length n" using k b(2) by linarith
  then have kb: "k \<le> bit_length n - 1" using power_less_imp_less_exp [of "2 :: nat" k "bit_length n"] by simp
  have sb: "s \<le> bit_length n - 1" using b(3) by (simp add: s_def)
  have e: "(2 :: nat) ^ (bit_length n - 1) = 2 ^ (bit_length n - 1 - s) * 2 ^ s" using sb by (simp flip: power_add)
  then have "2 ^ (bit_length n - 1 - s) \<le> n div 2 ^ s" using div_le_mono [OF b(1), of "2 ^ s"] by simp
  then have "2 ^ (bit_length n - 1) \<le> n div 2 ^ s * 2 ^ s" unfolding e by (rule mult_le_mono1)
  moreover have "(2 :: nat) ^ k \<le> 2 ^ (bit_length n - 1)" using kb by simp
  moreover have "n div 2 ^ s * 2 ^ s \<le> round24 n" by (simp add: round24_def Let_def s_def)
  ultimately show ?thesis by linarith
qed

lemma float_times_pos:
  assumes "2 ^ snd f \<le> fst f" "0 < n"
  shows "0 < float_times f n"
proof -
  have "1 \<le> round24 n" using round24_ge [of 0 n] assms(2) by simp
  then have "2 ^ snd f * 1 \<le> fst f * round24 n" by (rule mult_le_mono [OF assms(1)])
  from round24_ge [of "snd f"] this have "2 ^ snd f \<le> round24 (fst f * round24 n)" by simp
  then show ?thesis by (simp add: float_times_def div_greater_zero_iff)
qed

section \<open>Linked lists\<close>

definition hd_opt :: "'a list \<Rightarrow> 'a option" where
  "hd_opt xs = (case xs of [] \<Rightarrow> None | x # _ \<Rightarrow> Some x)"

definition last_opt :: "'a list \<Rightarrow> 'a option" where
  "last_opt xs = (if xs = [] then None else Some (last xs))"

definition linked :: "(node_ref \<rightharpoonup> ('f, 'm, 's) ht_node) \<Rightarrow> node_ref list \<Rightarrow> bool" where
  "linked H ps \<longleftrightarrow> (\<forall>as p bs. ps = as @ p # bs \<longrightarrow>
     (\<exists>nd. H p = Some nd \<and> nd_prev nd = last_opt as \<and> nd_next nd = hd_opt bs))"

lemma opt_simps [simp]:
  "hd_opt [] = None" "hd_opt (x # xs) = Some x" "last_opt [] = None" "last_opt (xs @ [x]) = Some x" "last_opt [x] = Some x"
  "xs \<noteq> [] \<Longrightarrow> last_opt (x # xs) = last_opt xs" "xs \<noteq> [] \<Longrightarrow> hd_opt (xs @ ys) = hd_opt xs" "ys \<noteq> [] \<Longrightarrow> last_opt (xs @ ys) = last_opt ys"
  by (auto simp: hd_opt_def last_opt_def split: list.splits)

lemma opt_None: "hd_opt xs = None \<longleftrightarrow> xs = []" "last_opt xs = None \<longleftrightarrow> xs = []"
  by (auto simp: hd_opt_def last_opt_def split: list.splits)

lemma opt_Some: "hd_opt xs = Some x \<longleftrightarrow> (\<exists>ys. xs = x # ys)" "last_opt xs = Some x \<longleftrightarrow> (\<exists>ys. xs = ys @ [x])"
  by (auto simp: hd_opt_def last_opt_def split: list.splits) (metis append_butlast_last_id)

lemma linked_Nil [simp]: "linked H []"
  by (simp add: linked_def)

lemma linkedD: "linked H (as @ p # bs) \<Longrightarrow> \<exists>nd. H p = Some nd \<and> nd_prev nd = last_opt as \<and> nd_next nd = hd_opt bs"
  by (auto simp: linked_def)

lemma linked_cong: "linked H ps \<Longrightarrow> (\<And>p. p \<in> set ps \<Longrightarrow> H' p = H p) \<Longrightarrow> linked H' ps"
  by (auto simp: linked_def)

text \<open>A list with a new node in front.\<close>

lemma linked_attach:
  assumes "linked H ps" "distinct (p # ps)" "H' p = Some nd" "nd_prev nd = None" "nd_next nd = hd_opt ps"
    and "\<And>q. q \<in> set ps \<Longrightarrow> H' q = (if hd_opt ps = Some q then map_option (\<lambda>x. x\<lparr>nd_prev := Some p\<rparr>) (H q) else H q)"
  shows "linked H' (p # ps)"
  unfolding linked_def
proof (intro allI impI)
  fix as q bs assume eq: "p # ps = as @ q # bs"
  show "\<exists>nd. H' q = Some nd \<and> nd_prev nd = last_opt as \<and> nd_next nd = hd_opt bs"
  proof (cases as)
    case Nil
    then show ?thesis using eq assms(3-5) by auto
  next
    case (Cons a as')
    then have ps: "ps = as' @ q # bs" "a = p" using eq by auto
    obtain x where x: "H q = Some x" "nd_prev x = last_opt as'" "nd_next x = hd_opt bs" using linkedD [of H as' q bs] assms(1) ps by auto
    have "hd_opt ps = Some q \<longleftrightarrow> as' = []" using assms(2) ps by (cases as') auto
    then show ?thesis using assms(6) [of q] ps x Cons by (cases "as' = []") auto
  qed
qed

text \<open>A list with a node taken out.\<close>

lemma linked_detach:
  assumes "linked H (as @ p # bs)" "distinct (as @ p # bs)"
    and "\<And>q. q \<in> set as \<Longrightarrow> H' q = (if last_opt as = Some q then map_option (\<lambda>x. x\<lparr>nd_next := hd_opt bs\<rparr>) (H q) else H q)"
    and "\<And>q. q \<in> set bs \<Longrightarrow> H' q = (if hd_opt bs = Some q then map_option (\<lambda>x. x\<lparr>nd_prev := last_opt as\<rparr>) (H q) else H q)"
  shows "linked H' (as @ bs)"
  unfolding linked_def
proof (intro allI impI)
  fix cs q ds assume eq: "as @ bs = cs @ q # ds"
  then consider es where "as = cs @ q # es" "ds = es @ bs" | es where "bs = es @ q # ds" "cs = as @ es"
    by (auto simp: append_eq_append_conv2 Cons_eq_append_conv append_eq_Cons_conv)
  then show "\<exists>nd. H' q = Some nd \<and> nd_prev nd = last_opt cs \<and> nd_next nd = hd_opt ds"
  proof cases
    case 1
    obtain x where x: "H q = Some x" "nd_prev x = last_opt cs" "nd_next x = hd_opt (es @ p # bs)"
      using linkedD [of H cs q "es @ p # bs"] assms(1) 1 by auto
    have "last_opt as = Some q \<longleftrightarrow> es = []" using assms(2) 1 by (cases es rule: rev_cases) auto
    then show ?thesis using assms(3) [of q] 1 x by (cases "es = []") auto
  next
    case 2
    obtain x where x: "H q = Some x" "nd_prev x = last_opt (as @ p # es)" "nd_next x = hd_opt ds"
      using linkedD [of H "as @ p # es" q ds] assms(1) 2 by auto
    have "hd_opt bs = Some q \<longleftrightarrow> es = []" using assms(2) 2 by (cases es) auto
    then show ?thesis using assms(4) [of q] 2 x by (cases "es = []") auto
  qed
qed

section \<open>The lists of all buckets\<close>

definition node_info :: "(node_ref \<rightharpoonup> ('f, 'm, 's) ht_node) \<Rightarrow> node_ref \<rightharpoonup> 64 word \<times> name \<times> ('f, 'm, 's) nte" where
  "node_info H p = map_option (\<lambda>nd. (nd_hash nd, nd_name nd, nd_entry nd)) (H p)"

definition lists_ok :: "('f, 'm, 's) hashtable \<Rightarrow> node_ref list list \<Rightarrow> bool" where
  "lists_ok t L \<longleftrightarrow> length L = length (ht_buckets t) \<and> distinct (concat L) \<and>
     (\<forall>b < length L. ht_buckets t ! b = hd_opt (L ! b) \<and> linked (ht_heap t) (L ! b))"

text \<open>What the operations on links leave alone.\<close>

definition same_but_links :: "('f, 'm, 's) hashtable \<Rightarrow> ('f, 'm, 's) hashtable \<Rightarrow> bool" where
  "same_but_links t t' \<longleftrightarrow> node_info (ht_heap t') = node_info (ht_heap t) \<and> ht_fresh t' = ht_fresh t \<and> ht_options t' = ht_options t \<and>
     ht_size t' = ht_size t \<and> ht_expandThreshold t' = ht_expandThreshold t \<and> ht_shrinkThreshold t' = ht_shrinkThreshold t \<and>
     length (ht_buckets t') = length (ht_buckets t)"

lemma same_but_links_refl [simp]: "same_but_links t t"
  by (simp add: same_but_links_def)

lemma same_but_links_trans: "same_but_links t u \<Longrightarrow> same_but_links u v \<Longrightarrow> same_but_links t v"
  by (simp add: same_but_links_def)

lemma dom_node_info [simp]: "dom (node_info H) = dom H"
  by (auto simp: node_info_def dom_def)

lemma node_info_dom: "node_info H = node_info H' \<Longrightarrow> dom H = dom H'"
  using dom_node_info [of H] dom_node_info [of H'] by simp

lemma node_info_Some:
  "node_info H = node_info H' \<Longrightarrow> H p = Some nd \<Longrightarrow>
     \<exists>nd'. H' p = Some nd' \<and> nd_hash nd' = nd_hash nd \<and> nd_name nd' = nd_name nd \<and> nd_entry nd' = nd_entry nd"
  by (drule fun_cong [of _ _ p], cases "H' p") (auto simp: node_info_def)

lemma same_but_links_set:
  assumes "\<And>nd. nd_hash (f nd) = nd_hash nd \<and> nd_name (f nd) = nd_name nd \<and> nd_entry (f nd) = nd_entry nd"
  shows "same_but_links t (set_node p f t)"
  using assms by (auto simp: same_but_links_def set_node_def node_info_def fun_eq_iff option.map_comp comp_def)

lemma concat_split: "b < length L \<Longrightarrow> concat L = concat (take b L) @ L ! b @ concat (drop (Suc b) L)"
  by (metis concat.simps(2) concat_append id_take_nth_drop)

lemma concat_update: "b < length L \<Longrightarrow> concat (L[b := xs]) = concat (take b L) @ xs @ concat (drop (Suc b) L)"
  by (simp add: upd_conv_take_nth_drop)

lemma distinct_buckets:
  assumes "distinct (concat L)" "i < length L" "j < length L" "i \<noteq> j" "p \<in> set (L ! i)"
  shows "p \<notin> set (L ! j)"
proof -
  have "p \<in> set (concat (take j L)) \<or> p \<in> set (concat (drop (Suc j) L))"
  proof (cases "i < j")
    case True
    then have "L ! i \<in> set (take j L)" using assms(2,3) by (auto simp: in_set_conv_nth)
    then show ?thesis using assms(5) by auto
  next
    case False
    then have "L ! i = drop (Suc j) L ! (i - Suc j)" "i - Suc j < length (drop (Suc j) L)" using assms(2,4) by auto
    then have "L ! i \<in> set (drop (Suc j) L)" by (metis nth_mem)
    then show ?thesis using assms(5) by auto
  qed
  then show ?thesis using assms(1) concat_split [OF assms(3)] by auto
qed

lemma in_some_bucket: "p \<in> set (concat L) \<Longrightarrow> \<exists>c < length L. p \<in> set (L ! c)"
proof -
  assume "p \<in> set (concat L)"
  then obtain ps where "ps \<in> set L" "p \<in> set ps" by auto
  then show ?thesis by (metis in_set_conv_nth)
qed

lemma in_bucket: "b < length L \<Longrightarrow> p \<in> set (L ! b) \<Longrightarrow> p \<in> set (concat L)"
  using concat_split [of b L] by auto

text \<open>Replacing the list of one bucket while the others keep their nodes.\<close>

lemma lists_ok_update:
  assumes "lists_ok t L" "b < length L" "length (ht_buckets t') = length (ht_buckets t)"
    and "ht_buckets t' = (ht_buckets t)[b := hd_opt ps]" "linked (ht_heap t') ps"
    and "distinct ps" "\<And>q. q \<in> set ps \<Longrightarrow> q \<in> set (L ! b) \<or> q \<notin> set (concat L)"
    and "\<And>q. q \<in> set (concat L) \<Longrightarrow> q \<notin> set (L ! b) \<Longrightarrow> ht_heap t' q = ht_heap t q"
  shows "lists_ok t' (L[b := ps])"
proof -
  note I = assms(1) [unfolded lists_ok_def]
  have D: "distinct (concat (take b L) @ L ! b @ concat (drop (Suc b) L))" using I concat_split [OF assms(2)] by simp
  have "q \<notin> set (concat (take b L)) \<and> q \<notin> set (concat (drop (Suc b) L))" if "q \<in> set ps" for q
    using assms(7) [OF that] D unfolding concat_split [OF assms(2)] by (auto simp del: set_concat)
  then have "distinct (concat (L[b := ps]))"
    using D assms(6) unfolding concat_update [OF assms(2)] by (auto simp del: set_concat)
  moreover have "ht_buckets t' ! c = hd_opt (L[b := ps] ! c) \<and> linked (ht_heap t') (L[b := ps] ! c)" if "c < length L" for c
  proof (cases "c = b")
    case False
    have "linked (ht_heap t') (L ! c)"
    proof (rule linked_cong)
      show "linked (ht_heap t) (L ! c)" using I that by blast
      show "ht_heap t' q = ht_heap t q" if "q \<in> set (L ! c)" for q
        using assms(8) [of q] distinct_buckets [of L c b q] in_bucket [of c L q] I assms(2) that \<open>c < length L\<close> False by blast
    qed
    then show ?thesis using False I that assms(4) by simp
  qed (use that assms(2,4,5) I in simp)
  ultimately show ?thesis using I assms(3) by (simp add: lists_ok_def)
qed

lemma attach_ok:
  assumes "lists_ok t L" "b < length L" "ht_heap t p = Some nd" "p \<notin> set (concat L)"
  obtains t' where "attach b p t = Inr t'" "lists_ok t' (L[b := p # L ! b])" "same_but_links t t'"
    "\<And>q. q \<noteq> p \<Longrightarrow> q \<notin> set (concat L) \<Longrightarrow> ht_heap t' q = ht_heap t q"
proof -
  note I = assms(1) [unfolded lists_ok_def]
  let ?ps = "L ! b"
  define t1 where "t1 = set_node p (\<lambda>nd. nd\<lparr>nd_prev := None, nd_next := hd_opt ?ps\<rparr>) t"
  define t2 where "t2 = (case hd_opt ?ps of None \<Rightarrow> t1 | Some q \<Rightarrow> set_node q (\<lambda>nd. nd\<lparr>nd_prev := Some p\<rparr>) t1)"
  define t3 where "t3 = t2\<lparr>ht_buckets := (ht_buckets t2)[b := Some p]\<rparr>"
  have h: "bucket_head b t = Inr (hd_opt ?ps)" using I assms(2) by (simp add: bucket_head_def)
  have nin: "p \<notin> set ?ps" using in_bucket [OF assms(2)] assms(4) by blast
  have lnk: "linked (ht_heap t) ?ps" using I assms(2) by blast
  have head: "\<exists>nd. ht_heap t1 q = Some nd \<and> nd_prev nd = None" if hq: "hd_opt ?ps = Some q" for q
  proof -
    obtain qs where qs: "?ps = q # qs" using hq unfolding opt_Some by blast
    then obtain nd where "ht_heap t q = Some nd" "nd_prev nd = None"
      using linkedD [of "ht_heap t" "[]" q qs] lnk by auto
    then show ?thesis using nin qs by (auto simp: t1_def set_node_def)
  qed
  have a: "attach b p t = Inr t3"
    unfolding attach_def Let_def h deref_def assms(3) option.case bind_res_Inr t1_def [symmetric]
    using head by (cases "hd_opt ?ps") (auto simp: t2_def t3_def)
  have hd: "q \<in> set ?ps" if "hd_opt ?ps = Some q" for q using that unfolding opt_Some by force
  have H: "ht_heap t3 q = (if q = p then map_option (\<lambda>nd. nd\<lparr>nd_prev := None, nd_next := hd_opt ?ps\<rparr>) (ht_heap t p)
      else if hd_opt ?ps = Some q then map_option (\<lambda>x. x\<lparr>nd_prev := Some p\<rparr>) (ht_heap t q) else ht_heap t q)" for q
    using nin hd by (cases "hd_opt ?ps") (auto simp: t3_def t2_def t1_def set_node_def)
  have B: "ht_buckets t3 = (ht_buckets t)[b := Some p]" by (simp add: t3_def t2_def t1_def set_node_def split: option.splits)
  have d: "distinct (p # ?ps)" using nin I concat_split [OF assms(2)] by auto
  have lnk3: "linked (ht_heap t3) (p # ?ps)"
    by (rule linked_attach [OF lnk d, where nd = "nd\<lparr>nd_prev := None, nd_next := hd_opt ?ps\<rparr>"]) (use nin assms(3) in \<open>auto simp: H\<close>)
  have "ht_heap t3 q = ht_heap t q" if "q \<in> set (concat L)" "q \<notin> set ?ps" for q
    using that hd [of q] assms(4) by (auto simp: H simp del: set_concat)
  then have "lists_ok t3 (L[b := p # ?ps])"
    using d assms(4) by (intro lists_ok_update [OF assms(1,2)]) (auto simp: B lnk3 simp del: set_concat)
  moreover have "same_but_links t t3"
  proof -
    have "same_but_links t1 t2" unfolding t2_def by (cases "hd_opt ?ps") (simp_all add: same_but_links_set)
    moreover have "same_but_links t t1" unfolding t1_def by (rule same_but_links_set) simp
    moreover have "same_but_links t2 t3" by (simp add: t3_def same_but_links_def)
    ultimately show ?thesis using same_but_links_trans by blast
  qed
  moreover have "ht_heap t3 q = ht_heap t q" if "q \<noteq> p" "q \<notin> set (concat L)" for q
    using that hd [of q] in_bucket [OF assms(2), of q] by (cases "hd_opt ?ps = Some q") (simp_all add: H)
  ultimately show ?thesis using that a by blast
qed

lemma detach_ok:
  assumes "lists_ok t L" "b < length L" "L ! b = as @ p # bs"
  obtains t' nd where "detach b p t = Inr t'" "lists_ok t' (L[b := as @ bs])" "same_but_links t t'"
    "ht_heap t' p = Some nd" "nd_prev nd = None" "nd_next nd = None"
proof -
  note I = assms(1) [unfolded lists_ok_def]
  have lnk: "linked (ht_heap t) (as @ p # bs)" using I assms(2,3) by metis
  have d: "distinct (as @ p # bs)" using I concat_split [OF assms(2)] assms(3) by auto
  obtain nd where nd: "ht_heap t p = Some nd" "nd_prev nd = last_opt as" "nd_next nd = hd_opt bs" using linkedD [OF lnk] by blast
  have l: "q \<in> set as \<and> (\<exists>x. ht_heap t q = Some x \<and> nd_next x = Some p)" if lq: "last_opt as = Some q" for q
  proof -
    obtain as' where "as = as' @ [q]" using lq unfolding opt_Some by blast
    then show ?thesis using linkedD [of "ht_heap t" as' q "p # bs"] lnk by auto
  qed
  have r: "q \<in> set bs \<and> (\<exists>x. ht_heap t q = Some x \<and> nd_prev x = Some p)" if hq: "hd_opt bs = Some q" for q
  proof -
    obtain bs' where "bs = q # bs'" using hq unfolding opt_Some by blast
    then show ?thesis using linkedD [of "ht_heap t" "as @ [p]" q bs'] lnk by auto
  qed
  define t1 where "t1 = (case last_opt as of Some q \<Rightarrow> set_node q (\<lambda>x. x\<lparr>nd_next := hd_opt bs\<rparr>) t
     | None \<Rightarrow> t\<lparr>ht_buckets := (ht_buckets t)[b := hd_opt bs]\<rparr>)"
  define t2 where "t2 = (case hd_opt bs of None \<Rightarrow> t1 | Some q \<Rightarrow> set_node q (\<lambda>x. x\<lparr>nd_prev := last_opt as\<rparr>) t1)"
  define t3 where "t3 = set_node p (\<lambda>x. x\<lparr>nd_prev := None, nd_next := None\<rparr>) t2"
  have H1: "ht_heap t1 q = (if last_opt as = Some q then map_option (\<lambda>x. x\<lparr>nd_next := hd_opt bs\<rparr>) (ht_heap t q) else ht_heap t q)" for q
    by (cases "last_opt as") (auto simp: t1_def set_node_def)
  have H2: "ht_heap t2 q = (if hd_opt bs = Some q then map_option (\<lambda>x. x\<lparr>nd_prev := last_opt as\<rparr>) (ht_heap t1 q) else ht_heap t1 q)" for q
    by (cases "hd_opt bs") (auto simp: t2_def set_node_def)
  have H3: "ht_heap t3 q = (if q = p then map_option (\<lambda>x. x\<lparr>nd_prev := None, nd_next := None\<rparr>) (ht_heap t2 q) else ht_heap t2 q)" for q
    by (auto simp: t3_def set_node_def)
  have head: "bucket_head b t = Inr (hd_opt (as @ p # bs))" using I assms(2,3) by (simp add: bucket_head_def)
  have s1: "(case last_opt as of Some q \<Rightarrow> bind_res (deref q t) (\<lambda>x. assert_res (nd_next x = Some p) (Inr (set_node q (\<lambda>x. x\<lparr>nd_next := hd_opt bs\<rparr>) t)))
       | None \<Rightarrow> bind_res (bucket_head b t) (\<lambda>head. assert_res (head = Some p) (Inr (t\<lparr>ht_buckets := (ht_buckets t)[b := hd_opt bs]\<rparr>)))) = Inr t1"
    using l head by (cases "last_opt as") (auto simp: t1_def deref_def opt_None)
  have s2: "(case hd_opt bs of None \<Rightarrow> Inr t1
       | Some q \<Rightarrow> bind_res (deref q t1) (\<lambda>x. assert_res (nd_prev x = Some p) (Inr (set_node q (\<lambda>x. x\<lparr>nd_prev := last_opt as\<rparr>) t1)))) = Inr t2"
  proof (cases "hd_opt bs")
    case (Some q)
    then show ?thesis using r [OF Some] l [of q] d by (auto simp: t2_def deref_def H1)
  qed (simp add: t2_def)
  have "detach b p t = Inr t3"
    unfolding detach_def deref_def [of p] nd(1) option.case bind_res_Inr nd(2,3) s1 s2 t3_def ..
  moreover have B: "ht_buckets t3 = (ht_buckets t)[b := hd_opt (as @ bs)]"
  proof (cases "as = []")
    case True
    then show ?thesis by (cases "hd_opt bs") (simp_all add: t3_def t2_def t1_def set_node_def)
  next
    case False
    then have "ht_buckets t ! b = hd_opt (as @ bs)" using I assms(2,3) by simp
    moreover from False obtain q where "last_opt as = Some q" using opt_None(2) [of as] by (cases "last_opt as") auto
    then have "ht_buckets t3 = ht_buckets t" by (cases "hd_opt bs") (simp_all add: t3_def t2_def t1_def set_node_def)
    ultimately show ?thesis by (metis list_update_id)
  qed
  moreover have "lists_ok t3 (L[b := as @ bs])"
  proof (rule lists_ok_update [OF assms(1,2)])
    show "linked (ht_heap t3) (as @ bs)"
      by (rule linked_detach [OF lnk d]) (use d l r in \<open>auto simp: H3 H2 H1\<close>)
    show "ht_heap t3 q = ht_heap t q" if "q \<in> set (concat L)" "q \<notin> set (L ! b)" for q
      using that l [of q] r [of q] assms(3) by (auto simp: H3 H2 H1)
  qed (use d assms(3) B in auto)
  moreover have "same_but_links t t3"
  proof -
    have "same_but_links t t1" unfolding t1_def by (cases "last_opt as") (simp_all add: same_but_links_set, simp add: same_but_links_def)
    moreover have "same_but_links t1 t2" unfolding t2_def by (cases "hd_opt bs") (simp_all add: same_but_links_set)
    moreover have "same_but_links t2 t3" unfolding t3_def by (rule same_but_links_set) simp
    ultimately show ?thesis using same_but_links_trans by blast
  qed
  moreover have "ht_heap t3 p = Some (nd\<lparr>nd_prev := None, nd_next := None\<rparr>)" using nd(1) d l r by (auto simp: H3 H2 H1)
  ultimately show ?thesis using that by fastforce
qed

section \<open>Rehashing\<close>

fun next_chain :: "(node_ref \<rightharpoonup> ('f, 'm, 's) ht_node) \<Rightarrow> node_ref list \<Rightarrow> bool" where
  "next_chain H [] = True"
| "next_chain H (p # ps) = ((\<exists>nd. H p = Some nd \<and> nd_next nd = hd_opt ps) \<and> next_chain H ps)"

lemma linked_next_chain: "linked H (as @ bs) \<Longrightarrow> next_chain H bs"
proof (induction bs arbitrary: as)
  case (Cons p bs)
  then show ?case using Cons.IH [of "as @ [p]"] linkedD [of H as p bs] by auto
qed simp

lemma next_chain_cong: "next_chain H ps \<Longrightarrow> (\<And>p. p \<in> set ps \<Longrightarrow> H' p = H p) \<Longrightarrow> next_chain H' ps"
  by (induction ps) auto

definition bucketed :: "('f, 'm, 's) hashtable \<Rightarrow> node_ref list list \<Rightarrow> bool" where
  "bucketed t L \<longleftrightarrow> (\<forall>b < length L. \<forall>p \<in> set (L ! b). \<exists>nd. ht_heap t p = Some nd \<and> unat (nd_hash nd) mod length L = b)"

text \<open>The state of a rehash in progress: \<open>L\<close> holds the nodes already moved.\<close>

definition rehashed :: "('f, 'm, 's) hashtable \<Rightarrow> node_ref list list \<Rightarrow> node_ref list \<Rightarrow> ('f, 'm, 's) hashtable \<Rightarrow> node_ref list list \<Rightarrow> bool" where
  "rehashed t L ps t' L' \<longleftrightarrow> lists_ok t' L' \<and> bucketed t' L' \<and> length L' = length L \<and> same_but_links t t' \<and>
     set (concat L') = set ps \<union> set (concat L) \<and> length (concat L') = length ps + length (concat L) \<and>
     (\<forall>q. q \<notin> set ps \<longrightarrow> q \<notin> set (concat L) \<longrightarrow> ht_heap t' q = ht_heap t q)"

lemma bucketed_attach:
  assumes "bucketed t L" "same_but_links t t'" "ht_heap t p = Some nd" "b = unat (nd_hash nd) mod length L" "b < length L"
  shows "bucketed t' (L[b := p # L ! b])"
proof -
  have keep: "\<exists>nd'. ht_heap t' q = Some nd' \<and> nd_hash nd' = nd_hash x" if "ht_heap t q = Some x" for q x
    using node_info_Some [of "ht_heap t" "ht_heap t'" q x] assms(2) that by (auto simp: same_but_links_def)
  show ?thesis
    unfolding bucketed_def length_list_update
  proof (intro allI impI ballI)
    fix c q assume c: "c < length L" "q \<in> set (L[b := p # L ! b] ! c)"
    then consider "q = p" "c = b" | "q \<in> set (L ! c)" by (cases "c = b") auto
    then show "\<exists>nd. ht_heap t' q = Some nd \<and> unat (nd_hash nd) mod length L = c"
    proof cases
      case 1
      then show ?thesis using keep [OF assms(3)] assms(4) by auto
    next
      case 2
      then show ?thesis using assms(1) c(1) keep unfolding bucketed_def by metis
    qed
  qed
qed

lemma reattach_ok:
  assumes "lists_ok t L" "bucketed t L" "0 < length L" "next_chain (ht_heap t) ps" "distinct ps"
    and "set ps \<inter> set (concat L) = {}" "length ps \<le> fuel"
  shows "\<exists>t' L'. reattach fuel (hd_opt ps) t = Inr t' \<and> rehashed t L ps t' L'"
  using assms
proof (induction ps arbitrary: t L fuel)
  case Nil
  then show ?case by (intro exI [of _ t] exI [of _ L]) (simp add: rehashed_def)
next
  case (Cons p ps)
  obtain nd where nd: "ht_heap t p = Some nd" "nd_next nd = hd_opt ps" using Cons.prems(4) by auto
  obtain k where fuel: "fuel = Suc k" using Cons.prems(7) by (cases fuel) auto
  let ?b = "unat (nd_hash nd) mod length L"
  have b: "?b < length L" using Cons.prems(3) by simp
  have p: "p \<notin> set (concat L)" using Cons.prems(6) by (simp del: set_concat)
  obtain t1 where t1: "attach ?b p t = Inr t1" "lists_ok t1 (L[?b := p # L ! ?b])" "same_but_links t t1"
      "\<And>q. q \<noteq> p \<Longrightarrow> q \<notin> set (concat L) \<Longrightarrow> ht_heap t1 q = ht_heap t q"
    using attach_ok [OF Cons.prems(1) b nd(1) p] by blast
  let ?L1 = "L[?b := p # L ! ?b]"
  have set1: "set (concat ?L1) = insert p (set (concat L))" "length (concat ?L1) = Suc (length (concat L))"
    using concat_split [OF b] by (auto simp: concat_update [OF b] simp del: set_concat)
  have "\<exists>t' L'. reattach k (hd_opt ps) t1 = Inr t' \<and> rehashed t1 ?L1 ps t' L'"
  proof (rule Cons.IH [OF t1(2)])
    show "bucketed t1 ?L1" by (rule bucketed_attach [OF Cons.prems(2) t1(3) nd(1) refl b])
    show "next_chain (ht_heap t1) ps"
    proof (rule next_chain_cong)
      show "ht_heap t1 q = ht_heap t q" if "q \<in> set ps" for q
      proof -
        have "q \<noteq> p" "q \<notin> set (concat L)" using Cons.prems(5,6) that by (auto simp del: set_concat)
        then show ?thesis by (rule t1(4))
      qed
    qed (use Cons.prems(4) in simp)
  qed (use Cons.prems set1 fuel in \<open>auto simp del: set_concat\<close>)
  then obtain t2 L2 where t2: "reattach k (hd_opt ps) t1 = Inr t2" "rehashed t1 ?L1 ps t2 L2" by blast
  have "length L = length (ht_buckets t)" "ht_buckets t \<noteq> []" using Cons.prems(1,3) by (auto simp: lists_ok_def)
  then have "reattach fuel (hd_opt (p # ps)) t = Inr t2"
    using nd t1(1) t2(1) by (simp add: fuel deref_def computeBucketIndex_def)
  moreover have "rehashed t L (p # ps) t2 L2"
    using t2(2) set1 same_but_links_trans [OF t1(3)] t1(4) unfolding rehashed_def by (auto simp del: set_concat)
  ultimately show ?case by blast
qed

lemma reattach_all:
  assumes "lists_ok t L" "bucketed t L" "0 < length L" "\<And>ps. ps \<in> set Ls \<Longrightarrow> next_chain (ht_heap t) ps \<and> length ps \<le> fuel"
    and "distinct (concat Ls)" "set (concat Ls) \<inter> set (concat L) = {}"
  shows "\<exists>t' L'. fold_res (reattach fuel) (map hd_opt Ls) t = Inr t' \<and> rehashed t L (concat Ls) t' L'"
  using assms
proof (induction Ls arbitrary: t L)
  case Nil
  then show ?case by (intro exI [of _ t] exI [of _ L]) (simp add: rehashed_def)
next
  case (Cons ps Ls)
  have d: "distinct ps" "distinct (concat Ls)" "set ps \<inter> set (concat Ls) = {}" "set ps \<inter> set (concat L) = {}" "set (concat Ls) \<inter> set (concat L) = {}"
    using Cons.prems(5,6) by (auto simp del: set_concat)
  obtain t1 L1 where t1: "reattach fuel (hd_opt ps) t = Inr t1" "rehashed t L ps t1 L1"
    using reattach_ok [OF Cons.prems(1-3) _ d(1,4), of fuel] Cons.prems(4) [of ps] by auto
  note R = t1(2) [unfolded rehashed_def]
  have nc: "next_chain (ht_heap t1) qs \<and> length qs \<le> fuel" if "qs \<in> set Ls" for qs
  proof -
    have "ht_heap t1 q = ht_heap t q" if "q \<in> set qs" for q
    proof -
      have "q \<in> set (concat Ls)" using that \<open>qs \<in> set Ls\<close> by auto
      then have "q \<notin> set ps" "q \<notin> set (concat L)" using d(3,5) by blast+
      then show ?thesis using R by blast
    qed
    then show ?thesis using next_chain_cong Cons.prems(4) [of qs] that by auto
  qed
  have "set (concat Ls) \<inter> set (concat L1) = {}" using R d(3,5) by blast
  then obtain t2 L2 where t2: "fold_res (reattach fuel) (map hd_opt Ls) t1 = Inr t2" "rehashed t1 L1 (concat Ls) t2 L2"
    using Cons.IH [of t1 L1] R nc d(2) Cons.prems(3) by auto
  have "rehashed t L (concat (ps # Ls)) t2 L2"
    using R t2(2) same_but_links_trans [of t t1 t2] unfolding rehashed_def by (auto simp del: set_concat)
  then show ?case using t1(1) t2(1) by auto
qed

text \<open>The hashtable as a whole, with the lists of its buckets.\<close>

definition ht_rel :: "('f, 'm, 's) hashtable \<Rightarrow> node_ref list list \<Rightarrow> bool" where
  "ht_rel t L \<longleftrightarrow> lists_ok t L \<and> bucketed t L \<and> 0 < length L \<and> set (concat L) = dom (ht_heap t) \<and> ht_size t = length (concat L) \<and>
     options_ok (ht_options t) \<and> computeThresholds t = t \<and>
     (\<forall>p nd. ht_heap t p = Some nd \<longrightarrow> p < ht_fresh t \<and> computeHash (nd_name nd) (length (nd_name nd)) = Inr (nd_hash nd)) \<and>
     (\<forall>p q nd nd'. ht_heap t p = Some nd \<and> ht_heap t q = Some nd' \<and> nd_name nd = nd_name nd' \<longrightarrow> p = q)"

definition represents :: "('f, 'm, 's) hashtable \<Rightarrow> (name \<rightharpoonup> ('f, 'm, 's) nte) \<Rightarrow> bool" where
  "represents t m \<longleftrightarrow> (\<exists>L. ht_rel t L) \<and>
     (\<forall>n e. m n = Some e \<longleftrightarrow> (\<exists>p nd. ht_heap t p = Some nd \<and> nd_name nd = n \<and> nd_entry nd = e))"

lemma short_bucket:
  assumes "ht_rel t L" "ps \<in> set L"
  shows "length ps \<le> ht_fresh t"
proof -
  have "set ps \<subseteq> set (concat L)" using assms(2) by auto
  also have "\<dots> \<subseteq> {..<ht_fresh t}" using assms(1) by (auto simp: ht_rel_def simp del: set_concat)
  finally have "card (set ps) \<le> card {..<ht_fresh t}" by (rule card_mono [rotated]) simp
  moreover have "distinct ps" using assms by (auto simp: ht_rel_def lists_ok_def distinct_concat_iff)
  ultimately show ?thesis by (simp add: distinct_card)
qed

lemma resize_ok:
  assumes "lists_ok t L" "bucketed t L" "0 < length L" "0 < k" "\<And>ps. ps \<in> set L \<Longrightarrow> length ps \<le> ht_fresh t"
  obtains t' L' where "resize k t = Inr t'" "lists_ok t' L'" "bucketed t' L'" "0 < length L'" "set (concat L') = set (concat L)"
    "length (concat L') = length (concat L)" "node_info (ht_heap t') = node_info (ht_heap t)" "ht_fresh t' = ht_fresh t"
    "ht_options t' = ht_options t" "ht_size t' = ht_size t" "computeThresholds t = t \<longrightarrow> computeThresholds t' = t'"
proof (cases "length (ht_buckets t) = k")
  case True
  then show ?thesis using that [of t L] assms by (simp add: resize_def)
next
  case False
  let ?t = "t\<lparr>ht_buckets := replicate k None\<rparr>" and ?L = "replicate k ([] :: node_ref list)"
  have bs: "ht_buckets t = map hd_opt L" using assms(1) by (intro nth_equalityI) (auto simp: lists_ok_def)
  have e: "concat ?L = []" by simp
  have nc: "next_chain (ht_heap ?t) ps \<and> length ps \<le> ht_fresh t" if ps: "ps \<in> set L" for ps
  proof -
    have "linked (ht_heap t) ps" using ps assms(1) by (auto simp: lists_ok_def in_set_conv_nth)
    then show ?thesis using linked_next_chain [of "ht_heap t" "[]" ps] assms(5) [OF ps] by simp
  qed
  have "lists_ok ?t ?L" "bucketed ?t ?L" by (simp_all add: lists_ok_def bucketed_def)
  moreover have "distinct (concat L)" using assms(1) by (simp add: lists_ok_def)
  ultimately obtain t1 L1 where t1: "fold_res (reattach (ht_fresh t)) (map hd_opt L) ?t = Inr t1" "rehashed ?t ?L (concat L) t1 L1"
    using reattach_all [of ?t ?L L "ht_fresh t"] nc assms(4) unfolding e by auto
  define t2 where "t2 = computeThresholds t1"
  have f: "ht_buckets t2 = ht_buckets t1" "ht_heap t2 = ht_heap t1" "ht_fresh t2 = ht_fresh t1" "ht_size t2 = ht_size t1"
      "ht_options t2 = ht_options t1" "computeThresholds t2 = t2"
    by (simp_all add: t2_def computeThresholds_def)
  have r: "resize k t = Inr t2" using t1(1) False by (simp add: resize_def bs t2_def)
  note R = t1(2) [unfolded rehashed_def e same_but_links_def]
  have "lists_ok t2 L1" "bucketed t2 L1" using R unfolding lists_ok_def bucketed_def f by blast+
  moreover have "length L1 = k" using R by simp
  ultimately show ?thesis using that [OF r, of L1] R f assms(4) by (simp del: set_concat length_concat)
qed

lemma ht_relD:
  assumes "ht_rel t L"
  shows "lists_ok t L" "bucketed t L" "0 < length L" "set (concat L) = dom (ht_heap t)" "ht_size t = length (concat L)"
    "options_ok (ht_options t)" "computeThresholds t = t" "ht_heap t p = Some nd \<Longrightarrow> p < ht_fresh t"
    "ht_heap t p = Some nd \<Longrightarrow> computeHash (nd_name nd) (length (nd_name nd)) = Inr (nd_hash nd)"
    "ht_heap t p = Some nd \<Longrightarrow> ht_heap t q = Some nd' \<Longrightarrow> nd_name nd = nd_name nd' \<Longrightarrow> p = q"
  using assms unfolding ht_rel_def by blast+

lemma ht_rel_info:
  assumes "ht_rel t L" "lists_ok t' L'" "bucketed t' L'" "0 < length L'" "set (concat L') = set (concat L)"
    and "length (concat L') = length (concat L)" "node_info (ht_heap t') = node_info (ht_heap t)" "ht_fresh t' = ht_fresh t"
    and "ht_options t' = ht_options t" "ht_size t' = ht_size t" "computeThresholds t' = t'"
  shows "ht_rel t' L'"
proof -
  note R = ht_relD [OF assms(1)]
  have old: "\<exists>nd. ht_heap t p = Some nd \<and> nd_hash nd = nd_hash nd' \<and> nd_name nd = nd_name nd'" if "ht_heap t' p = Some nd'" for p nd'
    using node_info_Some [OF assms(7) that] by blast
  have "p < ht_fresh t' \<and> computeHash (nd_name nd) (length (nd_name nd)) = Inr (nd_hash nd)" if "ht_heap t' p = Some nd" for p nd
    using old [OF that] R(8,9) assms(8) by metis
  moreover have "p = q" if "ht_heap t' p = Some nd" "ht_heap t' q = Some nd'" "nd_name nd = nd_name nd'" for p q nd nd'
    using old [OF that(1)] old [OF that(2)] R(10) that(3) by metis
  moreover have "set (concat L') = dom (ht_heap t')" using R(4) assms(5) node_info_dom [OF assms(7)] by simp
  moreover have "ht_size t' = length (concat L')" using R(5) assms(6,10) by simp
  ultimately show ?thesis
    using R(6) assms(2-4,9,11) unfolding ht_rel_def by (metis (no_types, lifting))
qed

lemma resize_rel:
  assumes "ht_rel t L" "0 < k"
  obtains t' L' where "resize k t = Inr t'" "ht_rel t' L'" "node_info (ht_heap t') = node_info (ht_heap t)" "ht_fresh t' = ht_fresh t"
proof -
  note R = ht_relD [OF assms(1)]
  obtain t' L' where t': "resize k t = Inr t'" "lists_ok t' L'" "bucketed t' L'" "0 < length L'" "set (concat L') = set (concat L)"
    "length (concat L') = length (concat L)" "node_info (ht_heap t') = node_info (ht_heap t)" "ht_fresh t' = ht_fresh t"
    "ht_options t' = ht_options t" "ht_size t' = ht_size t" "computeThresholds t = t \<longrightarrow> computeThresholds t' = t'"
    by (rule resize_ok [OF R(1-3) assms(2) short_bucket [OF assms(1)]])
  from t'(11) R(7) have "computeThresholds t' = t'" by blast
  from ht_rel_info [OF assms(1) t'(2-10) this] that t'(1,7,8) show ?thesis by blast
qed

end
