(* ===== verification/Hashtable_Refinement.thy ===== *)
theory Hashtable_Refinement
  imports Name_Tree_Hashtable
begin

text \<open>
  The operations of the hashtable refine the map from names to entries: insertion, search, removal
  and destruction, with the rehashing they trigger, never follow a dangling pointer and never fail
  an assertion on a hashtable that the operations built.
\<close>

section \<open>Searching\<close>

lemma name_compare_prefix: "name_compare_range n 0 k m 0 (length m) = 0 \<longleftrightarrow> take k n = m"
  by (simp add: name_compare_range_def compare_loop_eq_0 min_def)

lemma find_node_chain:
  assumes "next_chain (ht_heap t) ps" "length ps \<le> fuel"
  shows "find_node fuel n k h (hd_opt ps) t =
    Inr (find (\<lambda>p. \<exists>nd. ht_heap t p = Some nd \<and> nd_hash nd = h \<and> nd_name nd = take k n) ps)"
  using assms
proof (induction ps arbitrary: fuel)
  case (Cons p ps)
  then obtain nd where nd: "ht_heap t p = Some nd" "nd_next nd = hd_opt ps" by auto
  obtain j where j: "fuel = Suc j" using Cons.prems(2) by (cases fuel) auto
  let ?P = "\<lambda>p. \<exists>nd. ht_heap t p = Some nd \<and> nd_hash nd = h \<and> nd_name nd = take k n"
  have P: "?P p \<longleftrightarrow> nd_hash nd = h \<and> take k n = nd_name nd" unfolding nd(1) by auto
  have IH: "find_node j n k h (hd_opt ps) t = Inr (find ?P ps)" using Cons by (simp add: j)
  have "find_node (Suc j) n k h (Some p) t =
      (if nd_hash nd = h \<and> take k n = nd_name nd then Inr (Some p) else find_node j n k h (hd_opt ps) t)"
    by (simp only: find_node.simps deref_def nd option.case bind_res_Inr name_compare_prefix)
  then show ?case unfolding j opt_simps IH P [symmetric] by (simp only: find.simps if_distrib [of Inr])
qed simp

lemma found_holds: "find P xs = Some x \<Longrightarrow> P x"
  by (auto simp: find_Some_iff)

lemma in_own_bucket:
  assumes "ht_rel t L" "ht_heap t p = Some nd"
  shows "p \<in> set (L ! (unat (nd_hash nd) mod length L))"
proof -
  note R = ht_relD [OF assms(1)]
  have "p \<in> set (concat L)" unfolding R(4) using assms(2) by (rule domI)
  then have "\<exists>c < length L. p \<in> set (L ! c)" by (rule in_some_bucket)
  then obtain c where c: "c < length L" "p \<in> set (L ! c)" by (elim exE conjE)
  then obtain x where "ht_heap t p = Some x" "unat (nd_hash x) mod length L = c" using R(2) unfolding bucketed_def by blast
  then show ?thesis using assms(2) c(2) by simp
qed

lemma find_node_spec:
  assumes "ht_rel t L" "computeHash n k = Inr h"
  obtains r where "find_node (ht_fresh t) n k h (ht_buckets t ! (unat h mod length (ht_buckets t))) t = Inr r"
    "\<forall>p. r = Some p \<longleftrightarrow> (\<exists>nd. ht_heap t p = Some nd \<and> nd_name nd = take k n)"
proof -
  note R = ht_relD [OF assms(1)]
  let ?b = "unat h mod length L" and ?P = "\<lambda>p. \<exists>nd. ht_heap t p = Some nd \<and> nd_hash nd = h \<and> nd_name nd = take k n"
  have b: "?b < length L" and len: "length (ht_buckets t) = length L" using R(1,3) by (simp_all add: lists_ok_def)
  have mem: "L ! ?b \<in> set L" using b by simp
  have l: "linked (ht_heap t) (L ! ?b)" and hd: "ht_buckets t ! ?b = hd_opt (L ! ?b)"
    using R(1) b unfolding lists_ok_def by (blast, blast)
  have nc: "next_chain (ht_heap t) (L ! ?b)" using linked_next_chain [of "ht_heap t" "[]" "L ! ?b"] l by simp
  have f: "find_node (ht_fresh t) n k h (ht_buckets t ! ?b) t = Inr (find ?P (L ! ?b))"
    unfolding hd by (rule find_node_chain [OF nc short_bucket [OF assms(1) mem]])
  have here: "p \<in> set (L ! ?b) \<and> ?P p" if nd: "ht_heap t p = Some nd" "nd_name nd = take k n" for p nd
  proof -
    have "Inr (nd_hash nd) = computeHash n k" unfolding computeHash_take [of n k] R(9) [OF nd(1), symmetric] nd(2) ..
    then have "nd_hash nd = h" unfolding assms(2) by (rule Inr_inject)
    then show ?thesis using in_own_bucket [OF assms(1) nd(1)] nd by simp
  qed
  have P: "?P q" if "find ?P (L ! ?b) = Some q" for q
    using found_holds [OF that] .
  have g: "find ?P (L ! ?b) = Some p \<longleftrightarrow> (\<exists>nd. ht_heap t p = Some nd \<and> nd_name nd = take k n)" for p
  proof
    assume "find ?P (L ! ?b) = Some p"
    from P [OF this] show "\<exists>nd. ht_heap t p = Some nd \<and> nd_name nd = take k n" by (elim exE conjE) (intro exI conjI)
  next
    assume "\<exists>nd. ht_heap t p = Some nd \<and> nd_name nd = take k n"
    then obtain nd where nd: "ht_heap t p = Some nd" "nd_name nd = take k n" by (elim exE conjE)
    have "find ?P (L ! ?b) \<noteq> None" unfolding find_None_iff not_not using here [OF nd] by (intro exI [of _ p])
    then obtain q where q: "find ?P (L ! ?b) = Some q" by (cases "find ?P (L ! ?b)") simp_all
    from P [OF q] obtain nd' where "ht_heap t q = Some nd'" "nd_name nd' = take k n" by (elim exE conjE)
    then have "q = p" using R(10) [of q nd' p nd] nd by simp
    then show "find ?P (L ! ?b) = Some p" using q by (simp only:)
  qed
  have "find_node (ht_fresh t) n k h (ht_buckets t ! (unat h mod length (ht_buckets t))) t = Inr (find ?P (L ! ?b))"
    unfolding len by (rule f)
  moreover have "\<forall>p. find ?P (L ! ?b) = Some p \<longleftrightarrow> (\<exists>nd. ht_heap t p = Some nd \<and> nd_name nd = take k n)"
    by (rule allI) (rule g)
  ultimately show ?thesis by (rule that)
qed

lemma bucket_ok:
  assumes "ht_rel t L"
  shows "computeBucketIndex h t = Inr (unat h mod length (ht_buckets t))"
    "bucket_head (unat h mod length (ht_buckets t)) t = Inr (ht_buckets t ! (unat h mod length (ht_buckets t)))"
    "unat h mod length (ht_buckets t) < length L" "length (ht_buckets t) = length L"
proof -
  have "length (ht_buckets t) = length L" "0 < length L" using ht_relD(1,3) [OF assms] by (auto simp: lists_ok_def)
  then show "computeBucketIndex h t = Inr (unat h mod length (ht_buckets t))"
    "bucket_head (unat h mod length (ht_buckets t)) t = Inr (ht_buckets t ! (unat h mod length (ht_buckets t)))"
    "unat h mod length (ht_buckets t) < length L" "length (ht_buckets t) = length L"
    by (auto simp: computeBucketIndex_def bucket_head_def)
qed

text \<open>The branches of \<open>findOrInsert\<close>.\<close>

definition ht_grow :: "('f, 'm, 's) hashtable \<Rightarrow> ('f, 'm, 's) hashtable res" where
  "ht_grow t = (if ht_expandThreshold t < ht_size t
     then resize (float_times (ho_expandFactor (ht_options t)) (length (ht_buckets t))) t else Inr t)"

lemma findOrInsert_found:
  assumes "computeBucketIndex h t = Inr b" "bucket_head b t = Inr head" "find_node (ht_fresh t) n k h head t = Inr (Some p)"
  shows "ht_findOrInsert n k h ai t = Inr (t, Some p, False)"
  unfolding ht_findOrInsert_def assms(1) bind_res_Inr assms(2) assms(3) by (rule option.case(2))

lemma findOrInsert_missing:
  assumes "computeBucketIndex h t = Inr b" "bucket_head b t = Inr head" "find_node (ht_fresh t) n k h head t = Inr None"
    and "attach b (ht_fresh t) (t\<lparr>ht_heap := (ht_heap t)(ht_fresh t \<mapsto> new_node h (getPrefix n (int k))), ht_fresh := Suc (ht_fresh t)\<rparr>) = Inr t'"
    and "ht_grow (t'\<lparr>ht_size := ht_size t' + 1\<rparr>) = Inr t''"
  shows "ht_findOrInsert n k h True t = Inr (t'', Some (ht_fresh t), True)"
  unfolding ht_findOrInsert_def assms(1) bind_res_Inr assms(2) assms(3) option.case(1) Let_def not_True_eq_False if_False assms(4)
    ht_grow_def [symmetric] assms(5) ..

text \<open>A search without insertion, and one with insertion that finds its node.\<close>

lemma findOrInsert_search:
  assumes "ht_rel t L" "computeHash n k = Inr h"
  obtains r where "ht_findOrInsert n k h False t = Inr (t, r, False)"
    "\<forall>p. r = Some p \<longleftrightarrow> (\<exists>nd. ht_heap t p = Some nd \<and> nd_name nd = take k n)"
proof -
  obtain r where r: "find_node (ht_fresh t) n k h (ht_buckets t ! (unat h mod length (ht_buckets t))) t = Inr r"
      "\<forall>p. r = Some p \<longleftrightarrow> (\<exists>nd. ht_heap t p = Some nd \<and> nd_name nd = take k n)"
    by (rule find_node_spec [OF assms])
  have "ht_findOrInsert n k h False t = Inr (t, r, False)"
    using bucket_ok(1,2) [OF assms(1), of h] r(1) by (cases r) (simp_all add: ht_findOrInsert_def)
  then show ?thesis using r(2) by (rule that)
qed

lemma findOrInsert_present:
  assumes "ht_rel t L" "computeHash n k = Inr h" "ht_heap t p = Some nd" "nd_name nd = take k n"
  shows "ht_findOrInsert n k h True t = Inr (t, Some p, False)"
proof -
  obtain r where r: "find_node (ht_fresh t) n k h (ht_buckets t ! (unat h mod length (ht_buckets t))) t = Inr r"
      "\<forall>p. r = Some p \<longleftrightarrow> (\<exists>nd. ht_heap t p = Some nd \<and> nd_name nd = take k n)"
    by (rule find_node_spec [OF assms(1,2)])
  have "\<exists>nd. ht_heap t p = Some nd \<and> nd_name nd = take k n" by (rule exI [of _ nd]) (simp add: assms(3,4))
  with spec [OF r(2), of p] have "r = Some p" by (rule iffD2)
  with r(1) have "find_node (ht_fresh t) n k h (ht_buckets t ! (unat h mod length (ht_buckets t))) t = Inr (Some p)" by (simp only:)
  then show ?thesis by (rule findOrInsert_found [OF bucket_ok(1,2) [OF assms(1)]])
qed

section \<open>Insertion\<close>

lemma node_info_upd: "node_info (H(p \<mapsto> nd)) = (node_info H)(p \<mapsto> (nd_hash nd, nd_name nd, nd_entry nd))"
  by (auto simp: node_info_def)

lemma node_info_iff:
  "node_info H p = Some (h, n, e) \<longleftrightarrow> (\<exists>nd. H p = Some nd \<and> nd_hash nd = h \<and> nd_name nd = n \<and> nd_entry nd = e)"
  by (auto simp: node_info_def)

lemma computeThresholds_id:
  "computeThresholds t = t \<longleftrightarrow> ht_expandThreshold t = float_times (ho_expandLoadFactor (ht_options t)) (length (ht_buckets t)) \<and>
     ht_shrinkThreshold t = float_times (ho_shrinkLoadFactor (ht_options t)) (length (ht_buckets t))"
  by (cases t) (auto simp: computeThresholds_def)

text \<open>The heap with a new node that is in no list yet.\<close>

lemma lists_ok_alloc:
  assumes "lists_ok t L" "p \<notin> set (concat L)"
  shows "lists_ok (t\<lparr>ht_heap := (ht_heap t)(p \<mapsto> nd), ht_fresh := f\<rparr>) L"
proof -
  have "linked ((ht_heap t)(p \<mapsto> nd)) (L ! b)" if "b < length L" for b
    by (rule linked_cong [of "ht_heap t"]) (use assms that in_bucket [OF that] in \<open>auto simp: lists_ok_def simp del: set_concat\<close>)
  then show ?thesis using assms(1) by (simp add: lists_ok_def)
qed

lemma bucketed_alloc:
  assumes "bucketed t L" "p \<notin> set (concat L)"
  shows "bucketed (t\<lparr>ht_heap := (ht_heap t)(p \<mapsto> nd), ht_fresh := f\<rparr>) L"
  unfolding bucketed_def
proof (intro allI impI ballI)
  fix b q assume b: "b < length L" "q \<in> set (L ! b)"
  then have "q \<in> set (concat L)" by (rule in_bucket)
  then have "q \<noteq> p" using assms(2) by blast
  then show "\<exists>nd'. ht_heap (t\<lparr>ht_heap := (ht_heap t)(p \<mapsto> nd), ht_fresh := f\<rparr>) q = Some nd' \<and> unat (nd_hash nd') mod length L = b"
    using assms(1) b unfolding bucketed_def by auto
qed

lemma attach_new:
  assumes "ht_rel t L" "computeHash m (length m) = Inr h" "\<nexists>p nd. ht_heap t p = Some nd \<and> nd_name nd = m"
    and "b = unat h mod length (ht_buckets t)"
    and "u = t\<lparr>ht_heap := (ht_heap t)(ht_fresh t \<mapsto> new_node h m), ht_fresh := Suc (ht_fresh t)\<rparr>"
  obtains t' L' where "attach b (ht_fresh t) u = Inr t'" "ht_rel (t'\<lparr>ht_size := ht_size t' + 1\<rparr>) L'"
    "node_info (ht_heap t') = (node_info (ht_heap t))(ht_fresh t \<mapsto> (h, m, new_nte))" "ht_fresh t' = Suc (ht_fresh t)"
proof -
  let ?p = "ht_fresh t"
  note R = ht_relD [OF assms(1)]
  have new: "?p \<notin> set (concat L)" using R(4) R(8) [of ?p] by (auto simp del: set_concat)
  have len: "length (ht_buckets t) = length L" and b: "b < length L" using bucket_ok(3) [OF assms(1), of h] bucket_ok(4) [OF assms(1)] assms(4) by auto
  have u: "lists_ok u L" "bucketed u L" "ht_heap u ?p = Some (new_node h m)"
    using lists_ok_alloc [OF R(1) new] bucketed_alloc [OF R(2) new] by (auto simp: assms(5))
  obtain t' where t': "attach b ?p u = Inr t'" "lists_ok t' (L[b := ?p # L ! b])" "same_but_links u t'"
    using attach_ok [OF u(1) b u(3) new] by blast
  let ?L = "L[b := ?p # L ! b]" and ?t = "t'\<lparr>ht_size := ht_size t' + 1\<rparr>"
  have bk: "bucketed t' ?L" using bucketed_attach [OF u(2) t'(3) u(3) _ b] assms(4) len by (simp add: new_node_def)
  have same: "ht_fresh t' = Suc ?p" "ht_options t' = ht_options t" "ht_size t' = ht_size t" "length (ht_buckets t') = length (ht_buckets t)"
      "ht_expandThreshold t' = ht_expandThreshold t" "ht_shrinkThreshold t' = ht_shrinkThreshold t"
    using t'(3) by (auto simp: same_but_links_def assms(5))
  have "node_info (ht_heap t') = node_info (ht_heap u)" using t'(3) by (simp add: same_but_links_def)
  then have inf: "node_info (ht_heap t') = (node_info (ht_heap t))(?p \<mapsto> (h, m, new_nte))"
    by (simp add: assms(5) node_info_upd new_node_def)
  have old: "(p = ?p \<and> nd_name nd = m \<and> nd_hash nd = h) \<or> p \<noteq> ?p \<and>
      (\<exists>nd'. ht_heap t p = Some nd' \<and> nd_name nd' = nd_name nd \<and> nd_hash nd' = nd_hash nd)" if "ht_heap t' p = Some nd" for p nd
  proof -
    have i: "node_info (ht_heap t') p = Some (nd_hash nd, nd_name nd, nd_entry nd)" using that by (simp add: node_info_def)
    show ?thesis
    proof (cases "p = ?p")
      case False
      then have "node_info (ht_heap t) p = Some (nd_hash nd, nd_name nd, nd_entry nd)" using i by (simp add: inf)
      then show ?thesis unfolding node_info_iff using False by blast
    qed (use i in \<open>simp add: inf\<close>)
  qed
  have c: "set (concat ?L) = insert ?p (set (concat L))" "length (concat ?L) = Suc (length (concat L))"
    using concat_split [OF b] by (auto simp: concat_update [OF b] simp del: set_concat)
  have "dom (ht_heap t') = insert ?p (dom (ht_heap t))" using arg_cong [OF inf, of dom] by simp
  moreover have "computeThresholds ?t = ?t" using R(7) same by (simp add: computeThresholds_id)
  moreover have "p < ht_fresh t' \<and> computeHash (nd_name nd) (length (nd_name nd)) = Inr (nd_hash nd)" if "ht_heap t' p = Some nd" for p nd
    using old [OF that] R(8,9) assms(2) same(1) by (metis less_Suc_eq)
  moreover have "p = q" if "ht_heap t' p = Some nd" "ht_heap t' q = Some nd'" "nd_name nd = nd_name nd'" for p q nd nd'
    using old [OF that(1)] old [OF that(2)] that(3) R(10) assms(3) by metis
  ultimately have "ht_rel ?t ?L"
    using t'(2) bk R(3-6) same c unfolding ht_rel_def by (auto simp: lists_ok_def bucketed_def simp del: set_concat length_concat)
  then show ?thesis using that t'(1) inf same(1) by blast
qed

lemma ht_grow_ok:
  assumes "ht_rel t L"
  obtains t' L' where "ht_grow t = Inr t'" "ht_rel t' L'" "node_info (ht_heap t') = node_info (ht_heap t)" "ht_fresh t' = ht_fresh t"
proof (cases "ht_expandThreshold t < ht_size t")
  case True
  note R = ht_relD [OF assms]
  have "0 < length (ht_buckets t)" using R(1,3) by (simp add: lists_ok_def)
  moreover have "2 ^ snd (ho_expandFactor (ht_options t)) \<le> fst (ho_expandFactor (ht_options t))" using R(6) by (simp add: options_ok_def)
  ultimately have "0 < float_times (ho_expandFactor (ht_options t)) (length (ht_buckets t))" by (rule float_times_pos [rotated])
  from resize_rel [OF assms this] True that show ?thesis by (auto simp: ht_grow_def)
qed (use that assms in \<open>simp add: ht_grow_def\<close>)

lemma findOrInsert_absent:
  assumes "ht_rel t L" "computeHash n k = Inr h" "\<nexists>p nd. ht_heap t p = Some nd \<and> nd_name nd = take k n"
  obtains t' L' where "ht_findOrInsert n k h True t = Inr (t', Some (ht_fresh t), True)" "ht_rel t' L'"
    "node_info (ht_heap t') = (node_info (ht_heap t))(ht_fresh t \<mapsto> (h, take k n, new_nte))" "ht_fresh t' = Suc (ht_fresh t)"
proof -
  let ?b = "unat h mod length (ht_buckets t)"
  obtain r where r: "find_node (ht_fresh t) n k h (ht_buckets t ! ?b) t = Inr r"
      "\<forall>p. r = Some p \<longleftrightarrow> (\<exists>nd. ht_heap t p = Some nd \<and> nd_name nd = take k n)"
    by (rule find_node_spec [OF assms(1,2)])
  have "r = None"
  proof (cases r)
    case (Some p)
    from iffD1 [OF spec [OF r(2), of p] Some] assms(3) show ?thesis by blast
  qed
  then have none: "find_node (ht_fresh t) n k h (ht_buckets t ! ?b) t = Inr None" using r(1) by simp
  have h: "computeHash (take k n) (length (take k n)) = Inr h" using assms(2) computeHash_take [of n k] by simp
  obtain t1 L1 where t1: "attach ?b (ht_fresh t) (t\<lparr>ht_heap := (ht_heap t)(ht_fresh t \<mapsto> new_node h (take k n)), ht_fresh := Suc (ht_fresh t)\<rparr>) = Inr t1"
      "ht_rel (t1\<lparr>ht_size := ht_size t1 + 1\<rparr>) L1"
      "node_info (ht_heap t1) = (node_info (ht_heap t))(ht_fresh t \<mapsto> (h, take k n, new_nte))" "ht_fresh t1 = Suc (ht_fresh t)"
    by (rule attach_new [OF assms(1) h assms(3) refl refl])
  obtain t2 L2 where t2: "ht_grow (t1\<lparr>ht_size := ht_size t1 + 1\<rparr>) = Inr t2" "ht_rel t2 L2"
      "node_info (ht_heap t2) = node_info (ht_heap (t1\<lparr>ht_size := ht_size t1 + 1\<rparr>))" "ht_fresh t2 = ht_fresh (t1\<lparr>ht_size := ht_size t1 + 1\<rparr>)"
    by (rule ht_grow_ok [OF t1(2)])
  have "ht_findOrInsert n k h True t = Inr (t2, Some (ht_fresh t), True)"
    by (rule findOrInsert_missing [OF bucket_ok(1,2) [OF assms(1)] none _ t2(1)]) (use t1(1) in simp)
  then show ?thesis using that t1(3,4) t2(2-4) by simp
qed

section \<open>Refinement of the map\<close>

text \<open>A node keeps its place on the heap, its name and its entry while other nodes come and go.\<close>

definition keeps_nodes :: "('f, 'm, 's) hashtable \<Rightarrow> ('f, 'm, 's) hashtable \<Rightarrow> node_ref set \<Rightarrow> bool" where
  "keeps_nodes t t' X \<longleftrightarrow> (\<forall>q. q \<notin> X \<longrightarrow> node_info (ht_heap t) q \<noteq> None \<longrightarrow> node_info (ht_heap t') q = node_info (ht_heap t) q)"

definition node_at :: "('f, 'm, 's) hashtable \<Rightarrow> node_ref \<Rightarrow> name \<Rightarrow> bool" where
  "node_at t p n \<longleftrightarrow> (\<exists>nd. ht_heap t p = Some nd \<and> nd_name nd = n)"

lemma representsI:
  assumes "ht_rel t L" "\<And>n e. m n = Some e \<longleftrightarrow> (\<exists>p h. node_info (ht_heap t) p = Some (h, n, e))"
  shows "represents t m"
  using assms unfolding represents_def node_info_iff by blast

lemma representsE:
  assumes "represents t m"
  obtains L where "ht_rel t L" "\<And>n e. m n = Some e \<longleftrightarrow> (\<exists>p h. node_info (ht_heap t) p = Some (h, n, e))"
  using assms unfolding represents_def node_info_iff by blast

lemma node_at_info: "node_at t p n \<longleftrightarrow> (\<exists>h e. node_info (ht_heap t) p = Some (h, n, e))"
  unfolding node_at_def node_info_iff by blast

lemma keeps_node_at:
  assumes "keeps_nodes t t' X" "node_at t p n" "p \<notin> X"
  shows "node_at t' p n"
proof -
  obtain h e where i: "node_info (ht_heap t) p = Some (h, n, e)" using assms(2) unfolding node_at_info by (elim exE)
  have "node_info (ht_heap t') p = node_info (ht_heap t) p" using assms(1,3) i by (simp add: keeps_nodes_def)
  then show ?thesis unfolding node_at_info i by (intro exI)
qed

lemma node_at_unique: "ht_rel t L \<Longrightarrow> node_at t p n \<Longrightarrow> node_at t q n \<Longrightarrow> p = q"
  unfolding node_at_def using ht_relD(10) [of t L p _ q] by (elim exE conjE) simp

lemma ht_insert_refines:
  assumes "represents t m" "computeHashes n j = Inr hs" "k \<le> j" "k \<le> length n"
  obtains t' p where "ht_insert n k hs t = Inr (t', Some p, m (take k n) = None)" "node_at t' p (take k n)"
    "represents t' (if m (take k n) = None then m(take k n \<mapsto> new_nte) else m)" "keeps_nodes t t' {}"
proof -
  obtain L where R: "ht_rel t L" "\<And>n e. m n = Some e \<longleftrightarrow> (\<exists>p h. node_info (ht_heap t) p = Some (h, n, e))"
    by (rule representsE [OF assms(1)]) blast
  obtain h where h: "computeHash n k = Inr h" using computeHash_ok by blast
  have ins: "ht_insert n k hs t = ht_findOrInsert n k h True t"
    using hashes_at_computeHashes [OF assms(2-4)] h by (simp add: ht_insert_def)
  show ?thesis
  proof (cases "m (take k n)")
    case None
    have absent: "\<nexists>p nd. ht_heap t p = Some nd \<and> nd_name nd = take k n"
    proof (intro notI, elim exE conjE)
      fix p nd assume "ht_heap t p = Some nd" "nd_name nd = take k n"
      then have "node_info (ht_heap t) p = Some (nd_hash nd, take k n, nd_entry nd)" by (simp add: node_info_def)
      then have "m (take k n) = Some (nd_entry nd)" unfolding R(2) by (intro exI)
      then show False using None by simp
    qed
    obtain t' L' where t': "ht_findOrInsert n k h True t = Inr (t', Some (ht_fresh t), True)" "ht_rel t' L'"
        "node_info (ht_heap t') = (node_info (ht_heap t))(ht_fresh t \<mapsto> (h, take k n, new_nte))" "ht_fresh t' = Suc (ht_fresh t)"
      by (rule findOrInsert_absent [OF R(1) h absent])
    have fresh: "node_info (ht_heap t) (ht_fresh t) = None"
      using ht_relD(8) [OF R(1), of "ht_fresh t"] by (cases "ht_heap t (ht_fresh t)") (auto simp: node_info_def)
    have "represents t' (m(take k n \<mapsto> new_nte))"
    proof (rule representsI [OF t'(2)])
      fix n' e
      show "(m(take k n \<mapsto> new_nte)) n' = Some e \<longleftrightarrow> (\<exists>p h. node_info (ht_heap t') p = Some (h, n', e))"
      proof (cases "n' = take k n")
        case True
        have "\<nexists>p h. node_info (ht_heap t) p = Some (h, take k n, e)" using R(2) [of "take k n" e] None by simp
        then show ?thesis unfolding t'(3) True by (auto split: if_splits)
      next
        case False
        then have "node_info (ht_heap t') p = Some (h', n', e) \<longleftrightarrow> node_info (ht_heap t) p = Some (h', n', e)" for p h'
          using fresh by (auto simp: t'(3))
        then show ?thesis using R(2) [of n' e] False by simp
      qed
    qed
    moreover have "node_at t' (ht_fresh t) (take k n)" unfolding node_at_info t'(3) by simp
    moreover have "keeps_nodes t t' {}" using fresh by (auto simp: keeps_nodes_def t'(3))
    ultimately show ?thesis using that [of t' "ht_fresh t"] ins t'(1) None by simp
  next
    case (Some e)
    then obtain p h' where "node_info (ht_heap t) p = Some (h', take k n, e)" using R(2) by blast
    then obtain nd where nd: "ht_heap t p = Some nd" "nd_name nd = take k n" unfolding node_info_iff by blast
    have "node_at t p (take k n)" using nd by (auto simp: node_at_def)
    then show ?thesis using that [of t p] ins findOrInsert_present [OF R(1) h nd] Some assms(1) by (simp add: keeps_nodes_def)
  qed
qed

lemma ht_find_refines:
  assumes "represents t m" "k \<le> length n"
  shows "\<exists>r. ht_find n k t = Inr r \<and> (r = None \<longleftrightarrow> m (take k n) = None) \<and>
    (\<forall>p. r = Some p \<longrightarrow> (\<exists>nd. ht_heap t p = Some nd \<and> nd_name nd = take k n \<and> m (take k n) = Some (nd_entry nd)))"
proof -
  obtain L where R: "ht_rel t L" "\<And>n e. m n = Some e \<longleftrightarrow> (\<exists>p h. node_info (ht_heap t) p = Some (h, n, e))"
    by (rule representsE [OF assms(1)]) blast
  obtain h where h: "computeHash n k = Inr h" using computeHash_ok by blast
  obtain r where r: "ht_findOrInsert n k h False t = Inr (t, r, False)"
      "\<forall>p. r = Some p \<longleftrightarrow> (\<exists>nd. ht_heap t p = Some nd \<and> nd_name nd = take k n)"
    by (rule findOrInsert_search [OF R(1) h])
  have f: "ht_find n k t = Inr r" using h r(1) by (simp add: ht_find_def)
  show ?thesis
  proof (cases r)
    case None
    have "m (take k n) = None"
    proof (rule ccontr)
      assume "m (take k n) \<noteq> None"
      then obtain e where "m (take k n) = Some e" by blast
      then obtain p nd where "ht_heap t p = Some nd" "nd_name nd = take k n" unfolding R(2) node_info_iff by blast
      then have "r = Some p" using spec [OF r(2), of p] by blast
      then show False using None by simp
    qed
    then show ?thesis using f None by simp
  next
    case (Some p)
    obtain nd where nd: "ht_heap t p = Some nd" "nd_name nd = take k n" using iffD1 [OF spec [OF r(2), of p] Some] by blast
    then have "node_info (ht_heap t) p = Some (nd_hash nd, take k n, nd_entry nd)" by (simp add: node_info_def)
    then have "m (take k n) = Some (nd_entry nd)" unfolding R(2) by blast
    then show ?thesis using f Some nd by (intro exI [of _ r]) simp
  qed
qed

section \<open>Removal\<close>

text \<open>The heap without a node that is in no list.\<close>

lemma delete_detached:
  assumes "ht_rel t L" "same_but_links t u" "lists_ok u (L[b := as @ bs])" "b < length L" "L ! b = as @ p # bs"
    and "ht_heap u p = Some nd" "nd_prev nd = None" "nd_next nd = None"
  obtains t' where "delete_node p u = Inr t'" "ht_rel (t'\<lparr>ht_size := ht_size t' - 1\<rparr>) (L[b := as @ bs])"
    "node_info (ht_heap t') = (node_info (ht_heap t))(p := None)"
proof -
  note R = ht_relD [OF assms(1)] and S = assms(2) [unfolded same_but_links_def]
  let ?L = "L[b := as @ bs]" and ?u = "u\<lparr>ht_heap := (ht_heap u)(p := None)\<rparr>"
  let ?t = "?u\<lparr>ht_size := ht_size ?u - 1\<rparr>"
  have d: "delete_node p u = Inr ?u" using assms(6-8) by (simp add: delete_node_def deref_def)
  have inf: "node_info (ht_heap ?u) = (node_info (ht_heap t))(p := None)"
    using S by (auto simp: node_info_def fun_eq_iff)
  have split: "concat L = concat (take b L) @ (as @ p # bs) @ concat (drop (Suc b) L)" using concat_split [OF assms(4)] assms(5) by simp
  have upd: "concat ?L = concat (take b L) @ (as @ bs) @ concat (drop (Suc b) L)" by (rule concat_update [OF assms(4)])
  have dist: "distinct (concat L)" using R(1) by (simp add: lists_ok_def)
  have c: "set (concat ?L) = set (concat L) - {p}" "length (concat ?L) = length (concat L) - 1" "p \<notin> set (concat ?L)"
    using dist unfolding split upd by (auto simp del: set_concat length_concat)
  have lst: "lists_ok ?t ?L"
  proof -
    have "linked ((ht_heap u)(p := None)) (?L ! c)" if "c < length ?L" for c
    proof (rule linked_cong [of "ht_heap u"])
      show "linked (ht_heap u) (?L ! c)" using assms(3) that by (simp add: lists_ok_def)
      show "((ht_heap u)(p := None)) q = ht_heap u q" if "q \<in> set (?L ! c)" for q
      proof -
        have "q \<in> set (concat ?L)" by (rule in_bucket [OF \<open>c < length ?L\<close> that])
        then show ?thesis using c(3) by (metis fun_upd_other)
      qed
    qed
    then show ?thesis using assms(3) by (simp add: lists_ok_def)
  qed
  have bk: "bucketed ?t ?L"
    unfolding bucketed_def
  proof (intro allI impI ballI)
    fix a q assume a: "a < length ?L" "q \<in> set (?L ! a)"
    have "q \<in> set (concat ?L)" by (rule in_bucket [OF a])
    then have "q \<noteq> p" using c(3) by metis
    have "q \<in> set (L ! a)" using a assms(5) by (cases "a = b") auto
    then obtain x where x: "ht_heap t q = Some x" "unat (nd_hash x) mod length L = a" using R(2) a(1) unfolding bucketed_def by auto
    obtain y where "ht_heap u q = Some y" "nd_hash y = nd_hash x" using node_info_Some [of "ht_heap t" "ht_heap u" q x] S x(1) by auto
    then show "\<exists>nd. ht_heap ?t q = Some nd \<and> unat (nd_hash nd) mod length ?L = a" using x(2) \<open>q \<noteq> p\<close> by simp
  qed
  have dom: "set (concat ?L) = dom (ht_heap ?t)"
    unfolding c(1) R(4) using node_info_dom [of "ht_heap u" "ht_heap t"] S by (auto simp: dom_def)
  have old: "\<exists>y. ht_heap t q = Some y \<and> nd_hash y = nd_hash x \<and> nd_name y = nd_name x" if "ht_heap ?t q = Some x" for q x
    using node_info_Some [of "ht_heap u" "ht_heap t" q x] S that by (cases "q = p") auto
  have "ht_rel ?t ?L"
    unfolding ht_rel_def
  proof (intro conjI allI impI)
    show "lists_ok ?t ?L" "bucketed ?t ?L" "set (concat ?L) = dom (ht_heap ?t)" by (fact lst bk dom)+
    show "0 < length ?L" using R(3) by simp
    show "ht_size ?t = length (concat ?L)" using c(2) R(5) S by (simp del: length_concat)
    show "options_ok (ht_options ?t)" using R(6) S by simp
    show "computeThresholds ?t = ?t" using R(7) S by (simp add: computeThresholds_id)
    show "q < ht_fresh ?t" if "ht_heap ?t q = Some x" for q x using old [OF that] R(8) S by auto
    show "computeHash (nd_name x) (length (nd_name x)) = Inr (nd_hash x)" if "ht_heap ?t q = Some x" for q x using old [OF that] R(9) by metis
    show "q = r" if "ht_heap ?t q = Some x \<and> ht_heap ?t r = Some y \<and> nd_name x = nd_name y" for q r x y
      using old [of q x] old [of r y] R(10) that by metis
  qed
  then show ?thesis using that [OF d] inf by simp
qed

definition ht_shrink :: "('f, 'm, 's) hashtable \<Rightarrow> ('f, 'm, 's) hashtable res" where
  "ht_shrink t = (if ht_size t < ht_shrinkThreshold t
     then resize (max (ho_minSize (ht_options t)) (float_times (ho_shrinkFactor (ht_options t)) (length (ht_buckets t)))) t else Inr t)"

lemma ht_shrink_ok:
  assumes "ht_rel t L"
  obtains t' L' where "ht_shrink t = Inr t'" "ht_rel t' L'" "node_info (ht_heap t') = node_info (ht_heap t)"
proof (cases "ht_size t < ht_shrinkThreshold t")
  case True
  have "0 < ho_minSize (ht_options t)" using ht_relD(6) [OF assms] by (simp add: options_ok_def)
  then have "0 < max (ho_minSize (ht_options t)) (float_times (ho_shrinkFactor (ht_options t)) (length (ht_buckets t)))" by simp
  from resize_rel [OF assms this] True that show ?thesis by (auto simp: ht_shrink_def)
qed (use that assms in \<open>simp add: ht_shrink_def\<close>)

lemma ht_erase_refines:
  assumes "represents t m" "ht_heap t p = Some nd" "nte_parent (nd_entry nd) = None"
  obtains t' where "ht_erase p t = Inr t'" "represents t' (m(nd_name nd := None))" "keeps_nodes t t' {p}" "ht_heap t' p = None"
proof -
  obtain L where R: "ht_rel t L" "\<And>n e. m n = Some e \<longleftrightarrow> (\<exists>p h. node_info (ht_heap t) p = Some (h, n, e))"
    by (rule representsE [OF assms(1)]) blast
  let ?b = "unat (nd_hash nd) mod length (ht_buckets t)"
  have b: "?b < length L" "length (ht_buckets t) = length L" using bucket_ok(3,4) [OF R(1)] by auto
  have "p \<in> set (L ! ?b)" using in_own_bucket [OF R(1) assms(2)] b(2) by simp
  then obtain as bs where ab: "L ! ?b = as @ p # bs" by (meson split_list)
  obtain u x where u: "detach ?b p t = Inr u" "lists_ok u (L[?b := as @ bs])" "same_but_links t u" "ht_heap u p = Some x" "nd_prev x = None" "nd_next x = None"
    by (rule detach_ok [OF ht_relD(1) [OF R(1)] b(1) ab])
  obtain t1 where t1: "delete_node p u = Inr t1" "ht_rel (t1\<lparr>ht_size := ht_size t1 - 1\<rparr>) (L[?b := as @ bs])"
      "node_info (ht_heap t1) = (node_info (ht_heap t))(p := None)"
    by (rule delete_detached [OF R(1) u(3,2) b(1) ab u(4-6)])
  obtain t2 L2 where t2: "ht_shrink (t1\<lparr>ht_size := ht_size t1 - 1\<rparr>) = Inr t2" "ht_rel t2 L2"
      "node_info (ht_heap t2) = node_info (ht_heap (t1\<lparr>ht_size := ht_size t1 - 1\<rparr>))"
    by (rule ht_shrink_ok [OF t1(2)])
  have "ht_erase p t = Inr t2"
    using assms(2,3) bucket_ok(1) [OF R(1), of "nd_hash nd"] u(1) t1(1) t2(1)
    by (simp add: ht_erase_def deref_def ht_shrink_def)
  moreover have inf: "node_info (ht_heap t2) = (node_info (ht_heap t))(p := None)" using t1(3) t2(3) by simp
  have "represents t2 (m(nd_name nd := None))"
  proof (rule representsI [OF t2(2)])
    fix n e
    show "(m(nd_name nd := None)) n = Some e \<longleftrightarrow> (\<exists>q h. node_info (ht_heap t2) q = Some (h, n, e))"
    proof (cases "n = nd_name nd")
      case True
      have "q = p" if "node_info (ht_heap t) q = Some (h, nd_name nd, e)" for q h
        using that ht_relD(10) [OF R(1) _ assms(2), of q] unfolding node_info_iff by (elim exE conjE) simp
      then show ?thesis using True by (auto simp: inf)
    next
      case False
      have "q \<noteq> p" if "node_info (ht_heap t) q = Some (h, n, e)" for q h
        using that False assms(2) by (auto simp: node_info_def)
      then have "node_info (ht_heap t2) q = Some (h, n, e) \<longleftrightarrow> node_info (ht_heap t) q = Some (h, n, e)" for q h by (auto simp: inf)
      then show ?thesis using R(2) [of n e] False by simp
    qed
  qed
  moreover have "keeps_nodes t t2 {p}" by (simp add: keeps_nodes_def inf)
  moreover have "ht_heap t2 p = None" using fun_cong [OF inf, of p] by (simp add: node_info_def)
  ultimately show ?thesis using that by blast
qed

section \<open>The name tree over the hashtable\<close>

text \<open>
  \<open>Entry::setParent\<close> on the entries of two nodes, and \<open>NameTree::lookup\<close>: the nodes of the prefixes of
  a name, from the root down, each new one linked to the one before.
\<close>

definition ht_setParent :: "node_ref \<Rightarrow> node_ref \<Rightarrow> ('f, 'm, 's) hashtable \<Rightarrow> ('f, 'm, 's) hashtable res" where
  "ht_setParent p q t =
     bind_res (deref p t) (\<lambda>nd. bind_res (deref q t) (\<lambda>pa.
     assert_res (nte_parent (nd_entry nd) = None) (assert_res (nd_name nd \<noteq> []) (assert_res (nd_name pa = getPrefix (nd_name nd) (-1))
       (Inr (set_node q (\<lambda>x. x\<lparr>nd_entry := (nd_entry x)\<lparr>nte_children := nte_children (nd_entry x) @ [nd_name nd]\<rparr>\<rparr>)
              (set_node p (\<lambda>x. x\<lparr>nd_entry := (nd_entry x)\<lparr>nte_parent := Some (nd_name pa)\<rparr>\<rparr>) t)))))))"

definition ht_lookup_step ::
    "name \<Rightarrow> 64 word list \<Rightarrow> nat \<Rightarrow> ('f, 'm, 's) hashtable \<times> node_ref option \<Rightarrow> (('f, 'm, 's) hashtable \<times> node_ref option) res" where
  "ht_lookup_step n hashes i s =
     bind_res (ht_insert n i hashes (fst s)) (\<lambda>(t, node, isNew).
     bind_res (case (node, snd s) of (Some p, Some q) \<Rightarrow> if isNew then ht_setParent p q t else Inr t | _ \<Rightarrow> Inr t) (\<lambda>t.
     Inr (t, node)))"

definition ht_lookup :: "name \<Rightarrow> nat \<Rightarrow> ('f, 'm, 's) hashtable \<Rightarrow> (('f, 'm, 's) hashtable \<times> node_ref option) res" where
  "ht_lookup n prefixLen t =
     assert_res (prefixLen \<le> length n) (assert_res (prefixLen \<le> getMaxDepth)
     (bind_res (computeHashes n prefixLen) (\<lambda>hashes. fold_res (ht_lookup_step n hashes) [0..<Suc prefixLen] (t, None))))"

lemma same_structure_entry:
  assumes "ht_rel t L" "ht_heap t p = Some nd"
  shows "ht_rel (set_node p (\<lambda>x. x\<lparr>nd_entry := f (nd_entry x)\<rparr>) t) L"
    and "node_info (ht_heap (set_node p (\<lambda>x. x\<lparr>nd_entry := f (nd_entry x)\<rparr>) t)) =
      (node_info (ht_heap t))(p \<mapsto> (nd_hash nd, nd_name nd, f (nd_entry nd)))"
proof -
  let ?t = "set_node p (\<lambda>x. x\<lparr>nd_entry := f (nd_entry x)\<rparr>) t"
  note R = ht_relD [OF assms(1)]
  show inf: "node_info (ht_heap ?t) = (node_info (ht_heap t))(p \<mapsto> (nd_hash nd, nd_name nd, f (nd_entry nd)))"
    using assms(2) by (auto simp: set_node_def node_info_def)
  have new: "\<exists>y. ht_heap ?t q = Some y \<and> nd_hash y = nd_hash x \<and> nd_name y = nd_name x \<and> nd_prev y = nd_prev x \<and> nd_next y = nd_next x"
    if "ht_heap t q = Some x" for q x using that by (cases "q = p") (simp_all add: set_node_def)
  have old: "\<exists>y. ht_heap t q = Some y \<and> nd_hash y = nd_hash x \<and> nd_name y = nd_name x" if "ht_heap ?t q = Some x" for q x
    using that by (auto simp: set_node_def split: if_splits)
  have lnk: "linked (ht_heap ?t) ps" if hl: "linked (ht_heap t) ps" for ps
    unfolding linked_def
  proof (intro allI impI)
    fix as q bs assume "ps = as @ q # bs"
    then obtain x where x: "ht_heap t q = Some x" "nd_prev x = last_opt as" "nd_next x = hd_opt bs" using linkedD [of "ht_heap t" as q bs] hl by auto
    then show "\<exists>nd. ht_heap ?t q = Some nd \<and> nd_prev nd = last_opt as \<and> nd_next nd = hd_opt bs" using new [OF x(1)] by auto
  qed
  show "ht_rel ?t L"
    unfolding ht_rel_def
  proof (intro conjI allI impI)
    show "lists_ok ?t L" using R(1) lnk by (simp add: lists_ok_def) (simp add: set_node_def)
    show "bucketed ?t L"
      unfolding bucketed_def
    proof (intro allI impI ballI)
      fix b q assume "b < length L" "q \<in> set (L ! b)"
      then obtain x where x: "ht_heap t q = Some x" "unat (nd_hash x) mod length L = b" using R(2) unfolding bucketed_def by auto
      then show "\<exists>nd. ht_heap ?t q = Some nd \<and> unat (nd_hash nd) mod length L = b" using new [OF x(1)] by auto
    qed
    show "set (concat L) = dom (ht_heap ?t)" using R(4) by (auto simp: set_node_def dom_def simp del: set_concat split: if_splits)
    show "0 < length L" "options_ok (ht_options ?t)" "ht_size ?t = length (concat L)" using R(3,5,6) by (simp_all add: set_node_def)
    show "computeThresholds ?t = ?t" using R(7) by (simp add: computeThresholds_id set_node_def)
    show "q < ht_fresh ?t" if "ht_heap ?t q = Some x" for q x using old [OF that] R(8) by (auto simp: set_node_def)
    show "computeHash (nd_name x) (length (nd_name x)) = Inr (nd_hash x)" if "ht_heap ?t q = Some x" for q x using old [OF that] R(9) by metis
    show "q = r" if "ht_heap ?t q = Some x \<and> ht_heap ?t r = Some y \<and> nd_name x = nd_name y" for q r x y
      using old [of q x] old [of r y] R(10) that by metis
  qed
qed

lemma set_entry_refines:
  assumes "represents t m" "node_at t p n" "m n = Some e"
  shows "represents (set_node p (\<lambda>x. x\<lparr>nd_entry := f (nd_entry x)\<rparr>) t) (m(n \<mapsto> f e))"
    and "node_at (set_node p (\<lambda>x. x\<lparr>nd_entry := f (nd_entry x)\<rparr>) t) q n' \<longleftrightarrow> node_at t q n'"
proof -
  let ?t = "set_node p (\<lambda>x. x\<lparr>nd_entry := f (nd_entry x)\<rparr>) t"
  obtain L where R: "ht_rel t L" "\<And>n e. m n = Some e \<longleftrightarrow> (\<exists>p h. node_info (ht_heap t) p = Some (h, n, e))"
    by (rule representsE [OF assms(1)]) blast
  obtain nd where nd: "ht_heap t p = Some nd" "nd_name nd = n" using assms(2) unfolding node_at_def by (elim exE conjE)
  have i: "node_info (ht_heap t) p = Some (nd_hash nd, n, nd_entry nd)" using nd by (simp add: node_info_def)
  have "m n = Some (nd_entry nd)" unfolding R(2) using i by (intro exI)
  then have e: "nd_entry nd = e" using assms(3) by simp
  have inf: "node_info (ht_heap ?t) = (node_info (ht_heap t))(p \<mapsto> (nd_hash nd, n, f e))"
    using same_structure_entry(2) [OF R(1) nd(1), of f] nd(2) e by simp
  have only: "q = p" if "node_info (ht_heap t) q = Some (h, n, e')" for q h e'
    using that ht_relD(10) [OF R(1) _ nd(1), of q] nd(2) unfolding node_info_iff by (elim exE conjE) simp
  show "represents ?t (m(n \<mapsto> f e))"
  proof (rule representsI [OF same_structure_entry(1) [OF R(1) nd(1)]])
    fix n' e'
    show "(m(n \<mapsto> f e)) n' = Some e' \<longleftrightarrow> (\<exists>q h. node_info (ht_heap ?t) q = Some (h, n', e'))"
    proof (cases "n' = n")
      case True
      have "node_info (ht_heap ?t) q = Some (h, n, e') \<longleftrightarrow> q = p \<and> h = nd_hash nd \<and> f e = e'" for q h
        using only [of q h e'] by (cases "q = p") (auto simp: inf)
      then show ?thesis by (simp add: True)
    next
      case False
      then have "node_info (ht_heap ?t) q = Some (h, n', e') \<longleftrightarrow> node_info (ht_heap t) q = Some (h, n', e')" for q h
        using i by (auto simp: inf)
      then show ?thesis using R(2) [of n' e'] False by simp
    qed
  qed
  show "node_at ?t q n' \<longleftrightarrow> node_at t q n'" unfolding node_at_info inf using i by auto
qed

lemma ht_setParent_refines:
  assumes "represents t (map_of nt)" "node_at t p n" "node_at t q (butlast n)" "n \<noteq> []" "map_of nt n = Some e" "nte_parent e = None"
  obtains t' where "ht_setParent p q t = Inr t'" "represents t' (map_of (setParent n (butlast n) nt))" "\<And>r m. node_at t' r m \<longleftrightarrow> node_at t r m"
proof -
  obtain L where R: "ht_rel t L" "\<And>n e. map_of nt n = Some e \<longleftrightarrow> (\<exists>p h. node_info (ht_heap t) p = Some (h, n, e))"
    by (rule representsE [OF assms(1)]) blast
  obtain nd pa where nd: "ht_heap t p = Some nd" "nd_name nd = n" and pa: "ht_heap t q = Some pa" "nd_name pa = butlast n"
    using assms(2,3) unfolding node_at_def by (elim exE conjE)
  have "map_of nt n = Some (nd_entry nd)" "map_of nt (butlast n) = Some (nd_entry pa)"
    unfolding R(2) node_info_iff using nd pa by blast+
  then have e: "nd_entry nd = e" and pe: "map_of nt (butlast n) = Some (nd_entry pa)" using assms(5) by simp_all
  let ?f = "\<lambda>e. e\<lparr>nte_parent := Some (butlast n)\<rparr>" and ?g = "\<lambda>e. e\<lparr>nte_children := nte_children e @ [n]\<rparr>"
  define t1 where "t1 = set_node p (\<lambda>x. x\<lparr>nd_entry := ?f (nd_entry x)\<rparr>) t"
  define t2 where "t2 = set_node q (\<lambda>x. x\<lparr>nd_entry := ?g (nd_entry x)\<rparr>) t1"
  have neq: "butlast n \<noteq> n" using assms(4) by (metis butlast_neq)
  have 1: "represents t1 ((map_of nt)(n \<mapsto> ?f e))" "\<And>r m. node_at t1 r m \<longleftrightarrow> node_at t r m"
    unfolding t1_def using set_entry_refines [OF assms(1,2,5), where f = ?f] by blast+
  have "((map_of nt)(n \<mapsto> ?f e)) (butlast n) = Some (nd_entry pa)" using pe neq by simp
  from set_entry_refines [OF 1(1) _ this, of q ?g] assms(3)
  have 2: "represents t2 ((map_of nt)(n \<mapsto> ?f e, butlast n \<mapsto> ?g (nd_entry pa)))" "\<And>r m. node_at t2 r m \<longleftrightarrow> node_at t1 r m"
    unfolding t2_def 1(2) by blast+
  have "(map_of nt)(n \<mapsto> ?f e, butlast n \<mapsto> ?g (nd_entry pa)) = map_of (setParent n (butlast n) nt)"
    using pe neq assms(5) by (auto simp: setParent_def map_of_nt_modify fun_eq_iff)
  moreover have "ht_setParent p q t = Inr t2"
    using nd pa e assms(4,6) by (simp add: ht_setParent_def deref_def t2_def t1_def)
  ultimately show ?thesis using that 2 1(2) by metis
qed

text \<open>One step of the lookup, and the whole lookup.\<close>

definition lookup_rel :: "('f, 'm, 's) hashtable \<times> node_ref option \<Rightarrow> ('f, 'm, 's) name_tree \<times> name option \<Rightarrow> bool" where
  "lookup_rel s a \<longleftrightarrow> represents (fst s) (map_of (fst a)) \<and> (snd s = None \<longleftrightarrow> snd a = None) \<and>
     (\<forall>p n. snd s = Some p \<longrightarrow> snd a = Some n \<longrightarrow> node_at (fst s) p n)"

lemma ht_lookup_step_refines:
  assumes "lookup_rel s a" "computeHashes n j = Inr hs" "i \<le> j" "i \<le> length n" "snd a = (if i = 0 then None else Some (take (i - 1) n))"
  shows "\<exists>s'. ht_lookup_step n hs i s = Inr s' \<and> lookup_rel s' (lookup_step n i a)"
proof -
  obtain t par nt par' where sa: "s = (t, par)" "a = (nt, par')" by (cases s, cases a)
  have rel: "represents t (map_of nt)" "par = None \<longleftrightarrow> par' = None" "\<And>p m. par = Some p \<Longrightarrow> par' = Some m \<Longrightarrow> node_at t p m"
    using assms(1) by (auto simp: sa lookup_rel_def)
  let ?n = "take i n"
  obtain t1 p where t1: "ht_insert n i hs t = Inr (t1, Some p, map_of nt ?n = None)" "node_at t1 p ?n"
      "represents t1 (if map_of nt ?n = None then (map_of nt)(?n \<mapsto> new_nte) else map_of nt)" "keeps_nodes t t1 {}"
    by (rule ht_insert_refines [OF rel(1) assms(2-4)])
  have ins: "nt_index_insert ?n nt = (if map_of nt ?n = None then AList.update ?n new_nte nt else nt, map_of nt ?n = None)"
    by (cases "map_of nt ?n") (simp_all add: nt_index_insert_def)
  show ?thesis
  proof (cases "map_of nt ?n = None \<and> i \<noteq> 0")
    case False
    then have "ht_lookup_step n hs i s = Inr (t1, Some p)"
      using t1(1) rel(2) assms(5) by (cases "i = 0") (auto simp: ht_lookup_step_def sa split: option.splits)
    moreover have "lookup_step n i a = (fst (nt_index_insert ?n nt), Some ?n)"
      using False assms(5) ins by (cases "i = 0") (auto simp: lookup_step_def sa split: option.splits)
    ultimately show ?thesis using t1(2,3) ins by (auto simp: lookup_rel_def)
  next
    case True
    then have par': "par' = Some (take (i - 1) n)" using assms(5) by (simp add: sa)
    then obtain q where q: "par = Some q" using rel(2) by (cases par) auto
    have bl: "butlast ?n = take (i - 1) n" "?n \<noteq> []" using True assms(4) by (auto simp: butlast_take)
    have "node_at t1 q (butlast ?n)" unfolding bl(1) by (rule keeps_node_at [OF t1(4) rel(3) [OF q par']]) simp
    moreover have "represents t1 (map_of (AList.update ?n new_nte nt))" using t1(3) True by simp
    moreover have "map_of (AList.update ?n new_nte nt) ?n = Some new_nte" "nte_parent new_nte = None" by (simp_all add: new_nte_def)
    ultimately obtain t2 where t2: "ht_setParent p q t1 = Inr t2" "represents t2 (map_of (setParent ?n (butlast ?n) (AList.update ?n new_nte nt)))"
        "\<And>r m. node_at t2 r m \<longleftrightarrow> node_at t1 r m"
      using ht_setParent_refines [OF _ t1(2) _ bl(2)] by metis
    have "ht_lookup_step n hs i s = Inr (t2, Some p)" using t1(1) True q t2(1) by (simp add: ht_lookup_step_def sa)
    moreover have "lookup_step n i a = (setParent ?n (butlast ?n) (AList.update ?n new_nte nt), Some ?n)"
      using True par' ins bl(1) by (simp add: lookup_step_def sa Let_def)
    ultimately show ?thesis using t2(2,3) t1(2) by (auto simp: lookup_rel_def)
  qed
qed

lemma lookup_step_parent: "snd (lookup_step n i a) = Some (take i n)"
  by (simp add: lookup_step_def Let_def split: prod.splits)

lemma lookup_fold_refines:
  assumes "represents t (map_of nt)" "computeHashes n k = Inr hs" "j \<le> k" "j \<le> length n"
  shows "\<exists>s'. fold_res (ht_lookup_step n hs) [0..<Suc j] (t, None) = Inr s' \<and> lookup_rel s' (fold (lookup_step n) [0..<Suc j] (nt, None))"
  using assms(3,4)
proof (induction j)
  case 0
  have "lookup_rel (t, None) (nt, None)" using assms(1) by (simp add: lookup_rel_def)
  from ht_lookup_step_refines [OF this assms(2), of 0] show ?case by auto
next
  case (Suc j)
  then obtain s where s: "fold_res (ht_lookup_step n hs) [0..<Suc j] (t, None) = Inr s" "lookup_rel s (fold (lookup_step n) [0..<Suc j] (nt, None))"
    by auto
  have "snd (fold (lookup_step n) [0..<Suc j] (nt, None)) = Some (take j n)" using lookup_step_parent by simp
  then obtain s' where s': "ht_lookup_step n hs (Suc j) s = Inr s'" "lookup_rel s' (lookup_step n (Suc j) (fold (lookup_step n) [0..<Suc j] (nt, None)))"
    using ht_lookup_step_refines [OF s(2) assms(2) Suc.prems] by auto
  have split: "[0..<Suc (Suc j)] = [0..<Suc j] @ [Suc j]" by simp
  show ?case unfolding split fold_res_append fold_append comp_apply s(1) using s' by (simp del: upt_Suc)
qed

section \<open>Construction and destruction\<close>

lemma new_hashtable_represents:
  assumes "options_ok opt"
  shows "\<exists>t. new_hashtable opt = Inr t \<and> represents t Map.empty"
proof -
  let ?t = "computeThresholds \<lparr>ht_heap = Map.empty, ht_fresh = 0, ht_buckets = replicate (ho_initialSize opt) None, ht_options = opt, ht_size = 0,
        ht_expandThreshold = 0, ht_shrinkThreshold = 0\<rparr>"
  have "0 < ho_initialSize opt" using assms by (simp add: options_ok_def)
  then have "ht_rel ?t (replicate (ho_initialSize opt) [])"
    using assms by (simp add: ht_rel_def lists_ok_def bucketed_def computeThresholds_def)
  then have "represents ?t Map.empty" by (rule representsI) (simp add: computeThresholds_def node_info_def)
  then show ?thesis using assms by (simp add: new_hashtable_def)
qed

lemma destroy_list_ok:
  assumes "next_chain (ht_heap t) ps" "distinct ps" "length ps \<le> fuel"
  shows "\<exists>t'. destroy_list fuel (hd_opt ps) t = Inr t' \<and> ht_heap t' = ht_heap t |` (- set ps) \<and> ht_fresh t' = ht_fresh t"
  using assms
proof (induction ps arbitrary: t fuel)
  case Nil
  then show ?case by simp
next
  case (Cons p ps)
  obtain nd where nd: "ht_heap t p = Some nd" "nd_next nd = hd_opt ps" using Cons.prems(1) by auto
  obtain j where fuel: "fuel = Suc j" using Cons.prems(3) by (cases fuel) auto
  define u where "u = (set_node p (\<lambda>x. x\<lparr>nd_prev := None, nd_next := None\<rparr>) t)\<lparr>ht_heap := (ht_heap t)(p := None)\<rparr>"
  have d: "delete_node p (set_node p (\<lambda>x. x\<lparr>nd_prev := None, nd_next := None\<rparr>) t) = Inr u"
    using nd(1) by (simp add: delete_node_def deref_def set_node_def u_def)
  have "next_chain (ht_heap u) ps"
    by (rule next_chain_cong [of "ht_heap t"]) (use Cons.prems(1,2) in \<open>auto simp: u_def\<close>)
  then obtain t' where t': "destroy_list j (hd_opt ps) u = Inr t'" "ht_heap t' = ht_heap u |` (- set ps)" "ht_fresh t' = ht_fresh u"
    using Cons.IH [of u j] Cons.prems(2,3) fuel by auto
  have "ht_heap t' = ht_heap t |` (- set (p # ps))" using t'(2) by (auto simp: u_def restrict_map_def fun_eq_iff)
  then show ?case using t'(1,3) nd d fuel by (simp add: deref_def) (simp add: u_def set_node_def)
qed

lemma destroy_lists_ok:
  assumes "\<And>ps. ps \<in> set Ls \<Longrightarrow> next_chain (ht_heap t) ps \<and> length ps \<le> fuel" "distinct (concat Ls)"
  shows "\<exists>t'. fold_res (destroy_list fuel) (map hd_opt Ls) t = Inr t' \<and> ht_heap t' = ht_heap t |` (- set (concat Ls))"
  using assms
proof (induction Ls arbitrary: t)
  case Nil
  then show ?case by simp
next
  case (Cons ps Ls)
  have d: "distinct ps" "distinct (concat Ls)" "set ps \<inter> set (concat Ls) = {}" using Cons.prems(2) by (auto simp del: set_concat)
  have ps: "next_chain (ht_heap t) ps" "length ps \<le> fuel" using Cons.prems(1) by auto
  obtain t1 where t1: "destroy_list fuel (hd_opt ps) t = Inr t1" "ht_heap t1 = ht_heap t |` (- set ps)"
    using destroy_list_ok [OF ps(1) d(1) ps(2)] by blast
  have nc: "next_chain (ht_heap t1) qs \<and> length qs \<le> fuel" if qs: "qs \<in> set Ls" for qs
  proof -
    have same: "ht_heap t1 q = ht_heap t q" if "q \<in> set qs" for q
    proof -
      have "q \<in> - set ps" using that qs d(3) by auto
      then show ?thesis unfolding t1(2) by (rule restrict_in)
    qed
    have "next_chain (ht_heap t) qs" using Cons.prems(1) [of qs] qs by simp
    from next_chain_cong [OF this same] have "next_chain (ht_heap t1) qs" .
    then show ?thesis using Cons.prems(1) [of qs] qs by simp
  qed
  obtain t2 where t2: "fold_res (destroy_list fuel) (map hd_opt Ls) t1 = Inr t2" "ht_heap t2 = ht_heap t1 |` (- set (concat Ls))"
    using Cons.IH [of t1] nc d(2) by blast
  have "ht_heap t2 = ht_heap t |` (- set (concat (ps # Ls)))" unfolding t2(2) t1(2) by (auto simp: restrict_map_def fun_eq_iff)
  then show ?case using t1(1) t2(1) by simp
qed

lemma destroy_hashtable_ok:
  assumes "represents t m"
  shows "\<exists>t'. destroy_hashtable t = Inr t' \<and> ht_heap t' = Map.empty"
proof -
  obtain L where R: "ht_rel t L" using assms by (auto simp: represents_def)
  note RD = ht_relD [OF R]
  have bs: "ht_buckets t = map hd_opt L" using RD(1) by (intro nth_equalityI) (auto simp: lists_ok_def)
  have nc: "next_chain (ht_heap t) ps \<and> length ps \<le> ht_fresh t" if ps: "ps \<in> set L" for ps
  proof -
    have "linked (ht_heap t) ps" using ps RD(1) by (auto simp: lists_ok_def in_set_conv_nth)
    then show ?thesis using linked_next_chain [of "ht_heap t" "[]" ps] short_bucket [OF R ps] by simp
  qed
  have "distinct (concat L)" using RD(1) by (simp add: lists_ok_def)
  from destroy_lists_ok [OF nc this] obtain t' where "fold_res (destroy_list (ht_fresh t)) (map hd_opt L) t = Inr t'"
      "ht_heap t' = ht_heap t |` (- set (concat L))" by blast
  moreover have "ht_heap t |` (- set (concat L)) = Map.empty" unfolding RD(4) by (auto simp: restrict_map_def dom_def fun_eq_iff)
  ultimately show ?thesis by (simp add: destroy_hashtable_def bs)
qed

section \<open>Properties\<close>

text \<open>
  C27: Looking up a prefix in a hashtable that represents the name tree succeeds, with every insertion and
  rehash on the way: it returns the node of the prefix, and the hashtable represents the name tree
  after the abstract lookup, parents and children included.
\<close>

theorem hashtable_lookup:
  assumes "represents t (map_of nt)" "k \<le> length n" "k \<le> getMaxDepth"
  shows "\<exists>t' p nt'. ht_lookup n k t = Inr (t', Some p) \<and> nt_lookup n k nt = Inr nt' \<and> represents t' (map_of nt') \<and> node_at t' p (take k n)"
proof -
  obtain hs where hs: "computeHashes n k = Inr hs" by (rule computeHashes_ok)
  obtain s where s: "fold_res (ht_lookup_step n hs) [0..<Suc k] (t, None) = Inr s" "lookup_rel s (fold (lookup_step n) [0..<Suc k] (nt, None))"
    using lookup_fold_refines [OF assms(1) hs order.refl assms(2)] by blast
  have par: "snd (fold (lookup_step n) [0..<Suc k] (nt, None)) = Some (take k n)" using lookup_step_parent by simp
  obtain t' r where tr: "s = (t', r)" by (cases s)
  then obtain p where p: "r = Some p" "node_at t' p (take k n)" "represents t' (map_of (fst (fold (lookup_step n) [0..<Suc k] (nt, None))))"
    using s(2) par unfolding lookup_rel_def by (cases r) (simp_all del: upt_Suc)
  have "ht_lookup n k t = Inr (t', Some p)" using s(1) hs assms(2,3) tr p(1) by (simp add: ht_lookup_def del: upt_Suc)
  moreover have "nt_lookup n k nt = Inr (fst (fold (lookup_step n) [0..<Suc k] (nt, None)))" using assms(2,3) by (simp add: nt_lookup_def del: upt_Suc)
  ultimately show ?thesis using p(2,3) by blast
qed

theorem hashtable_lookup_witness:
  "\<exists>t :: (nat, nat, nat) hashtable. new_hashtable (HashtableOptions 16) = Inr t \<and>
     (\<exists>t' p nt'. ht_lookup [Component 8 [97], Component 8 [98]] 2 t = Inr (t', Some p) \<and>
        nt_lookup [Component 8 [97], Component 8 [98]] 2 [] = Inr nt' \<and> represents t' (map_of nt') \<and>
        node_at t' p (take 2 [Component 8 [97], Component 8 [98]]))"
proof -
  obtain t :: "(nat, nat, nat) hashtable" where t: "new_hashtable (HashtableOptions 16) = Inr t" "represents t Map.empty"
    using new_hashtable_represents [of "HashtableOptions 16"] by (auto simp: options_ok_def HashtableOptions_def)
  then show ?thesis using hashtable_lookup [of t "[]" 2 "[Component 8 [97], Component 8 [98]]"] by (simp add: getMaxDepth_def)
qed

text \<open>
  C28: A search in a hashtable that represents a map never fails: it finds a node exactly when the map has
  the prefix, and that node holds the entry of the map.
\<close>

theorem hashtable_find:
  assumes "represents t m" "k \<le> length n"
  shows "\<exists>r. ht_find n k t = Inr r \<and> (r = None \<longleftrightarrow> m (take k n) = None) \<and>
    (\<forall>p. r = Some p \<longrightarrow> (\<exists>nd. ht_heap t p = Some nd \<and> nd_name nd = take k n \<and> m (take k n) = Some (nd_entry nd)))"
  by (rule ht_find_refines [OF assms])

theorem hashtable_find_witness:
  "\<exists>t :: (nat, nat, nat) hashtable. new_hashtable (HashtableOptions 16) = Inr t \<and> (\<exists>r. ht_find [Component 8 [97]] 1 t = Inr r \<and> r = None)"
proof -
  obtain t :: "(nat, nat, nat) hashtable" where t: "new_hashtable (HashtableOptions 16) = Inr t" "represents t Map.empty"
    using new_hashtable_represents [of "HashtableOptions 16"] by (auto simp: options_ok_def HashtableOptions_def)
  then show ?thesis using hashtable_find [OF t(2), of 1 "[Component 8 [97]]"] by auto
qed

text \<open>
  C29: Erasing a node whose entry has no parent succeeds: the node is unlinked without a failed assertion,
  its memory is released, the hashtable represents the map without the name, and every other node
  keeps its address, name and entry, also when the buckets are reorganised.
\<close>

theorem hashtable_erase:
  assumes "represents t m" "ht_heap t p = Some nd" "nte_parent (nd_entry nd) = None"
  shows "\<exists>t'. ht_erase p t = Inr t' \<and> represents t' (m(nd_name nd := None)) \<and> keeps_nodes t t' {p} \<and> ht_heap t' p = None"
  by (rule ht_erase_refines [OF assms]) blast

theorem hashtable_erase_witness:
  "\<exists>(t :: (nat, nat, nat) hashtable) nd. represents t [[] \<mapsto> new_nte] \<and> ht_heap t 0 = Some nd \<and>
     (\<exists>t'. ht_erase 0 t = Inr t' \<and> represents t' ([[] \<mapsto> new_nte](nd_name nd := None)) \<and> keeps_nodes t t' {0} \<and> ht_heap t' 0 = None)"
proof -
  let ?nd = "new_node 0 [] :: (nat, nat, nat) ht_node"
  let ?t = "computeThresholds \<lparr>ht_heap = [0 \<mapsto> ?nd], ht_fresh = 1, ht_buckets = [Some 0], ht_options = HashtableOptions 1, ht_size = 1,
        ht_expandThreshold = 0, ht_shrinkThreshold = 0\<rparr>"
  have "linked [0 \<mapsto> ?nd] [0]" by (auto simp: linked_def new_node_def Cons_eq_append_conv)
  then have "ht_rel ?t [[0]]"
    by (simp add: ht_rel_def lists_ok_def bucketed_def computeThresholds_def options_ok_def HashtableOptions_def computeHash_def new_node_def)
  then have r: "represents ?t [[] \<mapsto> new_nte]"
    by (rule representsI) (auto simp: computeThresholds_def node_info_def new_node_def)
  have nd: "ht_heap ?t 0 = Some ?nd" by (simp add: computeThresholds_def)
  have "nte_parent (nd_entry ?nd) = None" by (simp add: new_node_def new_nte_def)
  from hashtable_erase [OF r nd this] r nd show ?thesis by blast
qed

end
