(* ===== verification/Data_Codec.thy ===== *)
theory Data_Codec
  imports Interest_Codec
begin

text \<open>
  The wire format of Data (\<open>ndn-cxx/data.cpp\<close>) with its parts: MetaInfo (\<open>meta-info.cpp\<close>), KeyLocator
  (\<open>key-locator.cpp\<close>) and SignatureInfo (\<open>signature-info.cpp\<close>).  A decoder that writes into an existing
  object takes that object as an argument.  The packet the forwarder works on is the view
  \<open>to_data\<close>, whose implicit digest is the SHA-256 of the whole element.
\<close>

section \<open>MetaInfo\<close>

definition TLV_Data :: nat where "TLV_Data = 6"
definition TLV_MetaInfo :: nat where "TLV_MetaInfo = 20"
definition TLV_Content :: nat where "TLV_Content = 21"
definition TLV_SignatureInfo :: nat where "TLV_SignatureInfo = 22"
definition TLV_SignatureValue :: nat where "TLV_SignatureValue = 23"
definition TLV_ContentType :: nat where "TLV_ContentType = 24"
definition TLV_FreshnessPeriod :: nat where "TLV_FreshnessPeriod = 25"
definition TLV_FinalBlockId :: nat where "TLV_FinalBlockId = 26"
definition TLV_SignatureType :: nat where "TLV_SignatureType = 27"
definition TLV_KeyLocator :: nat where "TLV_KeyLocator = 28"
definition TLV_KeyDigest :: nat where "TLV_KeyDigest = 29"
definition TLV_SignatureNonce :: nat where "TLV_SignatureNonce = 38"
definition TLV_ValidityPeriod :: nat where "TLV_ValidityPeriod = 253"

lemmas tlv_data_defs = TLV_Name_def TLV_Data_def TLV_MetaInfo_def TLV_Content_def TLV_SignatureInfo_def TLV_SignatureValue_def TLV_ContentType_def
  TLV_FreshnessPeriod_def TLV_FinalBlockId_def TLV_SignatureType_def TLV_KeyLocator_def TLV_KeyDigest_def TLV_SignatureNonce_def
  TLV_ValidityPeriod_def

definition readNonNegativeIntegerAs :: "nat \<Rightarrow> block \<Rightarrow> nat res" where
  "readNonNegativeIntegerAs limit b =
     bind_res (readNonNegativeInteger (length (block_value b)) (block_value b)) (\<lambda>(n, _).
     if unat n > limit then Inl TlvError else Inr (unat n))"

text \<open>\<open>Block(buffer, begin, end, verifyLength)\<close> and \<open>Block::blockFromValue\<close>.\<close>

definition blockFromBytes :: "bytes \<Rightarrow> block res" where
  "blockFromBytes bs =
     (case readType bs of None \<Rightarrow> Inl TlvError
      | Some (t, r1) \<Rightarrow> (case readVarNumber r1 of None \<Rightarrow> Inl TlvError
      | Some (len, r2) \<Rightarrow> if unat len \<noteq> length r2 then Inl TlvError else Inr (Block t r2)))"

definition blockFromValue :: "block \<Rightarrow> block res" where
  "blockFromValue b = (if length (block_value b) = 0 then Inl TlvError else blockFromBytes (block_value b))"

record meta_info =
  mi_type :: nat
  mi_freshnessPeriod :: int
  mi_finalBlockId :: "component option"
  mi_appMetaInfo :: "wire_block list"

definition new_meta_info :: meta_info where
  "new_meta_info = \<lparr>mi_type = 0, mi_freshnessPeriod = 0, mi_finalBlockId = None, mi_appMetaInfo = []\<rparr>"

definition setFreshnessPeriod :: "int \<Rightarrow> meta_info \<Rightarrow> meta_info res" where
  "setFreshnessPeriod f mi = (if f < 0 then Inl InvalidArgument else Inr (mi\<lparr>mi_freshnessPeriod := f\<rparr>))"

definition addAppMetaInfo :: "wire_block \<Rightarrow> meta_info \<Rightarrow> meta_info res" where
  "addAppMetaInfo w mi =
     (if \<not> (128 \<le> block_type (fst w) \<and> block_type (fst w) \<le> 252) then Inl TlvError
      else Inr (mi\<lparr>mi_appMetaInfo := mi_appMetaInfo mi @ [w]\<rparr>))"

fun removeAppMetaInfo_loop :: "nat \<Rightarrow> wire_block list \<Rightarrow> wire_block list \<times> bool" where
  "removeAppMetaInfo_loop t [] = ([], False)"
| "removeAppMetaInfo_loop t (w # ws) =
     (if block_type (fst w) = t then (ws, True) else let (ws', b) = removeAppMetaInfo_loop t ws in (w # ws', b))"

definition removeAppMetaInfo :: "nat \<Rightarrow> meta_info \<Rightarrow> meta_info \<times> bool" where
  "removeAppMetaInfo t mi =
     (let (ws, b) = removeAppMetaInfo_loop t (mi_appMetaInfo mi) in (mi\<lparr>mi_appMetaInfo := ws\<rparr>, b))"

definition findAppMetaInfo :: "nat \<Rightarrow> meta_info \<Rightarrow> wire_block option" where
  "findAppMetaInfo t mi = find (\<lambda>w. block_type (fst w) = t) (mi_appMetaInfo mi)"

definition metainfo_wireEncode :: "meta_info \<Rightarrow> bytes" where
  "metainfo_wireEncode mi = makeBinaryBlock TLV_MetaInfo
     ((if mi_type mi \<noteq> 0 then makeNonNegativeIntegerBlock TLV_ContentType (word_of_nat (mi_type mi)) else []) @
      (if mi_freshnessPeriod mi \<noteq> 0 then makeNonNegativeIntegerBlock TLV_FreshnessPeriod (word_of_int (mi_freshnessPeriod mi)) else []) @
      (case mi_finalBlockId mi of Some c \<Rightarrow> makeBinaryBlock TLV_FinalBlockId (comp_wire c) | None \<Rightarrow> []) @
      concat (map snd (mi_appMetaInfo mi)))"

definition next_is :: "nat \<Rightarrow> wire_block list \<Rightarrow> bool" where
  "next_is t ws = (case ws of [] \<Rightarrow> False | w # _ \<Rightarrow> block_type (fst w) = t)"

definition decode_contentType :: "meta_info \<times> wire_block list \<Rightarrow> (meta_info \<times> wire_block list) res" where
  "decode_contentType s =
     (let mi = fst s; val = snd s in
      if next_is TLV_ContentType val
      then bind_res (readNonNegativeIntegerAs (2 ^ 32 - 1) (fst (hd val))) (\<lambda>t. Inr (mi\<lparr>mi_type := t\<rparr>, tl val))
      else Inr (mi\<lparr>mi_type := 0\<rparr>, val))"

definition decode_freshnessPeriod :: "meta_info \<times> wire_block list \<Rightarrow> (meta_info \<times> wire_block list) res" where
  "decode_freshnessPeriod s =
     (let mi = fst s; val = snd s in
      if next_is TLV_FreshnessPeriod val
      then bind_res (readNonNegativeInteger (length (block_value (fst (hd val)))) (block_value (fst (hd val))))
             (\<lambda>(n, _). Inr (mi\<lparr>mi_freshnessPeriod := sint n\<rparr>, tl val))
      else Inr (mi\<lparr>mi_freshnessPeriod := 0\<rparr>, val))"

definition decode_finalBlockId :: "meta_info \<times> wire_block list \<Rightarrow> (meta_info \<times> wire_block list) res" where
  "decode_finalBlockId s =
     (let mi = fst s; val = snd s in
      if next_is TLV_FinalBlockId val
      then bind_res (blockFromValue (fst (hd val))) (\<lambda>b.
           bind_res (ensureValid (Component (block_type b) (block_value b))) (\<lambda>c. Inr (mi\<lparr>mi_finalBlockId := Some c\<rparr>, tl val)))
      else Inr (mi\<lparr>mi_finalBlockId := None\<rparr>, val))"

definition metainfo_wireDecode :: "block \<Rightarrow> meta_info \<Rightarrow> meta_info res" where
  "metainfo_wireDecode wire mi =
     bind_res (parse_wire (block_value wire)) (\<lambda>val.
     bind_res (decode_contentType (mi, val)) (\<lambda>s.
     bind_res (decode_freshnessPeriod s) (\<lambda>s.
     bind_res (decode_finalBlockId s) (\<lambda>(mi, val).
     Inr (mi\<lparr>mi_appMetaInfo := mi_appMetaInfo mi @ val\<rparr>)))))"

section \<open>KeyLocator and SignatureInfo\<close>

datatype key_locator = KL_None | KL_Name name | KL_KeyDigest wire_block | KL_Other nat

definition keylocator_wireEncode :: "key_locator \<Rightarrow> bytes res" where
  "keylocator_wireEncode kl =
     bind_res (case kl of KL_None \<Rightarrow> Inr [] | KL_Name n \<Rightarrow> Inr (name_wireEncode n) | KL_KeyDigest w \<Rightarrow> Inr (snd w) | KL_Other _ \<Rightarrow> Inl TlvError)
       (\<lambda>v. Inr (makeBinaryBlock TLV_KeyLocator v))"

definition keylocator_wireDecode :: "block \<Rightarrow> key_locator res" where
  "keylocator_wireDecode wire =
     (if block_type wire \<noteq> TLV_KeyLocator then Inl TlvError
      else bind_res (parse_wire (block_value wire)) (\<lambda>es.
      case es of
        [] \<Rightarrow> Inr KL_None
      | w # _ \<Rightarrow> if block_type (fst w) = TLV_Name then bind_res (name_wireDecode (fst w)) (\<lambda>n. Inr (KL_Name n))
                 else if block_type (fst w) = TLV_KeyDigest then Inr (KL_KeyDigest w)
                 else Inr (KL_Other (block_type (fst w)))))"

text \<open>\<open>m_type\<close> is -1 in an object without a signature type.\<close>

record signature_info =
  si_type :: int
  si_keyLocator :: "key_locator option"
  si_otherTlvs :: "wire_block list"

definition new_signature_info :: signature_info where
  "new_signature_info = \<lparr>si_type = -1, si_keyLocator = None, si_otherTlvs = []\<rparr>"

definition siginfo_wireEncode :: "nat \<Rightarrow> signature_info \<Rightarrow> bytes res" where
  "siginfo_wireEncode type si =
     (if si_type si = -1 then Inl TlvError
      else bind_res (case si_keyLocator si of None \<Rightarrow> Inr [] | Some kl \<Rightarrow> keylocator_wireEncode kl) (\<lambda>k.
      Inr (makeBinaryBlock type (makeNonNegativeIntegerBlock TLV_SignatureType (word_of_int (si_type si)) @ k @ concat (map snd (si_otherTlvs si))))))"

definition siginfo_step :: "wire_block \<Rightarrow> signature_info \<times> nat \<Rightarrow> (signature_info \<times> nat) res" where
  "siginfo_step w s =
     (let t = block_type (fst w); si = fst s; lastCriticalElement = snd s in
      if t = TLV_SignatureType then
        (if lastCriticalElement > 0 then Inl TlvError
         else bind_res (readNonNegativeIntegerAs (2 ^ 16 - 1) (fst w)) (\<lambda>n. Inr (si\<lparr>si_type := int n\<rparr>, 1)))
      else if t = TLV_KeyLocator then
        (if lastCriticalElement > 1 then Inl TlvError
         else bind_res (keylocator_wireDecode (fst w)) (\<lambda>k. Inr (si\<lparr>si_keyLocator := Some k\<rparr>, 2)))
      else if t = TLV_SignatureNonce then
        (if length (block_value (fst w)) < 1 then Inl TlvError
         else Inr (si\<lparr>si_otherTlvs := si_otherTlvs si @ [w]\<rparr>, lastCriticalElement))
      else if t = TLV_ValidityPeriod then Inr (si\<lparr>si_otherTlvs := si_otherTlvs si @ [w]\<rparr>, lastCriticalElement)
      else if isCriticalType t then Inl TlvError
      else Inr (si\<lparr>si_otherTlvs := si_otherTlvs si @ [w]\<rparr>, lastCriticalElement))"

definition siginfo_wireDecode :: "nat \<Rightarrow> block \<Rightarrow> signature_info res" where
  "siginfo_wireDecode type wire =
     bind_res (parse_wire (block_value wire)) (\<lambda>es.
     if block_type wire \<noteq> type then Inl TlvError
     else bind_res (fold_res siginfo_step es (new_signature_info, 0)) (\<lambda>(si, _).
     if si_type si = -1 then Inl TlvError else Inr si))"

definition findOtherTlv :: "nat \<Rightarrow> signature_info \<Rightarrow> wire_block option" where
  "findOtherTlv t si = find (\<lambda>w. block_type (fst w) = t) (si_otherTlvs si)"

fun replace_tlv :: "wire_block \<Rightarrow> wire_block list \<Rightarrow> wire_block list" where
  "replace_tlv w [] = [w]"
| "replace_tlv w (v # vs) =
     (if block_type (fst v) = block_type (fst w) then (if fst v \<noteq> fst w then w else v) # vs else v # replace_tlv w vs)"

definition addCustomTlv :: "wire_block \<Rightarrow> signature_info \<Rightarrow> signature_info" where
  "addCustomTlv w si = si\<lparr>si_otherTlvs := replace_tlv w (si_otherTlvs si)\<rparr>"

definition removeCustomTlv :: "nat \<Rightarrow> signature_info \<Rightarrow> signature_info" where
  "removeCustomTlv t si = si\<lparr>si_otherTlvs := filter (\<lambda>w. block_type (fst w) \<noteq> t) (si_otherTlvs si)\<rparr>"

section \<open>Data\<close>

text \<open>An invalid \<open>Block\<close> is \<open>None\<close>; its type is 0 and its value empty.\<close>

record data_packet =
  dp_name :: name
  dp_metaInfo :: meta_info
  dp_content :: "wire_block option"
  dp_signatureInfo :: signature_info
  dp_signatureValue :: "wire_block option"

definition new_data :: "name \<Rightarrow> data_packet" where
  "new_data n = \<lparr>dp_name = n, dp_metaInfo = new_meta_info, dp_content = None, dp_signatureInfo = new_signature_info, dp_signatureValue = None\<rparr>"

definition prependBlock :: "wire_block option \<Rightarrow> bytes" where
  "prependBlock b = (case b of Some w \<Rightarrow> snd w | None \<Rightarrow> makeBinaryBlock Invalid [])"

definition data_wireEncode :: "bool \<Rightarrow> data_packet \<Rightarrow> bytes res" where
  "data_wireEncode wantUnsignedPortionOnly d =
     (if \<not> wantUnsignedPortionOnly \<and> si_type (dp_signatureInfo d) = -1 then Inl TlvError
      else bind_res (siginfo_wireEncode TLV_SignatureInfo (dp_signatureInfo d)) (\<lambda>s.
      let unsigned_portion = name_wireEncode (dp_name d) @ metainfo_wireEncode (dp_metaInfo d) @
            (case dp_content d of Some w \<Rightarrow> snd w | None \<Rightarrow> []) @ s
      in Inr (if wantUnsignedPortionOnly then unsigned_portion
              else makeBinaryBlock TLV_Data (unsigned_portion @ prependBlock (dp_signatureValue d)))))"

text \<open>The encoding of signed Data from the buffer with the unsigned portion and the bits of the signature.\<close>

definition data_wireEncode_signature :: "bytes \<Rightarrow> bytes \<Rightarrow> bytes" where
  "data_wireEncode_signature buffer signature =
     makeBinaryBlock TLV_Data (buffer @ makeBinaryBlock TLV_SignatureValue signature)"

definition data_step :: "wire_block \<Rightarrow> data_packet \<times> nat \<Rightarrow> (data_packet \<times> nat) res" where
  "data_step w s =
     (let t = block_type (fst w); d = fst s; lastElement = snd s in
      if t = TLV_MetaInfo then
        (if lastElement \<ge> 2 then Inl TlvError
         else bind_res (metainfo_wireDecode (fst w) (dp_metaInfo d)) (\<lambda>mi. Inr (d\<lparr>dp_metaInfo := mi\<rparr>, 2)))
      else if t = TLV_Content then
        (if lastElement \<ge> 3 then Inl TlvError else Inr (d\<lparr>dp_content := Some w\<rparr>, 3))
      else if t = TLV_SignatureInfo then
        (if lastElement \<ge> 4 then Inl TlvError
         else bind_res (siginfo_wireDecode TLV_SignatureInfo (fst w)) (\<lambda>si. Inr (d\<lparr>dp_signatureInfo := si\<rparr>, 4)))
      else if t = TLV_SignatureValue then
        (if lastElement \<ge> 5 then Inl TlvError else Inr (d\<lparr>dp_signatureValue := Some w\<rparr>, 5))
      else if isCriticalType t then Inl TlvError
      else Inr s)"

definition data_wireDecode :: "block \<Rightarrow> data_packet res" where
  "data_wireDecode wire =
     (if block_type wire \<noteq> TLV_Data then Inl TlvError
      else bind_res (parse_wire (block_value wire)) (\<lambda>es.
      if es = [] \<or> block_type (fst (hd es)) \<noteq> TLV_Name then Inl TlvError
      else bind_res (name_wireDecode (fst (hd es))) (\<lambda>n.
      bind_res (fold_res data_step (tl es) (new_data n, 1)) (\<lambda>(d, _).
      if si_type (dp_signatureInfo d) = -1 then Inl TlvError
      else if dp_signatureValue d = None then Inl TlvError
      else Inr d))))"

definition data_setContent :: "wire_block \<Rightarrow> data_packet \<Rightarrow> data_packet res" where
  "data_setContent w d =
     (if block_type (fst w) = Invalid then Inl InvalidArgument
      else if block_type (fst w) = TLV_Content then Inr (d\<lparr>dp_content := Some w\<rparr>)
      else Inr (d\<lparr>dp_content := Some (canonical (Block TLV_Content (snd w)))\<rparr>))"

definition to_data :: "(bytes \<Rightarrow> bytes) \<Rightarrow> bytes \<Rightarrow> data_packet \<Rightarrow> data" where
  "to_data sha256 wire d =
     \<lparr>d_name = dp_name d, d_freshnessPeriod = mi_freshnessPeriod (dp_metaInfo d), d_digest = sha256 wire,
      d_incomingFaceId = None, d_pitToken = None, d_cachePolicy = None\<rparr>"

section \<open>Encoding and decoding back: MetaInfo\<close>

definition meta_ok :: "meta_info \<Rightarrow> bool" where
  "meta_ok mi \<longleftrightarrow> mi_type mi < 2 ^ 32 \<and> - (2 ^ 63) \<le> mi_freshnessPeriod mi \<and> mi_freshnessPeriod mi < 2 ^ 63 \<and>
     (\<forall>c. mi_finalBlockId mi = Some c \<longrightarrow> valid_component c) \<and>
     list_all (\<lambda>w. wire_ok w \<and> block_type (fst w) \<notin> {TLV_ContentType, TLV_FreshnessPeriod, TLV_FinalBlockId}) (mi_appMetaInfo mi)"

definition number_block :: "nat \<Rightarrow> 64 word \<Rightarrow> block" where
  "number_block t w = Block t (writeNonNegativeInteger w)"

lemma number_block_wire: "block_wire (number_block t w) = makeNonNegativeIntegerBlock t w"
  by (simp add: number_block_def block_wire_def makeBinaryBlock_def makeNonNegativeIntegerBlock_def length_writeNonNegativeInteger)

lemma number_block_read:
  "readNonNegativeInteger (length (block_value (number_block t w))) (block_value (number_block t w)) = Inr (w, [])"
  using readNonNegativeInteger_write [of w "[]"] by (simp add: number_block_def length_writeNonNegativeInteger)

lemma number_block_readAs: "unat w \<le> limit \<Longrightarrow> readNonNegativeIntegerAs limit (number_block t w) = Inr (unat w)"
  by (simp add: readNonNegativeIntegerAs_def number_block_read)

lemma number_block_type [simp]: "block_type (number_block t w) = t"
  by (simp add: number_block_def)

definition final_block :: "component \<Rightarrow> block" where
  "final_block c = Block TLV_FinalBlockId (comp_wire c)"

lemma blockFromValue_final: "valid_component c \<Longrightarrow> blockFromValue (final_block c) = Inr (Block (comp_type c) (comp_value c))"
proof -
  assume c: "valid_component c"
  have b: "0 < comp_type c" "comp_type c < 2 ^ 32" "length (comp_value c) < 2 ^ 64" using valid_component_bounds [OF c] by auto
  have w: "comp_wire c = writeVarNumber (word_of_nat (comp_type c)) @ writeVarNumber (word_of_nat (length (comp_value c))) @ comp_value c"
    by (simp add: comp_wire_block block_wire_def makeBinaryBlock_def)
  have "length (comp_wire c) \<noteq> 0" using readVarNumber_progress by (simp add: w) (metis append_Nil readVarNumber_writeVarNumber less_irrefl)
  then show ?thesis using b
    by (simp add: blockFromValue_def blockFromBytes_def final_block_def w readType_writeVarNumber unat_of_nat)
qed

definition meta_elements :: "meta_info \<Rightarrow> wire_block list" where
  "meta_elements mi =
     (if mi_type mi \<noteq> 0 then [canonical (number_block TLV_ContentType (word_of_nat (mi_type mi)))] else []) @
     (if mi_freshnessPeriod mi \<noteq> 0 then [canonical (number_block TLV_FreshnessPeriod (word_of_int (mi_freshnessPeriod mi)))] else []) @
     (case mi_finalBlockId mi of Some c \<Rightarrow> [canonical (final_block c)] | None \<Rightarrow> []) @ mi_appMetaInfo mi"

definition meta_block :: "meta_info \<Rightarrow> block" where
  "meta_block mi = Block TLV_MetaInfo (concat (map snd (meta_elements mi)))"

lemma meta_block_wire: "block_wire (meta_block mi) = metainfo_wireEncode mi"
  by (simp add: meta_block_def metainfo_wireEncode_def meta_elements_def canonical_def number_block_wire block_wire_def [of "Block _ _"]
      final_block_def split: option.splits)

lemma meta_elements_ok:
  assumes "meta_ok mi" "length (block_value (meta_block mi)) < 2 ^ 64"
  shows "parse_wire (block_value (meta_block mi)) = Inr (meta_elements mi)"
proof -
  have l: "length (concat (map snd (meta_elements mi))) < 2 ^ 64" using assms(2) by (simp add: meta_block_def)
  have "wire_ok w" if w: "w \<in> set (meta_elements mi)" for w
  proof (cases "w \<in> set (mi_appMetaInfo mi)")
    case False
    then obtain b where "w = canonical b" "0 < block_type b" "block_type b < 2 ^ 32"
      using w by (auto simp: meta_elements_def final_block_def tlv_data_defs split: if_splits option.splits)
    then show ?thesis using canonical_ok [OF _ l, of b] w by simp
  qed (use assms(1) in \<open>auto simp: meta_ok_def list_all_iff\<close>)
  then show ?thesis unfolding meta_block_def block.sel by (intro parse_wire_wires) (simp add: list_all_iff)
qed

lemma next_is_app: "meta_ok mi \<Longrightarrow> t \<in> {TLV_ContentType, TLV_FreshnessPeriod, TLV_FinalBlockId} \<Longrightarrow> \<not> next_is t (mi_appMetaInfo mi)"
  by (cases "mi_appMetaInfo mi") (auto simp: next_is_def meta_ok_def)

lemma metainfo_decode_encode:
  assumes "meta_ok mi" "length (block_value (meta_block mi)) < 2 ^ 64"
  shows "metainfo_wireDecode (meta_block mi) m0 = Inr (mi\<lparr>mi_appMetaInfo := mi_appMetaInfo m0 @ mi_appMetaInfo mi\<rparr>)"
proof -
  note ok = assms(1) [unfolded meta_ok_def] and app = next_is_app [OF assms(1)]
  let ?a = "mi_appMetaInfo mi"
  define fb where "fb = (case mi_finalBlockId mi of Some c \<Rightarrow> [canonical (final_block c)] | None \<Rightarrow> []) @ ?a"
  define fp where "fp = (if mi_freshnessPeriod mi \<noteq> 0 then [canonical (number_block TLV_FreshnessPeriod (word_of_int (mi_freshnessPeriod mi)))] else []) @ fb"
  have es: "meta_elements mi = (if mi_type mi \<noteq> 0 then [canonical (number_block TLV_ContentType (word_of_nat (mi_type mi)))] else []) @ fp"
    by (simp add: meta_elements_def fp_def fb_def)
  have nb: "\<not> next_is TLV_ContentType fb" "\<not> next_is TLV_FreshnessPeriod fb"
    using app by (auto simp: fb_def next_is_def final_block_def canonical_def tlv_data_defs split: option.splits)
  have np: "\<not> next_is TLV_ContentType fp"
    using nb(1) by (auto simp: fp_def next_is_def canonical_def tlv_data_defs)
  have "unat (word_of_nat (mi_type mi) :: 64 word) = mi_type mi" using ok by (simp add: unat_of_nat)
  then have 1: "decode_contentType (m, meta_elements mi) = Inr (m\<lparr>mi_type := mi_type mi\<rparr>, fp)" for m
    using np ok number_block_readAs [of "word_of_nat (mi_type mi)" "2 ^ 32 - 1" TLV_ContentType]
    by (auto simp: decode_contentType_def es next_is_def canonical_def)
  have "sint (word_of_int (mi_freshnessPeriod mi) :: 64 word) = mi_freshnessPeriod mi"
    using ok by (simp add: sint_sbintrunc' signed_take_bit_int_eq_self)
  then have 2: "decode_freshnessPeriod (m, fp) = Inr (m\<lparr>mi_freshnessPeriod := mi_freshnessPeriod mi\<rparr>, fb)" for m
    using nb(2) number_block_read [of TLV_FreshnessPeriod "word_of_int (mi_freshnessPeriod mi)"]
    by (auto simp: decode_freshnessPeriod_def fp_def next_is_def canonical_def)
  have 3: "decode_finalBlockId (m, fb) = Inr (m\<lparr>mi_finalBlockId := mi_finalBlockId mi\<rparr>, ?a)" for m
  proof (cases "mi_finalBlockId mi")
    case None
    then show ?thesis using app by (simp add: decode_finalBlockId_def fb_def)
  next
    case (Some c)
    then have "valid_component c" using ok by blast
    then have "blockFromValue (final_block c) = Inr (Block (comp_type c) (comp_value c))" "ensureValid c = Inr c"
      using blockFromValue_final by (simp_all add: valid_component_def)
    then show ?thesis using Some by (simp add: decode_finalBlockId_def fb_def next_is_def canonical_def) (simp add: final_block_def)
  qed
  show ?thesis using meta_elements_ok [OF assms] by (simp add: metainfo_wireDecode_def 1 2 3)
qed

section \<open>Encoding and decoding back: SignatureInfo\<close>

definition locator_ok :: "key_locator \<Rightarrow> bool" where
  "locator_ok kl = (case kl of KL_None \<Rightarrow> True | KL_Name n \<Rightarrow> list_all comp_ok n
     | KL_KeyDigest w \<Rightarrow> wire_ok w \<and> block_type (fst w) = TLV_KeyDigest | KL_Other _ \<Rightarrow> False)"

definition locator_elements :: "key_locator \<Rightarrow> wire_block list" where
  "locator_elements kl = (case kl of KL_Name n \<Rightarrow> [canonical (name_block n)] | KL_KeyDigest w \<Rightarrow> [w] | _ \<Rightarrow> [])"

definition locator_block :: "key_locator \<Rightarrow> block" where
  "locator_block kl = Block TLV_KeyLocator (concat (map snd (locator_elements kl)))"

lemma keylocator_encode: "locator_ok kl \<Longrightarrow> keylocator_wireEncode kl = Inr (block_wire (locator_block kl))"
  by (cases kl) (simp_all add: locator_ok_def keylocator_wireEncode_def locator_block_def locator_elements_def block_wire_def [of "Block _ _"]
      canonical_def name_block_wire)

lemma keylocator_decode:
  assumes "locator_ok kl" "length (block_value (locator_block kl)) < 2 ^ 64"
  shows "keylocator_wireDecode (locator_block kl) = Inr kl"
proof -
  have l: "length (concat (map snd (locator_elements kl))) < 2 ^ 64" using assms(2) by (simp add: locator_block_def)
  have "list_all wire_ok (locator_elements kl)"
  proof (cases kl)
    case (KL_Name n)
    then have "wire_ok (canonical (name_block n))"
      using l by (intro canonical_ok [OF _ l]) (simp_all add: locator_elements_def name_block_def TLV_Name_def)
    then show ?thesis by (simp add: KL_Name locator_elements_def)
  qed (use assms(1) in \<open>simp_all add: locator_ok_def locator_elements_def\<close>)
  then have "parse_wire (block_value (locator_block kl)) = Inr (locator_elements kl)"
    unfolding locator_block_def block.sel by (rule parse_wire_wires)
  then show ?thesis
    using assms(1) name_block_decode
    by (cases kl) (simp_all add: keylocator_wireDecode_def locator_block_def locator_elements_def locator_ok_def canonical_def
        TLV_Name_def TLV_KeyDigest_def name_block_def [of _])
qed

definition other_ok :: "wire_block \<Rightarrow> bool" where
  "other_ok w \<longleftrightarrow> wire_ok w \<and>
     (if block_type (fst w) = TLV_SignatureNonce then block_value (fst w) \<noteq> []
      else block_type (fst w) = TLV_ValidityPeriod \<or> \<not> isCriticalType (block_type (fst w)))"

definition siginfo_ok :: "signature_info \<Rightarrow> bool" where
  "siginfo_ok si \<longleftrightarrow> 0 \<le> si_type si \<and> si_type si < 2 ^ 16 \<and> (\<forall>kl. si_keyLocator si = Some kl \<longrightarrow> locator_ok kl) \<and>
     list_all other_ok (si_otherTlvs si)"

definition siginfo_elements :: "signature_info \<Rightarrow> wire_block list" where
  "siginfo_elements si = canonical (number_block TLV_SignatureType (word_of_int (si_type si))) #
     (case si_keyLocator si of Some kl \<Rightarrow> [canonical (locator_block kl)] | None \<Rightarrow> []) @ si_otherTlvs si"

definition siginfo_block :: "nat \<Rightarrow> signature_info \<Rightarrow> block" where
  "siginfo_block t si = Block t (concat (map snd (siginfo_elements si)))"

lemma siginfo_encode: "siginfo_ok si \<Longrightarrow> siginfo_wireEncode t si = Inr (block_wire (siginfo_block t si))"
  using keylocator_encode
  by (cases "si_keyLocator si") (auto simp: siginfo_ok_def siginfo_wireEncode_def siginfo_block_def siginfo_elements_def canonical_def
      number_block_wire block_wire_def [of "Block _ _"])

lemma siginfo_others:
  "list_all other_ok ws \<Longrightarrow> fold_res siginfo_step ws (si, k) = Inr (si\<lparr>si_otherTlvs := si_otherTlvs si @ ws\<rparr>, k)"
proof (induction ws arbitrary: si)
  case (Cons w ws)
  then have "siginfo_step w (si, k) = Inr (si\<lparr>si_otherTlvs := si_otherTlvs si @ [w]\<rparr>, k)"
    by (auto simp: siginfo_step_def Let_def other_ok_def tlv_data_defs isCriticalType_def split: if_splits)
  then show ?case using Cons by simp
qed simp

lemma siginfo_decode:
  assumes "siginfo_ok si" "length (block_value (siginfo_block t si)) < 2 ^ 64"
  shows "siginfo_wireDecode t (siginfo_block t si) = Inr si"
proof -
  note ok = assms(1) [unfolded siginfo_ok_def]
  have l: "length (concat (map snd (siginfo_elements si))) < 2 ^ 64" using assms(2) by (simp add: siginfo_block_def)
  have "wire_ok w" if w: "w \<in> set (siginfo_elements si)" for w
  proof (cases "w \<in> set (si_otherTlvs si)")
    case False
    then obtain b where "w = canonical b" "0 < block_type b" "block_type b < 2 ^ 32"
      using w by (auto simp: siginfo_elements_def locator_block_def tlv_data_defs split: option.splits)
    then show ?thesis using canonical_ok [OF _ l, of b] w by simp
  qed (use ok in \<open>auto simp: other_ok_def list_all_iff\<close>)
  then have es: "parse_wire (concat (map snd (siginfo_elements si))) = Inr (siginfo_elements si)"
    by (intro parse_wire_wires) (simp add: list_all_iff)
  let ?n = "word_of_int (si_type si) :: 64 word"
  have n: "int (unat ?n) = si_type si" using ok by (simp add: take_bit_int_eq_self unsigned_of_int)
  have "unat ?n = nat (si_type si)" using n by (metis nat_int)
  then have "unat ?n \<le> 2 ^ 16 - 1" using ok by (simp add: nat_le_iff)
  from number_block_readAs [OF this, of TLV_SignatureType] n
  have 1: "siginfo_step (canonical (number_block TLV_SignatureType ?n)) (new_signature_info, 0) =
      Inr (new_signature_info\<lparr>si_type := si_type si\<rparr>, 1)"
    by (simp add: siginfo_step_def canonical_def)
  have 2: "\<exists>k. fold_res siginfo_step (case si_keyLocator si of Some kl \<Rightarrow> [canonical (locator_block kl)] | None \<Rightarrow> [])
      (new_signature_info\<lparr>si_type := si_type si\<rparr>, 1) = Inr (new_signature_info\<lparr>si_type := si_type si, si_keyLocator := si_keyLocator si\<rparr>, k)"
  proof (cases "si_keyLocator si")
    case (Some kl)
    have "canonical (locator_block kl) \<in> set (siginfo_elements si)" by (simp add: siginfo_elements_def Some)
    then have "length (block_value (locator_block kl)) < 2 ^ 64"
      using length_concat_member [of "canonical (locator_block kl)" "siginfo_elements si" snd] length_block_wire [of "locator_block kl"] l
      by (simp add: canonical_def)
    then show ?thesis using keylocator_decode [of kl] ok Some
      by (simp add: siginfo_step_def canonical_def locator_block_def tlv_data_defs)
  qed (simp add: new_signature_info_def)
  then obtain k where k: "fold_res siginfo_step (siginfo_elements si) (new_signature_info, 0) = Inr (si, k)"
    using siginfo_others [of "si_otherTlvs si"] ok 1
    by (auto simp: siginfo_elements_def new_signature_info_def)
  then show ?thesis using es ok by (simp add: siginfo_wireDecode_def siginfo_block_def)
qed

section \<open>Encoding and decoding back: Data\<close>

definition data_packet_ok :: "data_packet \<Rightarrow> bool" where
  "data_packet_ok d \<longleftrightarrow> list_all comp_ok (dp_name d) \<and> meta_ok (dp_metaInfo d) \<and> siginfo_ok (dp_signatureInfo d) \<and>
     (\<forall>w. dp_content d = Some w \<longrightarrow> wire_ok w \<and> block_type (fst w) = TLV_Content) \<and>
     (\<exists>w. dp_signatureValue d = Some w \<and> wire_ok w \<and> block_type (fst w) = TLV_SignatureValue)"

definition signed_elements :: "data_packet \<Rightarrow> wire_block list" where
  "signed_elements d = canonical (meta_block (dp_metaInfo d)) # (case dp_content d of Some w \<Rightarrow> [w] | None \<Rightarrow> []) @
     [canonical (siginfo_block TLV_SignatureInfo (dp_signatureInfo d))]"

definition data_elements :: "data_packet \<Rightarrow> wire_block list" where
  "data_elements d = canonical (name_block (dp_name d)) # signed_elements d @ [the (dp_signatureValue d)]"

definition data_value :: "data_packet \<Rightarrow> bytes" where
  "data_value d = concat (map snd (data_elements d))"

lemma unsigned_portion:
  assumes "siginfo_ok (dp_signatureInfo d)"
  shows "data_wireEncode True d = Inr (concat (map snd (canonical (name_block (dp_name d)) # signed_elements d)))"
  using siginfo_encode [OF assms, of TLV_SignatureInfo]
  by (simp add: data_wireEncode_def signed_elements_def canonical_def name_block_wire meta_block_wire split: option.splits)

lemma data_encode: "data_packet_ok d \<Longrightarrow> data_wireEncode False d = Inr (makeBinaryBlock TLV_Data (data_value d))"
  using siginfo_encode [of "dp_signatureInfo d" TLV_SignatureInfo]
  by (auto simp: data_wireEncode_def data_packet_ok_def data_value_def data_elements_def signed_elements_def canonical_def name_block_wire meta_block_wire
      prependBlock_def siginfo_ok_def split: option.splits)

lemma data_elements_ok:
  assumes "data_packet_ok d" "length (data_value d) < 2 ^ 64"
  shows "list_all wire_ok (data_elements d)"
proof -
  have l: "length (concat (map snd (data_elements d))) < 2 ^ 64" using assms(2) by (simp add: data_value_def)
  have "wire_ok w" if w: "w \<in> set (data_elements d)" for w
  proof (cases "dp_content d = Some w \<or> dp_signatureValue d = Some w")
    case False
    then obtain b where "w = canonical b" "0 < block_type b" "block_type b < 2 ^ 32"
      using w assms(1) by (auto simp: data_elements_def signed_elements_def data_packet_ok_def name_block_def meta_block_def siginfo_block_def tlv_data_defs
          split: option.splits)
    then show ?thesis using canonical_ok [OF _ l, of b] w by simp
  qed (use assms(1) in \<open>unfold data_packet_ok_def, metis option.inject\<close>)
  then show ?thesis by (simp add: list_all_iff)
qed

lemma data_loop_elements:
  assumes "data_packet_ok d" "length (data_value d) < 2 ^ 64"
  shows "\<exists>k. fold_res data_step (tl (data_elements d)) (new_data (dp_name d), 1) = Inr (d, k)"
proof -
  note ok = assms(1) [unfolded data_packet_ok_def]
  obtain v where v: "dp_signatureValue d = Some v" "block_type (fst v) = TLV_SignatureValue" using ok by blast
  have short: "length (block_value b) < 2 ^ 64" if "canonical b \<in> set (data_elements d)" for b
    using length_concat_member [OF that, of snd] length_block_wire [of b] assms(2) by (simp add: data_value_def canonical_def)
  let ?m = "dp_metaInfo d" and ?s = "dp_signatureInfo d"
  have "canonical (meta_block ?m) \<in> set (data_elements d)" "canonical (siginfo_block TLV_SignatureInfo ?s) \<in> set (data_elements d)"
    by (simp_all add: data_elements_def signed_elements_def)
  then have m: "metainfo_wireDecode (meta_block ?m) new_meta_info = Inr ?m" and s: "siginfo_wireDecode TLV_SignatureInfo (siginfo_block TLV_SignatureInfo ?s) = Inr ?s"
    using metainfo_decode_encode [OF _ short, of ?m] siginfo_decode [OF _ short, of ?s] ok by (simp_all add: new_meta_info_def)
  have 1: "data_step (canonical (meta_block ?m)) (new_data (dp_name d), 1) = Inr ((new_data (dp_name d))\<lparr>dp_metaInfo := ?m\<rparr>, 2)"
    using m by (simp add: data_step_def canonical_def new_data_def) (simp add: meta_block_def)
  have 2: "\<exists>k < 4. fold_res data_step (case dp_content d of Some w \<Rightarrow> [w] | None \<Rightarrow> []) ((new_data (dp_name d))\<lparr>dp_metaInfo := ?m\<rparr>, 2) =
      Inr ((new_data (dp_name d))\<lparr>dp_metaInfo := ?m, dp_content := dp_content d\<rparr>, k)"
    using ok by (cases "dp_content d") (auto simp: data_step_def tlv_data_defs new_data_def)
  have 3: "data_step (canonical (siginfo_block TLV_SignatureInfo ?s)) (q, k) = Inr (q\<lparr>dp_signatureInfo := ?s\<rparr>, 4)" if "k < 4" for q k
    using s that by (simp add: data_step_def canonical_def) (simp add: siginfo_block_def tlv_data_defs)
  have 4: "data_step v (q, 4) = Inr (q\<lparr>dp_signatureValue := Some v\<rparr>, 5)" for q using v(2) by (simp add: data_step_def tlv_data_defs)
  show ?thesis using 1 2 3 4 v(1) by (fastforce simp: data_elements_def signed_elements_def new_data_def)
qed

lemma data_decode_encode:
  assumes "data_packet_ok d" "length (data_value d) < 2 ^ 64"
  shows "data_wireDecode (Block TLV_Data (data_value d)) = Inr d"
proof -
  have "parse_wire (data_value d) = Inr (data_elements d)"
    unfolding data_value_def by (rule parse_wire_wires [OF data_elements_ok [OF assms]])
  moreover have "name_wireDecode (name_block (dp_name d)) = Inr (dp_name d)" using assms(1) by (intro name_block_decode) (simp add: data_packet_ok_def)
  moreover have "hd (data_elements d) = canonical (name_block (dp_name d))" "data_elements d \<noteq> []" by (simp_all add: data_elements_def)
  moreover obtain k where "fold_res data_step (tl (data_elements d)) (new_data (dp_name d), 1) = Inr (d, k)"
    using data_loop_elements [OF assms] by blast
  ultimately show ?thesis using assms(1)
    by (auto simp: data_wireDecode_def canonical_def name_block_def data_packet_ok_def siginfo_ok_def)
qed

section \<open>Properties\<close>

text \<open>
  C34: Well-formed signed Data is encoded, the encoding is one element whatever bytes follow it, and
  decoding that element gives the same Data: name, MetaInfo, content, SignatureInfo and SignatureValue.
\<close>

theorem data_roundtrip:
  assumes "data_packet_ok d" "length (data_value d) < 2 ^ 64"
  shows "\<exists>bs b. data_wireEncode False d = Inr bs \<and> fromBuffer (bs @ rest) = Some (b, rest) \<and> data_wireDecode b = Inr d"
proof -
  have "fromBuffer (makeBinaryBlock TLV_Data (data_value d) @ rest) = Some (Block TLV_Data (data_value d), rest)"
    using assms(2) by (intro fromBuffer_makeBinaryBlock) (simp_all add: TLV_Data_def)
  then show ?thesis using data_encode [OF assms(1)] data_decode_encode [OF assms] by blast
qed

definition demo_data_packet :: data_packet where
  "demo_data_packet = \<lparr>dp_name = [Component 8 [97]],
     dp_metaInfo = \<lparr>mi_type = 0, mi_freshnessPeriod = 1000, mi_finalBlockId = Some (Component 8 [1]), mi_appMetaInfo = []\<rparr>,
     dp_content = Some (canonical (Block TLV_Content [104, 105])),
     dp_signatureInfo = \<lparr>si_type = 1, si_keyLocator = Some (KL_Name [Component 8 [107]]), si_otherTlvs = []\<rparr>,
     dp_signatureValue = Some (canonical (Block TLV_SignatureValue [1, 2, 3]))\<rparr>"

lemma demo_data_packet_ok: "data_packet_ok demo_data_packet"
proof -
  have "wire_ok (canonical (Block TLV_Content [104, 105]))" "wire_ok (canonical (Block TLV_SignatureValue [1, 2, 3]))"
    by (simp_all add: wire_ok_canonical block_ok_def tlv_data_defs)
  then show ?thesis
    by (simp add: data_packet_ok_def demo_data_packet_def meta_ok_def siginfo_ok_def locator_ok_def comp_ok_def block_ok_def valid_component_def
        ensureValid_def canonical_def)
qed

lemma demo_data_packet_short: "length (data_value demo_data_packet) < 2 ^ 64"
proof -
  have small: "length (makeBinaryBlock t v) \<le> 18 + length v" "length (makeNonNegativeIntegerBlock t n) \<le> 26" for t v n
    by (simp_all add: makeBinaryBlock_def makeNonNegativeIntegerBlock_def length_writeVarNumber length_writeNonNegativeInteger
        sizeOfVarNumber_def sizeOfNonNegativeInteger_def)
  have wire: "length (block_wire b) \<le> 18 + length (block_value b)" for b using small(1) by (simp add: block_wire_def)
  have c: "length (comp_wire (Component 8 [x])) \<le> 19" for x using small(1) [of 8 "[x]"] by (simp add: comp_wire_def makeBinaryBlock_def)
  have n: "length (name_wireEncode [Component 8 [x]]) \<le> 37" for x
    using small(1) [of TLV_Name "comp_wire (Component 8 [x])"] c [of x] by (simp add: name_wireEncode_def)
  let ?m = "dp_metaInfo demo_data_packet" and ?s = "dp_signatureInfo demo_data_packet"
  have "length (block_value (meta_block ?m)) \<le> 26 + 37"
    using small(2) [of TLV_FreshnessPeriod 1000] small(1) [of TLV_FinalBlockId "comp_wire (Component 8 [1])"] c [of 1]
    by (simp add: demo_data_packet_def meta_block_def meta_elements_def canonical_def number_block_wire) (simp add: final_block_def block_wire_def)
  moreover have "length (block_value (siginfo_block TLV_SignatureInfo ?s)) \<le> 26 + 55"
    using small(2) [of TLV_SignatureType 1] wire [of "locator_block (KL_Name [Component 8 [107]])"] n [of 107]
    by (simp add: demo_data_packet_def siginfo_block_def siginfo_elements_def canonical_def number_block_wire)
      (simp add: locator_block_def locator_elements_def canonical_def name_block_wire)
  ultimately have "length (data_value demo_data_packet) \<le> 1000"
    using wire [of "meta_block ?m"] wire [of "siginfo_block TLV_SignatureInfo ?s"] n [of 97] wire [of "Block TLV_Content [104, 105]"]
      wire [of "Block TLV_SignatureValue [1, 2, 3]"]
    by (simp add: data_value_def data_elements_def signed_elements_def canonical_def name_block_wire) (simp add: demo_data_packet_def canonical_def)
  then show ?thesis by simp
qed

theorem data_roundtrip_witness:
  "\<exists>bs b. data_wireEncode False demo_data_packet = Inr bs \<and> fromBuffer (bs @ [9]) = Some (b, [9]) \<and> data_wireDecode b = Inr demo_data_packet"
  by (rule data_roundtrip [OF demo_data_packet_ok demo_data_packet_short])

text \<open>
  C35: Signing Data by appending the signature to the encoded unsigned portion gives the same bytes as
  setting the signature value and encoding the whole packet.
\<close>

theorem signing_equivalence:
  assumes "siginfo_ok (dp_signatureInfo d)" "data_wireEncode True d = Inr buffer"
  shows "data_wireEncode False (d\<lparr>dp_signatureValue := Some (canonical (Block TLV_SignatureValue signature))\<rparr>) =
    Inr (data_wireEncode_signature buffer signature)"
  using assms siginfo_encode [OF assms(1), of TLV_SignatureInfo]
  by (auto simp: data_wireEncode_def data_wireEncode_signature_def siginfo_ok_def prependBlock_def canonical_def block_wire_def [of "Block _ _"]
      split: option.splits)

theorem signing_equivalence_witness:
  "\<exists>buffer. data_wireEncode True demo_data_packet = Inr buffer \<and>
     data_wireEncode False (demo_data_packet\<lparr>dp_signatureValue := Some (canonical (Block TLV_SignatureValue [5]))\<rparr>) =
       Inr (data_wireEncode_signature buffer [5])"
  using signing_equivalence [of demo_data_packet _ "[5]"] unsigned_portion [of demo_data_packet] demo_data_packet_ok by (simp add: data_packet_ok_def)

text \<open>
  Decoding a MetaInfo into an object that already has application elements keeps the old elements in
  front of the decoded ones: the decoder resets every field but this one.
\<close>

theorem metainfo_decode_accumulates:
  assumes "meta_ok mi" "length (block_value (meta_block mi)) < 2 ^ 64"
  shows "metainfo_wireDecode (meta_block mi) m0 = Inr (mi\<lparr>mi_appMetaInfo := mi_appMetaInfo m0 @ mi_appMetaInfo mi\<rparr>)"
  by (rule metainfo_decode_encode [OF assms])

theorem metainfo_decode_accumulates_witness:
  "metainfo_wireDecode (meta_block new_meta_info) (new_meta_info\<lparr>mi_appMetaInfo := [canonical (Block 128 [1])]\<rparr>) =
     Inr (new_meta_info\<lparr>mi_appMetaInfo := [canonical (Block 128 [1])]\<rparr>)"
  using metainfo_decode_accumulates [of new_meta_info "new_meta_info\<lparr>mi_appMetaInfo := [canonical (Block 128 [1])]\<rparr>"]
  by (simp add: meta_ok_def new_meta_info_def meta_block_def meta_elements_def)

end
