(* ===== verification/Spec2Isabelle.thy ===== *)
theory Spec2Isabelle
  imports End_To_End Hashtable_Refinement Data_Codec
begin

text \<open>
  \<^bold>\<open>Reflexive forwarding in NFD\<close>

  The repository holds a modified NDN forwarder (\<open>src/Mods/NFD\<close>) and its packet library
  (\<open>src/Mods/ndn-cxx\<close>).  A consumer's Interest whose name has a reflexive component gets a
  fresh 32-bit PIT token at every forwarder; the producer answers with a reflexive Interest that
  carries the token and follows it back to the consumer, hop by hop, without a route.  This library
  models the tables and pipelines that do this, from the bytes of names to the transition system of
  a whole forwarder.

  \<^bold>\<open>Theories, in the order of the code.\<close>
  \<^item> \<open>NDN_Prelude\<close>: results with failures (exceptions, failed assertions and accesses outside an
    object are values of one type), big-endian numbers, byte comparison, shared list lemmas.
  \<^item> \<open>Tlv\<close> (\<open>encoding/tlv.hpp\<close>, \<open>encoding/block.cpp\<close>): numbers and elements; the codec contract.
  \<^item> \<open>Name_Component\<close>, \<open>Names\<close> (\<open>name-component.cpp\<close>, \<open>name.cpp\<close>): validity, wire form, canonical
    order, successors, naming conventions, reflexive components.
  \<^item> \<open>Name_Uri\<close> (\<open>name.cpp\<close>, \<open>name-component.cpp\<close>, \<open>impl/name-component-types.hpp\<close>, \<open>util/string-helper.cpp\<close>):
    URIs, printed and read, with the constructor of reflexive names.
  \<^item> \<open>Packets\<close> (\<open>interest.cpp\<close>, \<open>data.cpp\<close>, \<open>lp/nack-header.cpp\<close>): what the forwarder reads of a
    packet, and matching.
  \<^item> \<open>Interest_Codec\<close>, \<open>Data_Codec\<close> (\<open>interest.cpp\<close>, \<open>data.cpp\<close>, \<open>meta-info.cpp\<close>, \<open>key-locator.cpp\<close>,
    \<open>signature-info.cpp\<close>): the packets on the wire, element by element, with the parameters digest; an
    element keeps the bytes it came with.  The contract \<open>local_decoder\<close> of a reader.
  \<^item> \<open>Pit_Assist\<close> (\<open>table/assist.hpp\<close>): the token registry and the generator of tokens, a partial
    function of a random source; the contract \<open>token_registry\<close>.
  \<^item> \<open>Name_Tree\<close> (\<open>table/name-tree*.cpp\<close>): the tree that carries the FIB, PIT, measurements and
    strategy choice entries of a name; the contract \<open>tree_table\<close> of a table kept in it.
  \<^item> \<open>Name_Tree_Hashtable\<close>, \<open>Hashtable_Refinement\<close> (\<open>table/name-tree-hashtable.cpp\<close>): the hashtable
    below the tree, with nodes on a heap and doubly linked buckets; it refines the map of \<open>Name_Tree\<close>.
  \<^item> \<open>Fib\<close>, \<open>Pit\<close>, \<open>Measurements\<close>, \<open>Strategy_Choice\<close> (the files of the same names under \<open>table/\<close>).
  \<^item> \<open>City_Hash\<close>, \<open>Dead_Nonce_List\<close>: the hash on 64-bit words and the list of dead nonces.
  \<^item> \<open>Cs_Policy\<close>, \<open>Cs\<close> (\<open>table/cs*.cpp\<close>): the content store; the contract \<open>cs_policy\<close> of a
    replacement policy, met by LRU and by priority FIFO.
  \<^item> \<open>Fw_Algorithm\<close> (\<open>fw/algorithm.cpp\<close>, \<open>fw/retx-suppression*.cpp\<close>): scope, duplicate nonces,
    eligibility of next hops, retransmission suppression.
  \<^item> \<open>Forwarder\<close> (\<open>fw/forwarder.cpp\<close>, \<open>fw/strategy.cpp\<close>, \<open>fw/best-route-strategy.cpp\<close>,
    \<open>fw/multicast-strategy.cpp\<close>, \<open>table/cleanup.cpp\<close>): the pipelines as functions on one state
    record \<open>fw\<close>, which holds the tables, the Interests as objects in a store and the list of packets
    sent.  \<open>Forwarder_Inv\<close>, \<open>Forwarder_Pipelines\<close>, \<open>Forwarder_Return\<close>: the invariant \<open>fw_inv\<close>, what an
    action of a strategy may change (\<open>stable\<close>, \<open>acts\<close>, \<open>runs\<close>), and that every pipeline runs to its
    end and keeps the invariant.  \<open>Forwarder_Steps\<close>: inputs, the step relation, reachability.
  \<^item> \<open>Client_Face\<close> (\<open>face.cpp\<close>, \<open>impl/face-impl.hpp\<close>, \<open>impl/pending-interest.hpp\<close>, \<open>impl/record-container.hpp\<close>,
    \<open>interest-filter.cpp\<close>): the face of an application, with its event queue; a callback that runs is recorded.
    \<open>Demo_Apps\<close> (\<open>src/Experiments/consumer-producer_RI\<close>): the two demonstration applications.
  \<^item> \<open>Reflexive\<close>: the exchange itself, over the pipelines.  \<open>Scenario\<close>: a small network used in the
    examples that follow the theorems.  \<open>End_To_End\<close>: the applications on both sides of a forwarder.

  \<^bold>\<open>How the state corresponds.\<close>  An object the code shares by \<open>shared_ptr\<close> (an Interest, a PIT
  entry) is a number that refers into a store, because the code writes tags into Interests that
  in-records share and a theorem below depends on that.  The name tree is an association list from
  names to entries; what a table stores in it is read back by \<open>fib_at\<close>, \<open>pit_at\<close>, \<open>meas_at\<close> and
  \<open>sc_at\<close>.  Time is in nanoseconds as an integer; a scheduled event is the time it is due.  Sent
  packets are appended to \<open>fw_out\<close>.  Random numbers come from a function of the number of draws.

  \<^bold>\<open>What is shown.\<close>  Here: the exchange with the Data that answers it, and what fails in it (the token of the Data that returns,
  the entry a rejected reflexive Interest leaves behind); no reachable state fails; single
  packets and timers do what they promise.  At the edge: an application's Interest has at most one outcome, a
  client face fails in two ways only, and the demonstration runs through all three parties.  In the component theories: each table refines a map or a
  set, searches are exact, decoders accept only well-formed packets and codecs round-trip, optimised readers equal the plain ones, the dead nonce list
  keeps what it is given for 1023 further operations, bounds are kept.

  \<^bold>\<open>Hypotheses.\<close>  The random source is a parameter; where a token is drawn it is assumed to still
  hold a usable value at or after every position (\<open>tokens_available\<close>), without which the code's search
  does not end.  Received Interests and Data are valid as decoded (\<open>interest_ok\<close>, \<open>data_ok\<close>): names of
  valid components, no implicit digest inside, tokens of at least four bytes, components of type 59 that
  hold a number, non-negative freshness.  Inputs outside these make the code throw or read outside a buffer.

  \<^bold>\<open>Bounds.\<close>  Recursions over the name tree carry a fuel of one more than the length of the name or
  the maximal depth of 32, which the tree's invariant bounds; the lemmas that use them are stated under
  that invariant and are exact.  The loop that draws tokens is a partial function and its termination is a
  theorem of its own.

  \<^bold>\<open>Not modelled.\<close>  Cryptography (SHA-256 is a parameter of the codecs); faces, link services and sockets (a face is its scope, link type, presence and two
  counters); the link protocol; the RIB and management; the ASF, access, self-learning and random strategies;
  configuration and logging.
\<close>

section \<open>The reflexive exchange\<close>

text \<open>
  C1: A reflexive exchange through one forwarder.  A consumer's Interest with a reflexive name
  component leaves on the best route with a fresh non-zero PIT token; when the producer's reflexive
  Interest comes back with that token, on whatever face, it leaves on the consumer's face and
  carries the token the consumer had put on its own Interest.
\<close>

theorem reflexive_exchange:
  assumes "fw_inv s" "tokens_available s" "consumer_case s f i nonce t0 nh" "nteDepth (i_name i) = length (i_name i)"
    and "accepts s g j nonce'" "isReflexiveInterestFromProducer j = Inr True"
    and "effective (sc_at (pit_nt (fw_pit s))) (i_name j) = Some st" "st_type st = BestRouteStrategy"
    and "\<not> (i_hopLimit (default_hop s (received g j)) = Some 0 \<and> f_scope (face_of s f) = NON_LOCAL)"
  shows "\<exists>s1 s2 t. onIncomingInterest i f s = Inr s1 \<and> t \<noteq> 0 \<and>
    fw_out s1 = fw_out s @ [OutInterest (nh_face nh) (forwarded s f i (Some (setPitToken t)))] \<and>
    onIncomingInterest (j\<lparr>i_pitToken := Some (setPitToken t)\<rparr>) g s1 = Inr s2 \<and> fw_inv s2 \<and>
    fw_out s2 = fw_out s1 @ [OutInterest f (forwarded s g j (Some (setPitToken t0)))]"
  using exchange [OF assms] .

theorem reflexive_exchange_witness:
  "\<exists>s1 s2 t. onIncomingInterest demo_interest 1 demo = Inr s1 \<and> t \<noteq> 0 \<and>
    fw_out s1 = [OutInterest 2 (forwarded demo 1 demo_interest (Some (setPitToken t)))] \<and>
    onIncomingInterest (demo_reflexive\<lparr>i_pitToken := Some (setPitToken t)\<rparr>) 2 s1 = Inr s2 \<and> fw_inv s2 \<and>
    fw_out s2 = fw_out s1 @ [OutInterest 1 (forwarded demo 2 demo_reflexive (Some (setPitToken 42)))]"
proof -
  have "nteDepth (i_name demo_interest) = length (i_name demo_interest)" by (simp add: nteDepth_def demo_interest_def getMaxDepth_def isImplicitSha256Digest_def)
  moreover have "i_hopLimit (default_hop demo (received 2 demo_reflexive)) = None"
    by (simp add: default_hop_def received_def demo_reflexive_def no_interest_def)
  ultimately show ?thesis
    using reflexive_exchange [OF demo_inv demo_tokens demo_consumer _ demo_accepts(2) demo_producer(2), of default_strategy 2] demo_effective(2)
    by (simp add: default_strategy_def)
qed

text \<open>
  C2: Data on the reflexive path.  After the exchange, Data from the consumer that answers the
  producer's reflexive Interest leaves on the producer's face and on no other.
\<close>

theorem reflexive_data_returns:
  assumes "fw_inv s" "tokens_available s" "consumer_case s f i nonce t0 nh" "nteDepth (i_name i) = length (i_name i)"
    and "accepts s g j nonce'" "isReflexiveInterestFromProducer j = Inr True"
    and "effective (sc_at (pit_nt (fw_pit s))) (i_name j) = Some st" "st_type st = BestRouteStrategy"
    and "\<not> (i_hopLimit (default_hop s (received g j)) = Some 0 \<and> f_scope (face_of s f) = NON_LOCAL)"
    and "data_ok d" "matchesData j d" "\<not> matchesData i d" "\<forall>e. attached (fw_pit s) e \<longrightarrow> \<not> matchesData (pit_interest s e) d"
    and "\<not> isPrefixOf LOCALHOST (d_name d)" "g \<noteq> f" "f_inTable (face_of s g)" "0 < i_lifetime j"
  shows "\<exists>s1 s2 s3 t. onIncomingInterest i f s = Inr s1 \<and> t \<noteq> 0 \<and>
    fw_out s1 = fw_out s @ [OutInterest (nh_face nh) (forwarded s f i (Some (setPitToken t)))] \<and>
    onIncomingInterest (j\<lparr>i_pitToken := Some (setPitToken t)\<rparr>) g s1 = Inr s2 \<and>
    fw_out s2 = fw_out s1 @ [OutInterest f (forwarded s g j (Some (setPitToken t0)))] \<and>
    onIncomingData d f s2 = Inr s3 \<and> fw_inv s3 \<and>
    fw_out s3 = fw_out s2 @ [OutData g (d\<lparr>d_incomingFaceId := Some f, d_pitToken := Some (setPitToken t0)\<rparr>)]"
  using exchange_data [OF assms] .

theorem reflexive_data_returns_witness:
  "\<exists>s1 s2 s3 t. onIncomingInterest demo_interest 1 demo = Inr s1 \<and> t \<noteq> 0 \<and>
    onIncomingInterest (demo_reflexive\<lparr>i_pitToken := Some (setPitToken t)\<rparr>) 2 s1 = Inr s2 \<and>
    onIncomingData (demo_data\<lparr>d_name := i_name demo_reflexive\<rparr>) 1 s2 = Inr s3 \<and>
    fw_out s3 = fw_out s2 @ [OutData 2 (demo_data\<lparr>d_name := i_name demo_reflexive, d_incomingFaceId := Some 1, d_pitToken := Some (setPitToken 42)\<rparr>)]"
proof -
  have hop: "i_hopLimit (default_hop demo (received 2 demo_reflexive)) = None"
    by (simp add: default_hop_def received_def demo_reflexive_def no_interest_def)
  have depth: "nteDepth (i_name demo_interest) = length (i_name demo_interest)" by (simp add: nteDepth_def demo_interest_def getMaxDepth_def isImplicitSha256Digest_def)
  let ?d = "demo_data\<lparr>d_name := i_name demo_reflexive\<rparr>"
  have d: "data_ok ?d" "matchesData demo_reflexive ?d" "\<not> matchesData demo_interest ?d" "\<not> isPrefixOf LOCALHOST (d_name ?d)" "0 < i_lifetime demo_reflexive"
    by (simp_all add: data_ok_def cacheable_def demo_data_def plain_name_def valid_name_def valid_component_def ensureValid_def isImplicitSha256Digest_def
        matchesData_def demo_reflexive_def demo_interest_def no_interest_def isPrefixOf_def LOCALHOST_def ascii_def DEFAULT_INTEREST_LIFETIME_def)
  have "\<exists>s1 s2 s3 t. onIncomingInterest demo_interest 1 demo = Inr s1 \<and> t \<noteq> 0 \<and>
    fw_out s1 = fw_out demo @ [OutInterest (nh_face \<lparr>nh_face = 2, nh_cost = 0\<rparr>) (forwarded demo 1 demo_interest (Some (setPitToken t)))] \<and>
    onIncomingInterest (demo_reflexive\<lparr>i_pitToken := Some (setPitToken t)\<rparr>) 2 s1 = Inr s2 \<and>
    fw_out s2 = fw_out s1 @ [OutInterest 1 (forwarded demo 2 demo_reflexive (Some (setPitToken 42)))] \<and>
    onIncomingData ?d 1 s2 = Inr s3 \<and> fw_inv s3 \<and>
    fw_out s3 = fw_out s2 @ [OutData 2 (?d\<lparr>d_incomingFaceId := Some 1, d_pitToken := Some (setPitToken 42)\<rparr>)]"
    by (rule reflexive_data_returns [OF demo_inv demo_tokens demo_consumer depth demo_accepts(2) demo_producer(2), of default_strategy])
      (use demo_effective(2) hop d in \<open>simp_all add: default_strategy_def attached_def demo_at face_of_def up_face_def\<close>)
  then show ?thesis by auto
qed

text \<open>
  C7: The Data that answers the consumer's Interest goes back on the consumer's face with the PIT
  token the forwarder chose for the next hop, not with the consumer's own: the token is written into
  the Interest object the in-record shares.
\<close>

theorem data_carries_next_hop_token:
  assumes "fw_inv s" "tokens_available s" "consumer_case s f i nonce t0 nh"
    and "data_ok d" "matchesData i d" "\<forall>e. attached (fw_pit s) e \<longrightarrow> \<not> matchesData (pit_interest s e) d"
    and "\<not> isPrefixOf LOCALHOST (d_name d)" "g \<noteq> f" "f_inTable (face_of s f)" "0 < i_lifetime i"
  shows "\<exists>s1 s2 t. onIncomingInterest i f s = Inr s1 \<and> usable_token (fw_assist s) t \<and> onIncomingData d g s1 = Inr s2 \<and>
    fw_out s2 = fw_out s1 @ [OutData f (d\<lparr>d_incomingFaceId := Some g, d_pitToken := Some (setPitToken t)\<rparr>)]"
  using data_token [OF assms] .

theorem data_carries_next_hop_token_witness:
  "\<exists>s1 s2 t. onIncomingInterest demo_interest 1 demo = Inr s1 \<and> usable_token new_pit_assist t \<and> onIncomingData demo_data 2 s1 = Inr s2 \<and>
    fw_out s2 = fw_out s1 @ [OutData 1 (demo_data\<lparr>d_incomingFaceId := Some 2, d_pitToken := Some (setPitToken t)\<rparr>)]"
  using data_carries_next_hop_token [OF demo_inv demo_tokens demo_consumer demo_data_ok(1,2) _ demo_data_ok(3) _ _ demo_data_ok(4), of 2]
  by (simp add: face_of_def up_face_def)

text \<open>
  C8: A reflexive Interest without a token or with an unknown one is answered by a Nack (reason
  None for no token, NoRoute for an unknown one); it leaves a new PIT entry that has no in-record and
  no expiry timer, so no timer event ever removes it.
\<close>

theorem reflexive_rejected:
  assumes "fw_inv s" "accepts s f i nonce" "isReflexiveInterestFromProducer i = Inr True"
    and "readInterestPitToken i = Inr t" "t = 0 \<or> \<not> snd (tokenToName (fw_assist s) t)"
    and "\<forall>e. attached (fw_pit s) e \<longrightarrow> \<not> matchesInterest (pit_interest s e) i"
  shows "\<exists>s' e. onIncomingInterest i f s = Inr s' \<and> fw_inv s' \<and>
    fw_out s' = fw_out s @ [OutNack f \<lparr>n_interest = received f i, n_reason = (if t = 0 then NONE else NO_ROUTE)\<rparr>] \<and>
    \<not> attached (fw_pit s) e \<and> attached (fw_pit s') e \<and> pe_in (entry_of s' e) = [] \<and> pe_expiryTimer (entry_of s' e) = None"
  using ri_rejected_entry [OF assms] .

theorem reflexive_rejected_witness:
  "\<exists>s' e. onIncomingInterest (demo_reflexive\<lparr>i_pitToken := Some (setPitToken 3)\<rparr>) 2 demo = Inr s' \<and> attached (fw_pit s') e \<and>
    fw_out s' = [OutNack 2 \<lparr>n_interest = received 2 (demo_reflexive\<lparr>i_pitToken := Some (setPitToken 3)\<rparr>), n_reason = NO_ROUTE\<rparr>] \<and>
    pe_expiryTimer (entry_of s' e) = None"
proof -
  let ?j = "demo_reflexive\<lparr>i_pitToken := Some (setPitToken 3)\<rparr>"
  have "accepts demo 2 ?j 9" using demo_accepts(2) by (simp add: accepts_def)
  moreover have "isReflexiveInterestFromProducer ?j = Inr True" using demo_producer(2) fromProducer_name_cong [of ?j demo_reflexive] by simp
  moreover have "readInterestPitToken ?j = Inr 3" by (simp add: readInterestPitToken_def)
  moreover have "\<not> snd (tokenToName (fw_assist demo) 3)" by (simp add: tokenToName_def new_pit_assist_def)
  ultimately show ?thesis using reflexive_rejected [OF demo_inv, of 2 ?j 9 3] by auto
qed

section \<open>All inputs, all reachable states\<close>



text \<open>
  C5: Every reachable state satisfies the forwarder's invariant; so two PIT entries never match the
  same Interest, the PIT's item counter is the number of its entries, the content store holds at most
  as many entries as its limit, and every registered token names exactly the Interest it was made for.
\<close>

theorem forwarder_invariant:
  assumes "new_forwarder now rnd n l = Inr s0" "reachable s0 s"
  shows "fw_inv s \<and> (\<forall>e e'. attached (fw_pit s) e \<and> attached (fw_pit s) e' \<and> matchesInterest (pit_interest s e) (pit_interest s e') \<longrightarrow> e = e') \<and>
    pit_nItems (fw_pit s) = word_of_nat (card {e. attached (fw_pit s) e}) \<and> length (cs_table (fw_cs s)) \<le> cs_limit (fw_cs s) \<and>
    (\<forall>m t. m_Name_to_Token (fw_assist s) m = Some t \<longrightarrow> t \<noteq> 0 \<and> tokenToName (fw_assist s) t = (m, True))"
proof -
  have inv: "fw_inv s" using new_forwarder_inv [of now rnd n l] reachable_inv [OF assms(2)] assms(1) by auto
  note P = pit_invD [OF fw_invD(1) [OF inv]]
  have "pit_interest s = entry_interest (fw_interests s) (fw_pit s)" by (simp add: fun_eq_iff pit_interest_def interest_of_def entry_of_def entry_interest_def)
  then have "\<forall>e e'. attached (fw_pit s) e \<and> attached (fw_pit s) e' \<and> matchesInterest (pit_interest s e) (pit_interest s e') \<longrightarrow> e = e'"
    using P(6) by metis
  moreover have "length (cs_table (fw_cs s)) \<le> cs_limit (fw_cs s)" using fw_invD(8) [OF inv] by (simp add: cs_inv_def)
  moreover have "\<forall>m t. m_Name_to_Token (fw_assist s) m = Some t \<longrightarrow> t \<noteq> 0 \<and> tokenToName (fw_assist s) t = (m, True)"
    using fw_invD(6) [OF inv] by (auto simp: assist_inv_def tokenToName_def)
  ultimately show ?thesis using inv P(8) by blast
qed

theorem forwarder_invariant_witness:
  "\<exists>s0. new_forwarder 0 (\<lambda>k. word_of_nat (Suc k)) 100 6000000000 = Inr s0 \<and> fw_inv (s0\<lparr>fw_now := 5\<rparr>)"
proof -
  obtain s0 where s0: "new_forwarder 0 (\<lambda>k. word_of_nat (Suc k)) 100 6000000000 = Inr s0" using new_forwarder_inv by blast
  moreover have "fw_now s0 = 0" using s0 by (auto simp: new_forwarder_def bind_res_eq_Inr)
  then have "fw_step s0 (Advance 5) (s0\<lparr>fw_now := 5\<rparr>)" by (auto intro: fw_step.step)
  from forwarder_invariant [OF s0 reachable.after [OF reachable.init this]] show ?thesis using s0 by blast
qed

section \<open>Single packets\<close>



text \<open>
  C9: When a PIT entry expires, the Interest finalize pipeline removes exactly that entry; every other
  entry, the token registry and the Interests stay as they are, and nothing is sent.
\<close>

theorem interest_finalized:
  assumes "fw_inv s" "attached (fw_pit s) e"
  shows "\<exists>s'. onInterestFinalize e s = Inr s' \<and> fw_inv s' \<and> fw_out s' = fw_out s \<and> fw_assist s' = fw_assist s \<and>
    (\<forall>e'. attached (fw_pit s') e' \<longleftrightarrow> attached (fw_pit s) e' \<and> e' \<noteq> e) \<and>
    (\<forall>e'. e' \<noteq> e \<longrightarrow> entry_of s' e' = entry_of s e') \<and> interest_of s' = interest_of s"
  using onInterestFinalize_ok [OF assms] .

theorem interest_finalized_witness:
  "\<exists>s1 s2. onIncomingInterest demo_interest 1 demo = Inr s1 \<and> (\<exists>e. attached (fw_pit s1) e \<and> onInterestFinalize e s1 = Inr s2 \<and> \<not> attached (fw_pit s2) e)"
proof -
  obtain s1 e where s1: "onIncomingInterest demo_interest 1 demo = Inr s1" "fw_inv s1" "attached (fw_pit s1) e"
    using consumer_forwarded [OF demo_inv demo_tokens demo_consumer] by (auto simp: only_entry_def)
  from interest_finalized [OF s1(2,3)] s1 show ?thesis by blast
qed

text \<open>
  C10: Best-route on an Interest that is not the producer's: whatever it sends is either the Interest
  on a face other than the ingress (unless that is ad hoc) on which it violates no scope, or a Nack to
  the ingress.
\<close>

theorem best_route_scope:
  assumes "ready r e s" "isReflexiveInterestFromProducer (interest_of s r) = Inr False"
  shows "\<exists>s' evs. bestRoute_afterReceiveInterest rp r f e s = Inr s' \<and> fw_out s' = fw_out s @ evs \<and>
    list_all (event_ok (fw_faces s) f (interest_of s r)) evs"
  using bestRoute_sends_ok [OF assms, of rp f] by blast

theorem best_route_scope_witness:
  "\<exists>s1 s2 r e evs. onIncomingInterest demo_interest 1 demo = Inr s1 \<and> bestRoute_afterReceiveInterest default_retx r 1 e s1 = Inr s2 \<and>
    fw_out s2 = fw_out s1 @ evs \<and> list_all (event_ok (fw_faces s1) 1 (interest_of s1 r)) evs"
proof -
  obtain s1 e where s1: "onIncomingInterest demo_interest 1 demo = Inr s1" "fw_inv s1" "attached (fw_pit s1) e"
      "matchesInterest (pit_interest s1 e) demo_interest"
    using consumer_forwarded [OF demo_inv demo_tokens demo_consumer] by (auto simp: only_entry_def)
  let ?r = "pe_interest (entry_of s1 e)"
  have "i_name (interest_of s1 ?r) = i_name demo_interest" using s1(4) by (simp add: matchesInterest_def pit_interest_def)
  then have p: "isReflexiveInterestFromProducer (interest_of s1 ?r) = Inr False" using demo_producer(1) fromProducer_name_cong by metis
  then have "ready ?r e s1" using s1(2,3) fw_invD(2) [OF s1(2,3)] by (simp add: ready_def records_inv_def pit_interest_def)
  from best_route_scope [OF this p] s1(1) show ?thesis by blast
qed

end
